(* ===== verification/Prelude.thy ===== *)
theory Prelude
  imports Main "HOL-Library.Word" "HOL-Library.Multiset"
begin

text \<open>
  What the component theories share.  A concurrent component is a list of thread-local
  states next to one shared state; a \<open>stepper\<close> lists, for thread \<open>i\<close>, every outcome of
  its next atomic action (no outcome: the thread is blocked or has finished; several: the
  language leaves a choice open, such as which waiter a notification wakes).  The steppers
  of the components are executable functions; \<open>istep\<close> is the interleaving of their actions
  under an arbitrary scheduler, \<open>exec\<close> runs one given schedule, and the two locales at the
  end hold what every component's safety and progress proofs have in common.
\<close>

named_theorems thread_simps \<open>weights and projections of thread-local states\<close>

section \<open>Thread lists\<close>

text \<open>The sum of a weight over all threads: a counting argument over program counters.\<close>

definition tsum :: "('l \<Rightarrow> nat) \<Rightarrow> 'l list \<Rightarrow> nat" where
  "tsum w ts = sum_list (map w ts)"

lemma tsum_Nil [simp]: "tsum w [] = 0"
  by (simp add: tsum_def)

lemma tsum_Cons [simp]: "tsum w (t # ts) = w t + tsum w ts"
  by (simp add: tsum_def)

lemma tsum_append [simp]: "tsum w (ts @ us) = tsum w ts + tsum w us"
  by (simp add: tsum_def)

lemma tsum_replicate [simp]: "tsum w (replicate n t) = n * w t"
  by (induction n) simp_all

lemma tsum_map [simp]: "tsum w (map f ts) = tsum (\<lambda>t. w (f t)) ts"
  by (simp add: tsum_def comp_def)

lemma tsum_one [simp]: "tsum (\<lambda>_. Suc 0) ts = length ts"
  by (induction ts) simp_all

lemma tsum_update:
  "i < length ts \<Longrightarrow> tsum w (ts[i := l]) + w (ts ! i) = tsum w ts + w l"
proof (induction ts arbitrary: i)
  case Nil
  then show ?case by simp
next
  case (Cons t ts)
  then show ?case by (cases i) auto
qed

lemma tsum_update_cong:
  assumes "i < length ts" and "\<And>j. j < length ts \<Longrightarrow> j \<noteq> i \<Longrightarrow> v (ts ! j) = w (ts ! j)"
  shows "tsum v (ts[i := l]) + w (ts ! i) = tsum w ts + v l"
  using assms
proof (induction ts arbitrary: i)
  case Nil
  then show ?case by simp
next
  case (Cons t ts)
  show ?case
  proof (cases i)
    case 0
    have "v (ts ! j) = w (ts ! j)" if "j < length ts" for j
      using Cons.prems(2) [of "Suc j"] that 0 by simp
    then have "tsum v ts = tsum w ts"
      unfolding tsum_def by (metis map_equality_iff)
    with 0 show ?thesis by simp
  next
    case (Suc k)
    have "v (ts ! j) = w (ts ! j)" if "j < length ts" "j \<noteq> k" for j
      using Cons.prems(2) [of "Suc j"] that Suc by simp
    moreover have "v t = w t" using Cons.prems(2) [of 0] Suc by simp
    ultimately show ?thesis using Cons.IH [of k] Cons.prems(1) Suc by simp
  qed
qed

lemma tsum_member: "i < length ts \<Longrightarrow> w (ts ! i) \<le> tsum w ts"
proof (induction ts arbitrary: i)
  case Nil
  then show ?case by simp
next
  case (Cons t ts)
  then show ?case by (cases i) (auto intro: le_add2 order_trans)
qed

lemma tsum_update_less:
  "i < length ts \<Longrightarrow> w l < w (ts ! i) \<Longrightarrow> tsum w (ts[i := l]) < tsum w ts"
  using tsum_update [of i ts w l] by linarith

lemma tsum_mono: "(\<And>t. w t \<le> v t) \<Longrightarrow> tsum w ts \<le> tsum v ts"
  by (induction ts) (auto intro: add_mono)

lemma tsum_bounded: "(\<And>t. t \<in> set ts \<Longrightarrow> w t \<le> k) \<Longrightarrow> tsum w ts \<le> k * length ts"
  by (induction ts) (simp_all add: add_mono)

lemma tsum_eq_0_iff: "tsum w ts = 0 \<longleftrightarrow> (\<forall>t \<in> set ts. w t = 0)"
  by (induction ts) auto

lemma tsum_option_0:
  assumes "\<And>j k. j < length qs \<Longrightarrow> qs ! j = Some k \<Longrightarrow> w k = 0"
  shows "tsum (case_option 0 w) qs = 0"
  unfolding tsum_eq_0_iff
proof
  fix q
  assume "q \<in> set qs"
  then obtain j where "j < length qs" "qs ! j = q" by (auto simp only: in_set_conv_nth)
  then show "case_option 0 w q = 0" using assms [of j] by (cases q) simp_all
qed

lemma tsum_cong: "(\<And>t. t \<in> set ts \<Longrightarrow> w t = v t) \<Longrightarrow> tsum w ts = tsum v ts"
  by (induction ts) auto

lemma tsum_add: "tsum (\<lambda>t. w t + v t) ts = tsum w ts + tsum v ts"
  by (induction ts) auto

lemma tsum_pos_member: "0 < tsum w ts \<Longrightarrow> \<exists>i < length ts. 0 < w (ts ! i)"
proof (rule ccontr)
  assume pos: "0 < tsum w ts" and none: "\<not> (\<exists>i < length ts. 0 < w (ts ! i))"
  then have "\<forall>t \<in> set ts. w t = 0"
    by (auto simp: in_set_conv_nth)
  then have "tsum w ts = 0" by (simp add: tsum_eq_0_iff)
  with pos show False by simp
qed

lemma list_all_update: "list_all P xs \<Longrightarrow> P x \<Longrightarrow> list_all P (xs[i := x])"
  by (auto simp: list_all_iff dest!: set_update_subset_insert [THEN subsetD])

text \<open>A counter \<open>x\<close> and what the threads still owe it, against a total that moves with them.\<close>

lemma balance:
  fixes x :: "'a::cancel_comm_monoid_add"
  assumes "x + owed = sum0" and "d + owed' + sum0 = owed + sum1"
  shows "x + d + owed' = sum1"
proof -
  have "owed + (x + d + owed') = d + owed' + (x + owed)" by (simp add: ac_simps)
  also have "\<dots> = owed + sum1" using assms by simp
  finally show ?thesis by simp
qed

text \<open>Two different threads of positive weight count twice: mutual exclusion.\<close>

lemma tsum_ones: "(\<And>x. x \<in> set xs \<Longrightarrow> w x = 1) \<Longrightarrow> tsum w xs = length xs"
  by (induction xs) simp_all

lemma tsum_tail_ones:
  assumes "length xs = Suc n" "\<And>j. j < n \<Longrightarrow> w (xs ! Suc j) = 1"
  shows "n \<le> tsum w xs"
proof -
  obtain x ys where xs: "xs = x # ys" "length ys = n" using assms(1) by (cases xs) auto
  then have "tsum w ys = n" using assms(2) tsum_ones [of ys w] by (auto simp: in_set_conv_nth)
  then show ?thesis using xs by simp
qed

lemma tsum_two:
  assumes "i < length ts" "j < length ts" "i \<noteq> j"
  shows "w (ts ! i) + w (ts ! j) \<le> tsum w ts"
proof -
  define us where us: "us = take i ts @ drop (Suc i) ts"
  have split: "ts = take i ts @ ts ! i # drop (Suc i) ts"
    using assms(1) by (rule id_take_nth_drop)
  have "ts ! j \<in> set us"
  proof (cases "j < i")
    case True
    then have "ts ! j = take i ts ! j" and "j < length (take i ts)"
      using assms by auto
    then show ?thesis unfolding us by (metis Un_iff nth_mem set_append)
  next
    case False
    then have "ts ! j = drop (Suc i) ts ! (j - Suc i)" and "j - Suc i < length (drop (Suc i) ts)"
      using assms by auto
    then show ?thesis unfolding us by (metis Un_iff nth_mem set_append)
  qed
  then obtain k where "k < length us" "us ! k = ts ! j" by (auto simp: in_set_conv_nth)
  then have "w (ts ! j) \<le> tsum w us" using tsum_member [of k us w] by simp
  moreover have "tsum w ts = tsum w us + w (ts ! i)"
    by (subst split) (simp add: us)
  ultimately show ?thesis by simp
qed

text \<open>The same sum over multisets: the items that threads carry.\<close>

definition tmset :: "('l \<Rightarrow> 'a multiset) \<Rightarrow> 'l list \<Rightarrow> 'a multiset" where
  "tmset w ts = sum_list (map w ts)"

lemma tmset_Nil [simp]: "tmset w [] = {#}"
  by (simp add: tmset_def)

lemma tmset_Cons [simp]: "tmset w (t # ts) = w t + tmset w ts"
  by (simp add: tmset_def)

lemma tmset_append [simp]: "tmset w (ts @ us) = tmset w ts + tmset w us"
  by (simp add: tmset_def)

lemma tmset_update:
  "i < length ts \<Longrightarrow> tmset w (ts[i := l]) + w (ts ! i) = tmset w ts + w l"
proof (induction ts arbitrary: i)
  case Nil
  then show ?case by simp
next
  case (Cons t ts)
  then show ?case
    by (cases i) (auto simp: ac_simps union_lcomm)
qed

lemma tmset_empty: "(\<And>t. t \<in> set ts \<Longrightarrow> w t = {#}) \<Longrightarrow> tmset w ts = {#}"
  by (induction ts) auto

lemma tmset_cong: "(\<And>t. t \<in> set ts \<Longrightarrow> w t = v t) \<Longrightarrow> tmset w ts = tmset v ts"
  by (induction ts) auto

lemma list_all_update_others:
  assumes "list_all q ts" "i < length ts" "p' l"
    and "\<And>j. j < length ts \<Longrightarrow> j \<noteq> i \<Longrightarrow> q (ts ! j) \<Longrightarrow> p' (ts ! j)"
  shows "list_all p' (ts[i := l])"
  using assms by (auto simp: list_all_length nth_list_update)

lemma tsum_card: "tsum (\<lambda>t. of_bool (q t)) ts = card {i. i < length ts \<and> q (ts ! i)}"
proof -
  have "tsum (\<lambda>t. of_bool (q t)) ts = length (filter q ts)" by (induction ts) simp_all
  then show ?thesis by (simp add: length_filter_conv_card)
qed

section \<open>Interleavings\<close>

type_synonym ('l, 'g) conf = "'l list \<times> 'g"
type_synonym ('l, 'g) stepper = "nat \<Rightarrow> 'l list \<Rightarrow> 'g \<Rightarrow> ('l \<times> 'g) list"

inductive istep :: "('l, 'g) stepper \<Rightarrow> ('l, 'g) conf \<Rightarrow> ('l, 'g) conf \<Rightarrow> bool" for st where
  istepI: "i < length ts \<Longrightarrow> (l, g') \<in> set (st i ts g) \<Longrightarrow> istep st (ts, g) (ts[i := l], g')"

inductive_cases istepE: "istep st (ts, g) c"

inductive_simps istep_iff: "istep st (ts, g) c"

abbreviation steps :: "('l, 'g) stepper \<Rightarrow> ('l, 'g) conf \<Rightarrow> ('l, 'g) conf \<Rightarrow> bool" where
  "steps st \<equiv> (istep st)\<^sup>*\<^sup>*"

text \<open>
  A spinning or polling thread takes steps that change nothing.  A \<open>move\<close> is a step that
  changes the configuration: progress is counted in moves.
\<close>

definition move :: "('l, 'g) stepper \<Rightarrow> ('l, 'g) conf \<Rightarrow> ('l, 'g) conf \<Rightarrow> bool" where
  "move st c c' \<longleftrightarrow> istep st c c' \<and> c' \<noteq> c"

lemma moveI:
  assumes "i < length ts" "(l, g') \<in> set (st i ts g)" "l \<noteq> ts ! i"
  shows "\<exists>c'. move st (ts, g) c'"
proof -
  have "istep st (ts, g) (ts[i := l], g')" using assms(1,2) by (rule istepI)
  moreover have "(ts[i := l], g') \<noteq> (ts, g)"
    using assms(1,3) by (metis nth_list_update_eq prod.inject)
  ultimately have "move st (ts, g) (ts[i := l], g')" by (simp add: move_def)
  then show ?thesis by blast
qed

text \<open>Running a schedule: thread \<open>i\<close> takes its outcome number \<open>k\<close>.\<close>

fun exec :: "('l, 'g) stepper \<Rightarrow> ('l, 'g) conf \<Rightarrow> (nat \<times> nat) list \<Rightarrow> ('l, 'g) conf option" where
  "exec st c [] = Some c"
| "exec st (ts, g) ((i, k) # sched) =
     (if i < length ts \<and> k < length (st i ts g)
      then (case st i ts g ! k of (l, g') \<Rightarrow> exec st (ts[i := l], g') sched)
      else None)"

lemma exec_steps: "exec st c sched = Some c' \<Longrightarrow> steps st c c'"
proof (induction st c sched rule: exec.induct)
  case (1 st c)
  then show ?case by simp
next
  case (2 st ts g i k sched)
  from "2.prems" have i: "i < length ts" and k: "k < length (st i ts g)"
    by (auto split: if_splits)
  obtain l g' where lg: "st i ts g ! k = (l, g')" by force
  with k have "(l, g') \<in> set (st i ts g)" by (metis nth_mem)
  with i have "istep st (ts, g) (ts[i := l], g')" by (rule istepI)
  moreover have "exec st (ts[i := l], g') sched = Some c'"
    using "2.prems" i k lg by simp
  then have "steps st (ts[i := l], g') c'"
    using "2.IH" i k lg by force
  ultimately show ?case by (rule converse_rtranclp_into_rtranclp)
qed

text \<open>No thread has an action: everything has returned, or the program is deadlocked.\<close>

definition stuck :: "('l, 'g) stepper \<Rightarrow> ('l, 'g) conf \<Rightarrow> bool" where
  "stuck st c = (case c of (ts, g) \<Rightarrow> list_all (\<lambda>i. st i ts g = []) [0..<length ts])"

lemma stuck_iff: "stuck st (ts, g) \<longleftrightarrow> (\<forall>i < length ts. st i ts g = [])"
  by (auto simp: stuck_def list_all_iff)

lemma stuck_no_step: "stuck st c \<Longrightarrow> \<not> istep st c c'"
  by (cases c) (auto simp: stuck_iff elim!: istepE)

lemma stuck_steps: "stuck st c \<Longrightarrow> steps st c c' \<Longrightarrow> c' = c"
  by (metis converse_rtranclpE stuck_no_step)

text \<open>Safety: an invariant that each action of each thread keeps holds in every reachable state.\<close>

locale interleaving =
  fixes st :: "('l, 'g) stepper"
    and start :: "('l, 'g) conf"
    and inv :: "('l, 'g) conf \<Rightarrow> bool"
  assumes start_inv: "inv start"
    and act_inv: "inv (ts, g) \<Longrightarrow> i < length ts \<Longrightarrow> (l, g') \<in> set (st i ts g)
      \<Longrightarrow> inv (ts[i := l], g')"
begin

lemma step_inv: "istep st c c' \<Longrightarrow> inv c \<Longrightarrow> inv c'"
  by (induction rule: istep.induct) (rule act_inv)

lemma steps_inv: "steps st c c' \<Longrightarrow> inv c \<Longrightarrow> inv c'"
  by (induction rule: rtranclp_induct) (auto intro: step_inv)

lemma reach_inv: "steps st start c \<Longrightarrow> inv c"
  using start_inv by (rule steps_inv [rotated])

end

text \<open>
  A program always finishes: every run makes a bounded number of moves, from every reachable
  state a final one can be reached, and a reachable state without moves is final.
\<close>

definition finishes :: "('l, 'g) stepper \<Rightarrow> ('l, 'g) conf \<Rightarrow> (('l, 'g) conf \<Rightarrow> bool) \<Rightarrow> nat \<Rightarrow> bool" where
  "finishes st start final bound \<longleftrightarrow>
     (\<forall>k c. (move st ^^ k) start c \<longrightarrow> k \<le> bound) \<and>
     (\<forall>c. steps st start c \<longrightarrow> (\<exists>cf. steps st c cf \<and> final cf)) \<and>
     (\<forall>c. steps st start c \<longrightarrow> (\<forall>c'. \<not> move st c c') \<longrightarrow> final c)"

lemma finishes_mono:
  assumes "finishes st start final bound" and "\<And>c. final c \<Longrightarrow> final' c" and "bound \<le> bound'"
  shows "finishes st start final' bound'"
  using assms unfolding finishes_def by (meson order_trans)

context interleaving begin

lemma finishes_with:
  assumes "finishes st start final bound" and "\<And>c. inv c \<Longrightarrow> final c \<Longrightarrow> final' c"
  shows "finishes st start final' bound"
proof -
  have "final' cf" if "steps st start c" "steps st c cf" "final cf" for c cf
    using assms(2) [OF reach_inv that(3)] that(1,2) by (meson rtranclp_trans)
  then show ?thesis
    using assms(1) unfolding finishes_def by (meson rtranclp.rtrancl_refl)
qed

end

text \<open>
  Progress: outside the final states some thread can move, and every move decreases a
  measure.  Then every run makes at most as many moves as the start's measure, and a run
  that cannot move any more is in a final state: there is no deadlock and no livelock.
\<close>

locale live_interleaving = interleaving +
  fixes final :: "('l, 'g) conf \<Rightarrow> bool"
    and rank :: "('l, 'g) conf \<Rightarrow> nat"
  assumes progress: "inv c \<Longrightarrow> \<not> final c \<Longrightarrow> \<exists>c'. move st c c'"
    and decrease: "inv (ts, g) \<Longrightarrow> i < length ts \<Longrightarrow> (l, g') \<in> set (st i ts g)
      \<Longrightarrow> (ts[i := l], g') \<noteq> (ts, g) \<Longrightarrow> rank (ts[i := l], g') < rank (ts, g)"
begin

lemma move_decreases:
  assumes "inv c" and "move st c c'"
  shows "rank c' < rank c"
  using assms(2,1) unfolding move_def
  by (elim conjE istep.cases) (auto dest: decrease)

lemma moves_bounded: "(move st ^^ n) start c \<Longrightarrow> n + rank c \<le> rank start"
proof (induction n arbitrary: c)
  case 0
  then show ?case by simp
next
  case (Suc n)
  then obtain b where b: "(move st ^^ n) start b" and bc: "move st b c" by auto
  from b have "steps st start b"
  proof (induction n arbitrary: b)
    case 0
    then show ?case by simp
  next
    case (Suc n)
    then show ?case by (auto simp: move_def intro: rtranclp.rtrancl_into_rtrancl)
  qed
  then have "inv b" by (rule reach_inv)
  then have "rank c < rank b" using bc by (rule move_decreases)
  with Suc.IH [OF b] show ?case by simp
qed

lemma no_move_final: "steps st start c \<Longrightarrow> (\<And>c'. \<not> move st c c') \<Longrightarrow> final c"
  using progress reach_inv by blast

lemma stuck_final: "steps st start c \<Longrightarrow> stuck st c \<Longrightarrow> final c"
  by (rule no_move_final) (auto simp: move_def dest: stuck_no_step)

lemma final_reachable: "steps st start c \<Longrightarrow> \<exists>cf. steps st c cf \<and> final cf"
proof (induction "rank c" arbitrary: c rule: less_induct)
  case less
  show ?case
  proof (cases "final c")
    case True
    then show ?thesis by blast
  next
    case False
    have "inv c" using less.prems by (rule reach_inv)
    with False obtain c' where c': "move st c c'" using progress by blast
    with \<open>inv c\<close> have "rank c' < rank c" by (simp add: move_decreases)
    moreover have "istep st c c'" using c' by (simp add: move_def)
    moreover have "steps st start c'"
      using less.prems \<open>istep st c c'\<close> by (rule rtranclp.rtrancl_into_rtrancl)
    ultimately obtain cf where "steps st c' cf" "final cf" using less.hyps by blast
    then show ?thesis using \<open>istep st c c'\<close> by (blast intro: converse_rtranclp_into_rtranclp)
  qed
qed

lemma always_finishes: "rank start \<le> bound \<Longrightarrow> finishes st start final bound"
  unfolding finishes_def
  using final_reachable no_move_final by (auto dest: moves_bounded)

end

text \<open>
  The way to show it when every action decreases the measure: a state in which nobody has an
  action is final.
\<close>

lemma live_by_measure:
  fixes st :: "('l, 'g) stepper" and inv final :: "('l, 'g) conf \<Rightarrow> bool" and rank :: "('l, 'g) conf \<Rightarrow> nat"
  assumes start: "inv start"
    and keeps: "\<And>ts g i l g'. inv (ts, g) \<Longrightarrow> i < length ts \<Longrightarrow> (l, g') \<in> set (st i ts g) \<Longrightarrow> inv (ts[i := l], g')"
    and stuck: "\<And>ts g. inv (ts, g) \<Longrightarrow> (\<And>i. i < length ts \<Longrightarrow> st i ts g = []) \<Longrightarrow> final (ts, g)"
    and less: "\<And>ts g i l g'. inv (ts, g) \<Longrightarrow> i < length ts \<Longrightarrow> (l, g') \<in> set (st i ts g)
      \<Longrightarrow> rank (ts[i := l], g') < rank (ts, g)"
  shows "live_interleaving st start inv final rank"
proof
  fix conf
  assume inv: "inv conf" and "\<not> final conf"
  obtain ts g where conf: "conf = (ts, g)" by (metis surj_pair)
  with inv \<open>\<not> final conf\<close> obtain i where i: "i < length ts" "st i ts g \<noteq> []" using stuck by blast
  then obtain l g' where act: "(l, g') \<in> set (st i ts g)"
    by (metis list.set_intros(1) neq_Nil_conv surj_pair)
  then have "(ts[i := l], g') \<noteq> (ts, g)" using less [of ts g i l g'] inv conf i(1) by auto
  moreover have "istep st (ts, g) (ts[i := l], g')" using i(1) act by (rule istepI)
  ultimately show "\<exists>c'. move st conf c'" unfolding move_def conf by blast
qed (use start keeps less in blast)+

text \<open>The same when the shared state is a pair, of an object and the other variables.\<close>

lemma live_by_rank:
  fixes st :: "('l, 'g \<times> 'c) stepper" and inv final :: "('l, 'g \<times> 'c) conf \<Rightarrow> bool"
    and rank :: "('l, 'g \<times> 'c) conf \<Rightarrow> nat"
  assumes "inv start"
    and "\<And>ts g c i l g' c'. inv (ts, (g, c)) \<Longrightarrow> i < length ts \<Longrightarrow> (l, (g', c')) \<in> set (st i ts (g, c))
      \<Longrightarrow> inv (ts[i := l], (g', c'))"
    and "\<And>ts g c. inv (ts, (g, c)) \<Longrightarrow> (\<And>i. i < length ts \<Longrightarrow> st i ts (g, c) = []) \<Longrightarrow> final (ts, (g, c))"
    and "\<And>ts g c i l g' c'. inv (ts, (g, c)) \<Longrightarrow> i < length ts \<Longrightarrow> (l, (g', c')) \<in> set (st i ts (g, c))
      \<Longrightarrow> rank (ts[i := l], (g', c')) < rank (ts, (g, c))"
  shows "live_interleaving st start inv final rank"
  by (rule live_by_measure) (use assms in \<open>auto simp del: split_paired_All split_paired_Ex\<close>)

end
