(* ===== verification/Double.thy ===== *)
theory Double
  imports Complex_Main Prelude
begin

text \<open>
  The arithmetic of \<open>double\<close> (IEEE 754 binary64, round to nearest, ties to even) as real
  arithmetic followed by one rounding per operation.  \<open>rnd64\<close> is the rounding; it is the
  identity on the integers up to \<open>2 ^ 53\<close> in absolute value, keeps signs, and has relative error at
  most \<open>2 ^ -53\<close> in the normal range.  Overflow to infinity is not modelled: the sources
  only form values below \<open>2 ^ 200\<close>.  The locale \<open>rounding\<close> is the interface the
  statistics code relies on; \<open>rnd64\<close> is its instance.
\<close>

section \<open>Rounding to nearest, ties to even\<close>

definition round_even :: "real \<Rightarrow> int" where
  "round_even y =
     (let f = \<lfloor>y\<rfloor>; d = y - of_int f in
      if d < 1 / 2 then f
      else if 1 / 2 < d then f + 1
      else if even f then f else f + 1)"

text \<open>The distance between neighbouring doubles around \<open>x\<close> (subnormals below \<open>2 ^ -1022\<close>).\<close>

definition ulp_exp :: "real \<Rightarrow> int" where
  "ulp_exp x = max (\<lfloor>log 2 \<bar>x\<bar>\<rfloor> - 52) (- 1074)"

definition ulp :: "real \<Rightarrow> real" where
  "ulp x = 2 powr of_int (ulp_exp x)"

definition rnd64 :: "real \<Rightarrow> real" where
  "rnd64 x = (if x = 0 then 0 else of_int (round_even (x / ulp x)) * ulp x)"

lemma round_even_of_int [simp]: "round_even (of_int k) = k"
  by (simp add: round_even_def)

lemma round_even_error: "\<bar>of_int (round_even y) - y\<bar> \<le> 1 / 2"
proof -
  have "of_int \<lfloor>y\<rfloor> \<le> y" and "y < of_int \<lfloor>y\<rfloor> + 1" by linarith+
  then show ?thesis by (auto simp: round_even_def Let_def abs_le_iff)
qed

lemma round_even_nonneg: "0 \<le> y \<Longrightarrow> 0 \<le> round_even y"
proof -
  assume "0 \<le> y"
  then have "0 \<le> \<lfloor>y\<rfloor>" by simp
  then show ?thesis by (auto simp: round_even_def Let_def)
qed

lemma ulp_pos [simp]: "0 < ulp x"
  by (simp add: ulp_def)

lemma ulp_nonzero [simp]: "ulp x \<noteq> 0"
  using ulp_pos [of x] by linarith

section \<open>The laws of the rounding\<close>

lemma rnd64_zero [simp]: "rnd64 0 = 0"
  by (simp add: rnd64_def)

lemma rnd64_nonneg: "0 \<le> x \<Longrightarrow> 0 \<le> rnd64 x"
  by (auto simp: rnd64_def intro!: mult_nonneg_nonneg round_even_nonneg divide_nonneg_pos
      less_imp_le [OF ulp_pos])

lemma rnd64_half_ulp: "\<bar>rnd64 x - x\<bar> \<le> ulp x / 2"
proof (cases "x = 0")
  case True
  then show ?thesis by (simp add: less_imp_le)
next
  case False
  have "\<bar>of_int (round_even (x / ulp x)) - x / ulp x\<bar> * ulp x \<le> 1 / 2 * ulp x"
    by (intro mult_right_mono round_even_error) (simp add: less_imp_le)
  moreover have "\<bar>of_int (round_even (x / ulp x)) - x / ulp x\<bar> * ulp x
      = \<bar>(of_int (round_even (x / ulp x)) - x / ulp x) * ulp x\<bar>"
    by (simp add: abs_mult less_imp_le)
  moreover have "(of_int (round_even (x / ulp x)) - x / ulp x) * ulp x = rnd64 x - x"
    using False by (simp add: rnd64_def left_diff_distrib)
  ultimately show ?thesis by simp
qed

lemma rnd64_rel_error:
  assumes "2 powr (- 1022) \<le> \<bar>x\<bar>"
  shows "\<bar>rnd64 x - x\<bar> \<le> \<bar>x\<bar> * 2 powr (- 53)"
proof -
  have x: "0 < \<bar>x\<bar>"
    using assms by (metis less_le_trans powr_gt_zero zero_neq_numeral)
  have "- 1022 \<le> log 2 \<bar>x\<bar>"
    using assms x by (simp add: le_log_iff)
  then have "- 1022 \<le> \<lfloor>log 2 \<bar>x\<bar>\<rfloor>" by linarith
  then have e: "ulp_exp x = \<lfloor>log 2 \<bar>x\<bar>\<rfloor> - 52"
    unfolding ulp_exp_def by (intro max_absorb1) linarith
  have "2 powr of_int \<lfloor>log 2 \<bar>x\<bar>\<rfloor> \<le> 2 powr log 2 \<bar>x\<bar>"
    by (rule powr_mono) simp_all
  also have "\<dots> = \<bar>x\<bar>" using x by simp
  finally have "2 powr of_int \<lfloor>log 2 \<bar>x\<bar>\<rfloor> * 2 powr (- 53) \<le> \<bar>x\<bar> * 2 powr (- 53)"
    by (rule mult_right_mono) simp
  moreover have "ulp x / 2 = 2 powr of_int \<lfloor>log 2 \<bar>x\<bar>\<rfloor> * 2 powr (- 53)"
    by (simp add: ulp_def e powr_diff powr_minus powr_numeral)
  ultimately show ?thesis using rnd64_half_ulp [of x] by linarith
qed

lemma rnd64_pos:
  assumes "2 powr (- 1022) \<le> x"
  shows "0 < rnd64 x"
proof -
  have x: "0 < x" using assms by (metis less_le_trans powr_gt_zero zero_neq_numeral)
  have "\<bar>rnd64 x - x\<bar> \<le> x * 2 powr (- 53)" using rnd64_rel_error [of x] assms x by simp
  moreover have "x * 2 powr (- 53) < x * 1"
  proof (rule mult_strict_left_mono [OF _ x])
    have "(2::real) powr (- 53) < 2 powr 0" by (subst powr_less_cancel_iff) simp_all
    then show "(2::real) powr (- 53) < 1" by simp
  qed
  ultimately show ?thesis by linarith
qed

lemma rnd64_exact_int:
  assumes "\<bar>k\<bar> \<le> 2 ^ 53"
  shows "rnd64 (of_int k) = of_int k"
proof (cases "k = 0")
  case True
  then show ?thesis by simp
next
  case False
  define e where "e = ulp_exp (of_int k)"
  have k1: "1 \<le> \<bar>of_int k :: real\<bar>" using False by linarith
  then have l0: "0 \<le> log 2 \<bar>of_int k :: real\<bar>" by simp
  then have "0 \<le> \<lfloor>log 2 \<bar>of_int k :: real\<bar>\<rfloor>" by linarith
  then have e: "e = \<lfloor>log 2 \<bar>of_int k :: real\<bar>\<rfloor> - 52"
    unfolding e_def ulp_exp_def by (intro max_absorb1) linarith
  have "\<exists>j::int. of_int k / (2::real) powr of_int e = of_int j"
  proof (cases "\<bar>k\<bar> = 2 ^ 53")
    case True
    then have "\<bar>of_int k :: real\<bar> = 2 ^ 53"
      by (metis of_int_abs of_int_numeral of_int_power)
    then have "log 2 \<bar>of_int k :: real\<bar> = 53"
      by (simp only: log_pow_cancel)
    then have "e = 1" using e by simp
    moreover have "k = 2 * (k div 2)"
      using True by (simp add: abs_if split: if_splits) presburger+
    then have "of_int k = 2 * (of_int (k div 2) :: real)"
      by (metis of_int_mult of_int_numeral)
    then have "of_int k / (2::real) = of_int (k div 2)" by simp
    ultimately show ?thesis by (intro exI [of _ "k div 2"]) simp
  next
    case False
    then have "\<bar>k\<bar> < 2 ^ 53" using assms by simp
    then have "\<bar>of_int k :: real\<bar> < 2 ^ 53"
      by (metis of_int_abs of_int_less_iff of_int_numeral of_int_power)
    then have "log 2 \<bar>of_int k :: real\<bar> < log 2 (2 ^ 53)"
      using k1 by (subst log_less_cancel_iff) simp_all
    then have "log 2 \<bar>of_int k :: real\<bar> < 53"
      by (simp only: log_pow_cancel)
    then have "\<lfloor>log 2 \<bar>of_int k :: real\<bar>\<rfloor> < 53" by linarith
    then have "e \<le> 0" using e by linarith
    then have "of_int k / (2::real) powr of_int e = of_int k * 2 powr of_int (- e)"
      by (simp add: powr_minus field_simps)
    also have "2 powr of_int (- e) = (2::real) ^ nat (- e)"
      using \<open>e \<le> 0\<close> powr_realpow [of 2 "nat (- e)"] by simp
    also have "of_int k * 2 ^ nat (- e) = (of_int (k * 2 ^ nat (- e)) :: real)" by simp
    finally show ?thesis by blast
  qed
  then obtain j where j: "of_int k / ulp (of_int k) = of_int j"
    by (auto simp: ulp_def e_def)
  then have "of_int j * ulp (of_int k) = (of_int k :: real)"
    by (metis nonzero_eq_divide_eq ulp_nonzero)
  then have "of_int (round_even (of_int k / ulp (of_int k))) * ulp (of_int k) = (of_int k :: real)"
    by (simp only: j round_even_of_int)
  then show ?thesis using False by (simp add: rnd64_def)
qed

text \<open>One rounding of a positive number in the normal range.\<close>

lemma rnd64_close:
  assumes "2 powr (- 1022) \<le> x"
  shows "\<bar>rnd64 x - x\<bar> \<le> x / 2 ^ 53"
proof -
  have "0 < x" using assms by (metis less_le_trans powr_gt_zero zero_neq_numeral)
  have "\<bar>rnd64 x - x\<bar> \<le> \<bar>x\<bar> * 2 powr (- 53)" by (rule rnd64_rel_error [OF order_trans [OF assms abs_ge_self]])
  also have "\<dots> = x / 2 ^ 53"
    using \<open>0 < x\<close> by (simp only: powr_neg_numeral zero_less_numeral abs_of_pos times_divide_eq_right mult_1_right)
  finally show ?thesis .
qed

lemma tiny: "2 powr (- 1022) \<le> x" if "(1 :: real) / 1000000000 \<le> x" for x :: real
proof -
  have "(2 :: real) powr (- 1022) \<le> 2 powr (- 30)" by (rule powr_mono) simp_all
  also have "\<dots> = 1 / 2 ^ 30" by (simp only: powr_neg_numeral zero_less_numeral)
  also have "\<dots> \<le> 1 / 1000000000" by simp
  finally show ?thesis using that by (rule order_trans)
qed

section \<open>The interface of the statistics code\<close>

locale rounding =
  fixes rnd :: "real \<Rightarrow> real"
  assumes rnd_nonneg: "0 \<le> x \<Longrightarrow> 0 \<le> rnd x"
    and rnd_pos: "2 powr (- 1022) \<le> x \<Longrightarrow> 0 < rnd x"
    and rnd_exact: "\<bar>k\<bar> \<le> 2 ^ 53 \<Longrightarrow> rnd (of_int k) = of_int k"
begin

lemma rnd_zero [simp]: "rnd 0 = 0"
  using rnd_exact [of 0] by simp

lemma rnd_nat: "n \<le> 2 ^ 53 \<Longrightarrow> rnd (of_nat n) = of_nat n"
  using rnd_exact [of "int n"] by simp

end

interpretation binary64: rounding rnd64
  by unfold_locales (auto intro: rnd64_nonneg rnd64_pos rnd64_exact_int)

end
