(* ===== verification/Fairness.thy ===== *)
theory Fairness
  imports Double
begin

text \<open>
  The fairness statistics: \<open>variance_tracker\<close> (include/variance\_tracker.hpp and
  common/variance\_tracker.cpp) and the copy of its formula in \<open>run_contention_window\<close>
  (include/bench\_harness.hpp).  A counter is a 64-bit word, so \<open>fetch_add\<close> wraps; the
  floating-point operations round with the parameter \<open>rnd\<close>, one rounding per operation in
  the order the code performs them, and the code's functions are the instances at \<open>rnd64\<close>.
\<close>

section \<open>The counters\<close>

type_synonym uint64 = "64 word"

record variance_tracker =
  thread_counts :: "uint64 list"

definition variance_tracker_ctor :: "nat \<Rightarrow> variance_tracker" where
  "variance_tracker_ctor num_threads = \<lparr>thread_counts = replicate num_threads 0\<rparr>"

definition record_operation :: "nat \<Rightarrow> variance_tracker \<Rightarrow> variance_tracker" where
  "record_operation thread_id t =
     (if thread_id < length (thread_counts t)
      then t\<lparr>thread_counts := (thread_counts t)[thread_id := thread_counts t ! thread_id + 1]\<rparr>
      else t)"

definition reset_counts :: "variance_tracker \<Rightarrow> variance_tracker" where
  "reset_counts t = t\<lparr>thread_counts := map (\<lambda>_. 0) (thread_counts t)\<rparr>"

definition get_counts :: "variance_tracker \<Rightarrow> uint64 list" where
  "get_counts t = foldl (\<lambda>counts counter. counts @ [counter]) [] (thread_counts t)"

section \<open>The coefficient of variation\<close>

text \<open>\<open>static_cast<double>(count)\<close>: the nearest double to the counter's value.\<close>

definition to_double :: "(real \<Rightarrow> real) \<Rightarrow> uint64 \<Rightarrow> real" where
  "to_double rnd w = rnd (real (unat w))"

definition mean_of :: "(real \<Rightarrow> real) \<Rightarrow> uint64 list \<Rightarrow> nat \<Rightarrow> real" where
  "mean_of rnd counts n =
     rnd (foldl (\<lambda>mean count. rnd (mean + to_double rnd count)) 0 counts / rnd (real n))"

definition variance_of :: "(real \<Rightarrow> real) \<Rightarrow> real \<Rightarrow> uint64 list \<Rightarrow> nat \<Rightarrow> real" where
  "variance_of rnd mean counts n =
     rnd (foldl (\<lambda>variance count.
            let deviation = rnd (to_double rnd count - mean)
            in rnd (variance + rnd (deviation * deviation))) 0 counts / rnd (real n))"

definition tracker_cv :: "(real \<Rightarrow> real) \<Rightarrow> uint64 list \<Rightarrow> real" where
  "tracker_cv rnd counts =
     (if counts = [] then 0
      else let mean = mean_of rnd counts (length counts)
           in if mean = 0 then 0
              else rnd (rnd (sqrt (variance_of rnd mean counts (length counts))) / mean))"

definition coefficient_of_variation :: "variance_tracker \<Rightarrow> real" where
  "coefficient_of_variation t = tracker_cv rnd64 (get_counts t)"

text \<open>
  The harness has loops of its own.  The first adds each count to the operations and to the mean;
  the second, only run when \<open>mean > 0.0\<close>, loads the counters again.  Both divide by \<open>num_threads\<close>.  (With no
  threads the code computes 0/0, which is not greater than 0, and leaves the result at 0;
  division by zero is 0 here, with the same outcome.)
\<close>

fun harness_sums :: "(real \<Rightarrow> real) \<Rightarrow> uint64 list \<Rightarrow> uint64 \<times> real \<Rightarrow> uint64 \<times> real" where
  "harness_sums rnd [] (result_ops, mean) = (result_ops, mean)"
| "harness_sums rnd (v # counts) (result_ops, mean) =
     harness_sums rnd counts (result_ops + v, rnd (mean + to_double rnd v))"

fun harness_deviations :: "(real \<Rightarrow> real) \<Rightarrow> real \<Rightarrow> uint64 list \<Rightarrow> real \<Rightarrow> real" where
  "harness_deviations rnd mean [] variance = variance"
| "harness_deviations rnd mean (c # counts) variance =
     (let d = rnd (to_double rnd c - mean) in harness_deviations rnd mean counts (rnd (variance + rnd (d * d))))"

definition harness_cv :: "(real \<Rightarrow> real) \<Rightarrow> nat \<Rightarrow> uint64 list \<Rightarrow> real" where
  "harness_cv rnd num_threads counts =
     (let mean = rnd (snd (harness_sums rnd counts (0, 0)) / rnd (real num_threads))
      in if 0 < mean
         then let variance = rnd (harness_deviations rnd mean counts 0 / rnd (real num_threads))
              in rnd (rnd (sqrt variance) / mean)
         else 0)"

lemma harness_sums_eq:
  "harness_sums rnd counts (ops, mean)
    = (foldl (+) ops counts, foldl (\<lambda>mean count. rnd (mean + to_double rnd count)) mean counts)"
  by (induction counts arbitrary: ops mean) simp_all

lemma harness_deviations_eq:
  "harness_deviations rnd mean counts variance = foldl (\<lambda>variance count.
     let deviation = rnd (to_double rnd count - mean) in rnd (variance + rnd (deviation * deviation))) variance counts"
  by (induction counts arbitrary: variance) (simp_all add: Let_def)

lemma harness_cv_eq:
  "harness_cv rnd n counts = (let mean = mean_of rnd counts n
     in if 0 < mean then rnd (rnd (sqrt (variance_of rnd mean counts n)) / mean) else 0)"
  by (simp add: harness_cv_def harness_sums_eq harness_deviations_eq mean_of_def variance_of_def Let_def)

section \<open>Facts about the counters\<close>

lemma get_counts_eq: "get_counts t = thread_counts t"
proof -
  have "foldl (\<lambda>cs c. cs @ [c]) acc xs = acc @ xs" for acc xs :: "uint64 list"
    by (induction xs arbitrary: acc) simp_all
  then show ?thesis by (simp add: get_counts_def)
qed

lemma length_record_operation [simp]:
  "length (thread_counts (record_operation i t)) = length (thread_counts t)"
  by (simp add: record_operation_def)

lemma record_operation_other [simp]:
  "i \<noteq> j \<Longrightarrow> thread_counts (record_operation i t) ! j = thread_counts t ! j"
  by (simp add: record_operation_def)

lemma record_operation_same:
  "i < length (thread_counts t)
    \<Longrightarrow> thread_counts (record_operation i t) ! i = thread_counts t ! i + 1"
  by (simp add: record_operation_def)

text \<open>A run of recordings: counter \<open>i\<close> has moved by the number of recordings with that id.\<close>

lemma record_operations_count:
  "i < length (thread_counts t)
    \<Longrightarrow> thread_counts (fold record_operation ids t) ! i
        = thread_counts t ! i + of_nat (count_list ids i)"
proof (induction ids arbitrary: t)
  case Nil
  then show ?case by simp
next
  case (Cons j ids)
  then show ?case by (cases "j = i") (simp_all add: record_operation_same algebra_simps)
qed

lemma length_record_operations [simp]:
  "length (thread_counts (fold record_operation ids t)) = length (thread_counts t)"
  by (induction ids arbitrary: t) simp_all

lemma record_operation_map:
  "tid < n \<Longrightarrow> thread_counts t = map f [0..<n]
    \<Longrightarrow> thread_counts (record_operation tid t) = map (f(tid := f tid + 1)) [0..<n]"
  by (auto simp: record_operation_def intro!: nth_equalityI simp: nth_list_update)

lemma sum_list_bump:
  "i < length xs \<Longrightarrow> sum_list (xs[i := xs ! i + 1]) = sum_list xs + (1::uint64)"
proof (induction xs arbitrary: i)
  case Nil
  then show ?case by simp
next
  case (Cons x xs)
  then show ?case by (cases i) (auto simp: ac_simps)
qed

section \<open>Facts about the statistics, for any rounding\<close>

context rounding begin

lemma fold_nonneg:
  "(\<And>a x. 0 \<le> a \<Longrightarrow> 0 \<le> f a x) \<Longrightarrow> 0 \<le> a \<Longrightarrow> 0 \<le> foldl f a xs" for f :: "real \<Rightarrow> 'a \<Rightarrow> real"
  by (induction xs arbitrary: a) simp_all

lemma to_double_nonneg [simp]: "0 \<le> to_double rnd w"
  unfolding to_double_def by (rule rnd_nonneg) (rule of_nat_0_le_iff)

lemma to_double_exact: "unat w \<le> 2 ^ 53 \<Longrightarrow> to_double rnd w = real (unat w)"
  by (simp only: to_double_def rnd_nat)

lemma mean_nonneg: "0 \<le> mean_of rnd counts n"
  unfolding mean_of_def
  by (intro rnd_nonneg divide_nonneg_nonneg fold_nonneg add_nonneg_nonneg) simp_all

lemma variance_nonneg: "0 \<le> variance_of rnd mean counts n"
  unfolding variance_of_def Let_def
  by (intro rnd_nonneg divide_nonneg_nonneg fold_nonneg add_nonneg_nonneg) simp_all

lemma tracker_cv_nonneg: "0 \<le> tracker_cv rnd counts"
  unfolding tracker_cv_def Let_def
  by (auto intro!: rnd_nonneg divide_nonneg_nonneg real_sqrt_ge_zero variance_nonneg mean_nonneg)

lemma harness_cv_eq_tracker_cv:
  "counts \<noteq> [] \<Longrightarrow> harness_cv rnd (length counts) counts = tracker_cv rnd counts"
  using mean_nonneg [of counts "length counts"]
  by (auto simp: harness_cv_eq tracker_cv_def Let_def)

lemma equal_counts_sum:
  "(k + n) * c \<le> 2 ^ 53 \<Longrightarrow> to_double rnd w = real c
    \<Longrightarrow> foldl (\<lambda>m x. rnd (m + to_double rnd x)) (real (k * c)) (replicate n w)
        = real ((k + n) * c)"
proof (induction n arbitrary: k)
  case 0
  then show ?case by simp
next
  case (Suc n)
  have "Suc k * c \<le> 2 ^ 53"
    using Suc.prems(1) by (rule order_trans [rotated]) simp
  then have "rnd (real (Suc k * c)) = real (Suc k * c)" by (rule rnd_nat)
  moreover have "real (k * c) + real c = real (Suc k * c)" by simp
  ultimately have "rnd (real (k * c) + to_double rnd w) = real (Suc k * c)"
    using Suc.prems(2) by presburger
  then have "foldl (\<lambda>m x. rnd (m + to_double rnd x)) (real (k * c)) (replicate (Suc n) w)
      = foldl (\<lambda>m x. rnd (m + to_double rnd x)) (real (Suc k * c)) (replicate n w)"
    by (simp del: of_nat_mult)
  also have "\<dots> = real ((Suc k + n) * c)"
    using Suc.prems by (intro Suc.IH) simp_all
  finally show ?case by simp
qed

lemma equal_counts_mean:
  assumes "0 < n" "n \<le> 2 ^ 53" "n * unat w \<le> 2 ^ 53"
  shows "mean_of rnd (replicate n w) n = real (unat w)"
proof -
  have c: "unat w \<le> 2 ^ 53"
    using assms(1,3) by (metis dual_order.trans mult_le_mono1 nat_mult_1 One_nat_def Suc_leI)
  have "foldl (\<lambda>m x. rnd (m + to_double rnd x)) 0 (replicate n w) = real (n * unat w)"
    using equal_counts_sum [of 0 n "unat w" w] assms(3) to_double_exact [OF c] by simp
  moreover have "rnd (real n) = real n" using assms(2) by (rule rnd_nat)
  moreover have "real (n * unat w) / real n = real (unat w)" using assms(1) by simp
  moreover have "rnd (real (unat w)) = real (unat w)" using c by (rule rnd_nat)
  ultimately show ?thesis by (simp only: mean_of_def)
qed

lemma equal_counts_variance:
  assumes "to_double rnd w = mean"
  shows "variance_of rnd mean (replicate n w) n = 0"
proof -
  have "foldl (\<lambda>v x. let d = rnd (to_double rnd x - mean) in rnd (v + rnd (d * d))) 0
      (replicate n w) = 0"
    by (induction n) (simp_all add: assms)
  then show ?thesis by (simp add: variance_of_def)
qed

text \<open>Equal shares are reported as perfectly fair, exactly, while the total is at most \<open>2 ^ 53\<close>.\<close>

lemma equal_counts_cv:
  assumes "n \<le> 2 ^ 53" "n * unat w \<le> 2 ^ 53"
  shows "tracker_cv rnd (replicate n w) = 0"
proof (cases "n = 0")
  case True
  then show ?thesis by (simp add: tracker_cv_def)
next
  case False
  then have m: "mean_of rnd (replicate n w) n = real (unat w)"
    using assms by (intro equal_counts_mean) simp_all
  have "unat w \<le> n * unat w" using False by simp
  also have "\<dots> \<le> 2 ^ 53" by (rule assms(2))
  finally have "to_double rnd w = real (unat w)" by (rule to_double_exact)
  then have "variance_of rnd (real (unat w)) (replicate n w) n = 0"
    by (rule equal_counts_variance)
  then show ?thesis using m by (simp add: tracker_cv_def Let_def)
qed

end

section \<open>The tracker and the harness in double precision\<close>

text \<open>
  The tracker counts exactly: after any sequence of recordings, the count of thread \<open>i\<close>
  is the number of recordings with its id, modulo \<open>2 ^ 64\<close>.  Recordings with an id out of
  range change nothing, whatever else is in the sequence.
\<close>

theorem tracker_counts:
  "map unat (get_counts (fold record_operation ids (variance_tracker_ctor n)))
   = map (\<lambda>i. count_list ids i mod 2 ^ 64) [0..<n]"
proof (rule nth_equalityI)
  show "length (map unat (get_counts (fold record_operation ids (variance_tracker_ctor n))))
      = length (map (\<lambda>i. count_list ids i mod 2 ^ 64) [0..<n])"
    by (simp add: get_counts_eq variance_tracker_ctor_def)
next
  fix i
  assume "i < length (map unat (get_counts (fold record_operation ids (variance_tracker_ctor n))))"
  then have i: "i < n" by (simp add: get_counts_eq variance_tracker_ctor_def)
  then have "thread_counts (fold record_operation ids (variance_tracker_ctor n)) ! i
      = of_nat (count_list ids i)"
    by (subst record_operations_count) (simp_all add: variance_tracker_ctor_def)
  with i show "map unat (get_counts (fold record_operation ids (variance_tracker_ctor n))) ! i
      = map (\<lambda>i. count_list ids i mod 2 ^ 64) [0..<n] ! i"
    by (simp add: get_counts_eq variance_tracker_ctor_def unat_of_nat)
qed

text \<open>
  Equal shares are reported as perfectly fair: when every one of \<open>n\<close> threads has recorded
  \<open>c\<close> operations, the coefficient of variation computed in double precision is exactly 0, as
  long as the total is at most \<open>2 ^ 53\<close>.
\<close>

theorem equal_shares_fair:
  assumes "list_all (\<lambda>i. count_list ids i = c) [0..<n]" and "n \<le> 2 ^ 53" and "n * c \<le> 2 ^ 53"
  shows "coefficient_of_variation (fold record_operation ids (variance_tracker_ctor n)) = 0"
proof (cases "n = 0")
  case True
  then show ?thesis
    by (simp add: coefficient_of_variation_def tracker_cv_def get_counts_eq variance_tracker_ctor_def
        flip: length_0_conv)
next
  case False
  let ?t = "fold record_operation ids (variance_tracker_ctor n)"
  have "c \<le> n * c" using False by simp
  also have "\<dots> < 2 ^ 64" using assms(3) by simp
  finally have c: "unat (of_nat c :: uint64) = c" by (simp add: unat_of_nat)
  have "thread_counts ?t = replicate n (of_nat c)"
  proof (rule nth_equalityI)
    fix i
    assume "i < length (thread_counts ?t)"
    then have i: "i < n" by (simp add: variance_tracker_ctor_def)
    then have "thread_counts ?t ! i = of_nat (count_list ids i)"
      by (subst record_operations_count) (simp_all add: variance_tracker_ctor_def)
    then show "thread_counts ?t ! i = replicate n (of_nat c) ! i"
      using assms(1) i by (simp add: list_all_iff)
  qed (simp add: variance_tracker_ctor_def)
  then show ?thesis
    using binary64.equal_counts_cv [of n "of_nat c"] assms(2,3) c
    by (simp add: coefficient_of_variation_def get_counts_eq)
qed

theorem equal_shares_fair_witness:
  "list_all (\<lambda>i. count_list [0, 1, 7, 1, 0] i = 2) [0..<2]
    \<and> coefficient_of_variation (fold record_operation [0, 1, 7, 1, 0] (variance_tracker_ctor 2)) = 0"
  using equal_shares_fair [of "[0, 1, 7, 1, 0]" 2 2] by (simp add: upt_rec)

text \<open>
  C31. The two copies of the statistic agree: over the counts of at least one thread, the
  harness's own loops (guarded by \<open>mean > 0.0\<close>) and the tracker's (guarded by
  \<open>mean == 0.0\<close>) compute the same double, rounding by rounding, and it is never negative.
\<close>

theorem harness_agrees_with_tracker:
  "counts \<noteq> [] \<Longrightarrow>
     harness_cv rnd64 (length counts) counts = coefficient_of_variation \<lparr>thread_counts = counts\<rparr>
     \<and> 0 \<le> harness_cv rnd64 (length counts) counts"
  using binary64.harness_cv_eq_tracker_cv [of counts] binary64.tracker_cv_nonneg [of counts]
  by (simp add: coefficient_of_variation_def get_counts_eq)

theorem harness_agrees_with_tracker_witness:
  "harness_cv rnd64 2 [3, 5] = coefficient_of_variation \<lparr>thread_counts = [3, 5]\<rparr>"
  using harness_agrees_with_tracker [of "[3, 5]"] by (simp flip: numeral_2_eq_2)

end
