(* ===== verification/Locks.thy ===== *)
theory Locks
  imports Prelude
begin

text \<open>
  The locks of the suite: the custom \<open>spinlock\<close> of include/spinlock.hpp and \<open>std::mutex\<close> of the
  standard library, the common contract of both (locale \<open>lock_protocol\<close>), and the read,
  modify, write section that the counter benchmarks and the smoke test put under a lock.
\<close>

section \<open>include/spinlock.hpp\<close>

record spinlock =
  flag :: bool

definition spinlock_ctor :: spinlock where
  "spinlock_ctor = \<lparr>flag = False\<rparr>"

text \<open>\<open>std::atomic_flag\<close>: \<open>test_and_set\<close> returns the old value and sets the flag, in one step.\<close>

definition test_and_set :: "spinlock \<Rightarrow> bool \<times> spinlock" where
  "test_and_set s = (flag s, s\<lparr>flag := True\<rparr>)"

text \<open>
  One evaluation of the loop condition of \<open>lock()\<close>, an atomic step of the thread: \<open>True\<close> when
  the loop is left with the lock taken, \<open>False\<close> when it pauses and tries again.
\<close>

definition spin_attempt :: "spinlock \<Rightarrow> (bool \<times> spinlock) list" where
  "spin_attempt s = (case test_and_set s of (old, s') \<Rightarrow> [(\<not> old, s')])"

text \<open>\<open>lock()\<close> run by one thread alone; \<open>None\<close> when the loop never ends.\<close>

partial_function (option) spin_lock :: "spinlock \<Rightarrow> spinlock option" where
  "spin_lock s = (case test_and_set s of (old, s') \<Rightarrow> if old then spin_lock s' else Some s')"

definition spin_unlock :: "spinlock \<Rightarrow> spinlock" where
  "spin_unlock s = s\<lparr>flag := False\<rparr>"

definition spin_try_lock :: "spinlock \<Rightarrow> bool \<times> spinlock" where
  "spin_try_lock s = (case test_and_set s of (old, s') \<Rightarrow> (\<not> old, s'))"

section \<open>std::mutex\<close>

record mutex =
  locked :: bool

definition mutex_ctor :: mutex where
  "mutex_ctor = \<lparr>locked = False\<rparr>"

text \<open>\<open>lock()\<close> blocks (no outcome) while another thread holds the mutex.\<close>

definition mutex_attempt :: "mutex \<Rightarrow> (bool \<times> mutex) list" where
  "mutex_attempt m = (if locked m then [] else [(True, m\<lparr>locked := True\<rparr>)])"

definition mutex_unlock :: "mutex \<Rightarrow> mutex" where
  "mutex_unlock m = m\<lparr>locked := False\<rparr>"

section \<open>Sequential behaviour of the spinlock\<close>

lemma spin_lock_free: "\<not> flag s \<Longrightarrow> spin_lock s = Some (s\<lparr>flag := True\<rparr>)"
  by (simp add: spin_lock.simps test_and_set_def)

text \<open>
  A thread that locks a lock that nobody will release spins forever: \<open>lock\<close> is not
  recursive.  The iterates of the loop keep the flag set, so no unfolding ever returns.
\<close>

lemma spin_lock_returns_free:
  assumes ret: "spin_lock s = Some s'"
  shows "\<not> flag s \<and> flag s'"
proof (rule spin_lock.raw_induct [where P = "\<lambda>s s'. \<not> flag s \<and> flag s'", OF _ ret])
  fix f s s'
  assume IH: "\<And>s s'. f s = Some s' \<Longrightarrow> \<not> flag s \<and> flag s'"
    and eq: "(case test_and_set s of (old, s') \<Rightarrow> if old then f s' else Some s') = Some s'"
  show "\<not> flag s \<and> flag s'"
  proof (cases "flag s")
    case True
    with eq have "f (s\<lparr>flag := True\<rparr>) = Some s'" by (simp add: test_and_set_def)
    then have "\<not> flag (s\<lparr>flag := True\<rparr>)" using IH by blast
    then show ?thesis by simp
  next
    case False
    with eq show ?thesis by (auto simp: test_and_set_def)
  qed
qed

lemma spin_lock_held: "flag s \<Longrightarrow> spin_lock s = None"
  using spin_lock_returns_free by (cases "spin_lock s") auto

section \<open>The contract of a lock\<close>

text \<open>
  \<open>attempt\<close> lists the outcomes of one atomic try to take the lock: with \<open>True\<close> it is taken,
  with \<open>False\<close> it was held and is unchanged, and an empty list blocks the caller.
\<close>

locale lock_protocol =
  fixes attempt :: "'k \<Rightarrow> (bool \<times> 'k) list"
    and release :: "'k \<Rightarrow> 'k"
    and held :: "'k \<Rightarrow> bool"
  assumes taken: "(True, k') \<in> set (attempt k) \<Longrightarrow> \<not> held k \<and> held k'"
    and refused: "(False, k') \<in> set (attempt k) \<Longrightarrow> held k \<and> k' = k"
    and free_taken: "\<not> held k \<Longrightarrow> \<exists>k'. (True, k') \<in> set (attempt k)"
    and released: "\<not> held (release k)"

lemma spin_attempt_eq: "spin_attempt s = [(\<not> flag s, s\<lparr>flag := True\<rparr>)]"
  by (simp add: spin_attempt_def test_and_set_def)

interpretation spin: lock_protocol spin_attempt spin_unlock flag
  by unfold_locales (auto simp: spin_attempt_eq spin_unlock_def)

interpretation std_mutex: lock_protocol mutex_attempt mutex_unlock locked
  by unfold_locales (auto simp: mutex_attempt_def mutex_unlock_def split: if_splits)

section \<open>A counter under a lock\<close>

text \<open>
  The shared counter is a plain variable, so \<open>counter++\<close> is a read and a later write:
  two steps, between which other threads run.  The program counter of one call of the
  critical section; \<open>Work\<close> is the delay loop of the \<open>WithWork\<close> benchmark, with its index and
  its accumulator.
\<close>

datatype 'w section_pc =
    Enter
  | Load
  | Store 'w
  | Work nat int
  | Leave

text \<open>
  \<open>retry\<close>: a failed attempt is repeated (\<open>lock\<close>); otherwise the call gives up and returns
  \<open>false\<close> (\<open>if (lock.try_lock()) ...\<close>).  A finished call is \<open>Inr\<close> of its result.
\<close>

fun locked_section :: "('k \<Rightarrow> (bool \<times> 'k) list) \<Rightarrow> ('k \<Rightarrow> 'k) \<Rightarrow> bool \<Rightarrow> nat
  \<Rightarrow> 'w::len word section_pc \<Rightarrow> 'k \<times> 'w word
  \<Rightarrow> (('w word section_pc + bool) \<times> ('k \<times> 'w word)) list" where
  "locked_section attempt release retry work Enter (k, v) =
     map (\<lambda>(ok, k'). (if ok then Inl Load else if retry then Inl Enter else Inr False, (k', v)))
       (attempt k)"
| "locked_section attempt release retry work Load (k, v) = [(Inl (Store v), (k, v))]"
| "locked_section attempt release retry work (Store x) (k, v) = [(Inl (Work 0 0), (k, x + 1))]"
| "locked_section attempt release retry work (Work j dummy) (k, v) =
     [(if j < work then Inl (Work (Suc j) (dummy + int j)) else Inl Leave, (k, v))]"
| "locked_section attempt release retry work Leave (k, v) = [(Inr True, (release k, v))]"

text \<open>Holding the lock, and having counted without having returned, per program counter.\<close>

fun inside :: "'w section_pc \<Rightarrow> nat" where
  "inside Enter = 0"
| "inside _ = 1"

fun due :: "'w section_pc \<Rightarrow> nat" where
  "due (Work _ _) = 1"
| "due Leave = 1"
| "due _ = 0"

text \<open>A thread that has read the counter and not yet written it back has the current value.\<close>

fun fresh :: "'w word \<Rightarrow> 'w::len word section_pc \<Rightarrow> bool" where
  "fresh v (Store x) = (x = v)"
| "fresh v _ = True"

section \<open>Any lock gives mutual exclusion and exact counting\<close>

definition section_good :: "('k \<Rightarrow> bool) \<Rightarrow> 'w::len word section_pc option list \<Rightarrow> 'k \<times> 'w word \<Rightarrow> bool" where
  "section_good held qs s = (case s of (k, v) \<Rightarrow>
     tsum (case_option 0 inside) qs = of_bool (held k) \<and>
     list_all (case_option True (fresh v)) qs)"

lemma fresh_outside: "inside p = 0 \<Longrightarrow> fresh v p"
  by (cases p) simp_all

lemma section_alone:
  assumes "tsum (case_option 0 inside) qs = of_bool b" and "i < length qs"
    and "qs ! i = Some p" and "inside p = 1" and "j < length qs" and "j \<noteq> i"
  shows "case_option True (fresh v) (qs ! j)"
proof -
  have "case_option 0 inside (qs ! i) + case_option 0 inside (qs ! j)
      \<le> tsum (case_option 0 inside) qs"
    using assms by (intro tsum_two) auto
  then have "case_option 0 inside (qs ! j) = 0" using assms by (cases b) auto
  then show ?thesis by (auto split: option.splits intro: fresh_outside)
qed

locale lock_client = lock_protocol attempt release held
  for attempt :: "'k \<Rightarrow> (bool \<times> 'k) list" and release and held +
  fixes k0 :: 'k and retry :: bool and work :: nat
  assumes start_free: "\<not> held k0"
begin

lemma section_step:
  assumes good: "section_good held qs s" and i: "i < length qs" and p: "qs ! i = Some p"
    and st: "(Inl p', s') \<in> set (locked_section attempt release retry work p s)"
  shows "section_good held (qs[i := Some p']) s'"
    and "snd s' + of_nat (due p) = snd s + of_nat (due p')"
proof -
  obtain k v where s: "s = (k, v)" by force
  obtain k' v' where s': "s' = (k', v')" by force
  from good s have sum: "tsum (case_option 0 inside) qs = of_bool (held k)"
    and fr: "list_all (case_option True (fresh v)) qs"
    by (auto simp: section_good_def)
  have upd: "tsum (case_option 0 inside) (qs[i := Some p']) + inside p
      = of_bool (held k) + inside p'"
    using tsum_update [OF i, of "case_option 0 inside" "Some p'"] p sum by simp
  have "case_option True (fresh v) (qs ! i)" using fr i by (simp add: list_all_length)
  then have fp: "fresh v p" using p by simp
  have "section_good held (qs[i := Some p']) s'
      \<and> snd s' + of_nat (due p) = snd s + of_nat (due p')"
  proof (cases p)
    case Enter
    with st s s' have "(p' = Load \<and> (True, k') \<in> set (attempt k) \<and> v' = v)
        \<or> (p' = Enter \<and> (False, k') \<in> set (attempt k) \<and> v' = v)"
      by (auto split: if_splits)
    then show ?thesis
      using upd fr taken [of k' k] refused [of k' k] Enter s s'
      by (auto simp: section_good_def intro!: list_all_update)
  next
    case Load
    with st s s' have "p' = Store v" "k' = k" "v' = v" by auto
    then show ?thesis
      using upd fr Load s s' by (auto simp: section_good_def intro!: list_all_update)
  next
    case (Store x)
    with st s s' fp have new: "p' = Work 0 0" "k' = k" "v' = v + 1" by auto
    have "case_option True (fresh v') (qs[i := Some p'] ! j)" if "j < length qs" for j
      using section_alone [OF sum i p _ that, of v'] Store new that
      by (cases "j = i") simp_all
    then show ?thesis
      using upd Store s s' new by (auto simp: section_good_def list_all_length)
  next
    case (Work j d)
    with st s s' have "k' = k" "v' = v" "inside p' = 1" "due p' = 1" "fresh v p'"
      by (auto split: if_splits)
    then show ?thesis
      using upd fr Work s s' by (auto simp: section_good_def intro!: list_all_update)
  next
    case Leave
    with st s s' show ?thesis by auto
  qed
  then show "section_good held (qs[i := Some p']) s'"
    and "snd s' + of_nat (due p) = snd s + of_nat (due p')" by auto
qed

lemma section_return:
  assumes good: "section_good held qs s" and i: "i < length qs" and p: "qs ! i = Some p"
    and st: "(Inr b, s') \<in> set (locked_section attempt release retry work p s)"
  shows "section_good held (qs[i := None]) s'"
    and "snd s' + of_nat (due p) = snd s + of_bool b"
proof -
  obtain k v where s: "s = (k, v)" by force
  obtain k' v' where s': "s' = (k', v')" by force
  from good s have sum: "tsum (case_option 0 inside) qs = of_bool (held k)"
    and fr: "list_all (case_option True (fresh v)) qs"
    by (auto simp: section_good_def)
  have upd: "tsum (case_option 0 inside) (qs[i := None]) + inside p = of_bool (held k)"
    using tsum_update [OF i, of "case_option 0 inside" None] p sum by simp
  have "section_good held (qs[i := None]) s'
      \<and> snd s' + of_nat (due p) = snd s + of_bool b"
  proof (cases p)
    case Enter
    with st s s' have "\<not> b \<and> (False, k') \<in> set (attempt k) \<and> v' = v"
      by (auto split: if_splits)
    then show ?thesis
      using upd fr refused [of k' k] Enter s s'
      by (auto simp: section_good_def intro!: list_all_update)
  next
    case Leave
    with st s s' have new: "b" "k' = release k" "v' = v" by auto
    moreover have "held k" using upd Leave by (cases "held k") auto
    ultimately show ?thesis
      using upd fr Leave s s' released [of k]
      by (auto simp: section_good_def intro!: list_all_update)
  qed (use st s s' in \<open>auto split: if_splits\<close>)
  then show "section_good held (qs[i := None]) s'"
    and "snd s' + of_nat (due p) = snd s + of_bool b" by auto
qed

end

end
