(* ===== verification/Harness.thy ===== *)
theory Harness
  imports Fairness
begin

text \<open>
  The contention harness \<open>bench_harness::run_contention_window\<close> of include/bench\_harness.hpp.
  Thread 0 is the caller, thread \<open>i + 1\<close> the worker with \<open>thread_id = i\<close>.  The template
  parameter \<open>Fn\<close> is the argument \<open>body\<close>: the stepper of one call of the critical section,
  which ends with \<open>Inr b\<close> (\<open>b\<close> is the returned \<open>bool\<close>; a \<open>void\<close> callable returns \<open>True\<close>,
  since every invocation is counted).  What the harness needs of a counting callable is the
  locale \<open>counting_body\<close>; inside it the window is proved to keep its invariant, and the
  reported number of operations to be the shared counter's value.
\<close>

section \<open>include/bench\_harness.hpp\<close>

record window_result =
  ops :: uint64
  fairness_cv :: real

text \<open>The core a worker is pinned to, or none: an empty list of cores.\<close>

definition pin_target :: "int list \<Rightarrow> nat \<Rightarrow> int option" where
  "pin_target cores thread_index =
     (if cores = [] then None else Some (cores ! (Suc thread_index mod length cores)))"

definition maybe_pin :: "bool \<Rightarrow> int list \<Rightarrow> nat \<Rightarrow> int option" where
  "maybe_pin supported cores thread_index =
     (if \<not> supported then None else pin_target cores thread_index)"

datatype main_pc =
    Spawn nat
  | Set_Start
  | Sleep
  | Set_Stop
  | Join nat
  | Collect
  | Done window_result

datatype 'p worker_pc =
    Unborn
  | Pin
  | Wait_Start
  | Loop_Test
  | In_Body 'p
  | Counting
  | Exited

datatype 'p role =
    Main main_pc
  | Worker "'p worker_pc"

record 's window =
  start_flag :: bool
  stop_flag :: bool
  op_counts :: "uint64 list"
  env :: 's

text \<open>Has the caller's loop created the thread with this id?\<close>

fun spawned :: "'p role \<Rightarrow> nat \<Rightarrow> bool" where
  "spawned (Main (Spawn k)) j = (j < k)"
| "spawned (Main _) j = True"
| "spawned (Worker _) j = False"

text \<open>The evaluation after the joins.\<close>

definition collect :: "nat \<Rightarrow> uint64 list \<Rightarrow> window_result" where
  "collect num_threads counts =
     \<lparr>ops = fst (harness_sums rnd64 counts (0, 0)), fairness_cv = harness_cv rnd64 num_threads counts\<rparr>"

fun main_step :: "nat \<Rightarrow> main_pc \<Rightarrow> 'p role list \<Rightarrow> 's window \<Rightarrow> (main_pc \<times> 's window) list" where
  "main_step n (Spawn k) ts g = [(if k < n then Spawn (Suc k) else Set_Start, g)]"
| "main_step n Set_Start ts g = [(Sleep, g\<lparr>start_flag := True\<rparr>)]"
| "main_step n Sleep ts g = [(Set_Stop, g)]"
| "main_step n Set_Stop ts g = [(Join 0, g\<lparr>stop_flag := True\<rparr>)]"
| "main_step n (Join k) ts g =
     (if k < n then (if ts ! Suc k = Worker Exited then [(Join (Suc k), g)] else [])
      else [(Collect, g)])"
| "main_step n Collect ts g = [(Done (collect n (op_counts g)), g)]"
| "main_step n (Done r) ts g = []"

fun worker_step :: "(nat \<Rightarrow> 'p \<Rightarrow> 's \<Rightarrow> (('p + bool) \<times> 's) list) \<Rightarrow> 'p \<Rightarrow> nat \<Rightarrow> 'p worker_pc
  \<Rightarrow> 'p role list \<Rightarrow> 's window \<Rightarrow> ('p worker_pc \<times> 's window) list" where
  "worker_step body entry thread_id Unborn ts g =
     (if spawned (ts ! 0) thread_id then [(Pin, g)] else [])"
| "worker_step body entry thread_id Pin ts g = [(Wait_Start, g)]"
| "worker_step body entry thread_id Wait_Start ts g =
     [(if start_flag g then Loop_Test else Wait_Start, g)]"
| "worker_step body entry thread_id Loop_Test ts g =
     [(if stop_flag g then Exited else In_Body entry, g)]"
| "worker_step body entry thread_id (In_Body p) ts g =
     map (\<lambda>(r, s). (case r of Inl p' \<Rightarrow> In_Body p'
                             | Inr counted \<Rightarrow> if counted then Counting else Loop_Test,
                    g\<lparr>env := s\<rparr>))
       (body thread_id p (env g))"
| "worker_step body entry thread_id Counting ts g =
     [(Loop_Test, g\<lparr>op_counts := (op_counts g)[thread_id := op_counts g ! thread_id + 1]\<rparr>)]"
| "worker_step body entry thread_id Exited ts g = []"

fun window_step :: "(nat \<Rightarrow> 'p \<Rightarrow> 's \<Rightarrow> (('p + bool) \<times> 's) list) \<Rightarrow> 'p \<Rightarrow> nat
  \<Rightarrow> ('p role, 's window) stepper" where
  "window_step body entry n i ts g =
     (case ts ! i of
        Main pc \<Rightarrow> map (\<lambda>(pc', g'). (Main pc', g')) (main_step n pc ts g)
      | Worker pc \<Rightarrow>
          map (\<lambda>(pc', g'). (Worker pc', g')) (worker_step body entry (i - 1) pc ts g))"

definition window_start :: "nat \<Rightarrow> 's \<Rightarrow> ('p role, 's window) conf" where
  "window_start n s =
     (Main (Spawn 0) # replicate n (Worker Unborn),
      \<lparr>start_flag = False, stop_flag = False, op_counts = replicate n 0, env = s\<rparr>)"

section \<open>The contract of a counting callable\<close>

text \<open>
  The callable maintains a shared \<open>tally\<close>.  \<open>credit p\<close> is 1 at the program counters of a call
  that has already added its unit and not yet returned; \<open>good\<close> is the callable's own
  invariant over the calls in progress (\<open>None\<close> for a thread outside a call).
\<close>

locale counting_body =
  fixes body :: "nat \<Rightarrow> 'p \<Rightarrow> 's \<Rightarrow> (('p + bool) \<times> 's) list"
    and entry :: 'p
    and env0 :: 's
    and good :: "'p option list \<Rightarrow> 's \<Rightarrow> bool"
    and credit :: "'p \<Rightarrow> nat"
    and tally :: "'s \<Rightarrow> uint64"
  assumes good_start: "list_all (\<lambda>q. q = None) qs \<Longrightarrow> good qs env0"
    and tally_start: "tally env0 = 0"
    and credit_entry: "credit entry = 0"
    and good_enter: "good qs s \<Longrightarrow> i < length qs \<Longrightarrow> qs ! i = None \<Longrightarrow> good (qs[i := Some entry]) s"
    and good_step: "good qs s \<Longrightarrow> i < length qs \<Longrightarrow> qs ! i = Some p
      \<Longrightarrow> (Inl p', s') \<in> set (body tid p s)
      \<Longrightarrow> good (qs[i := Some p']) s' \<and> tally s' + of_nat (credit p) = tally s + of_nat (credit p')"
    and good_return: "good qs s \<Longrightarrow> i < length qs \<Longrightarrow> qs ! i = Some p
      \<Longrightarrow> (Inr b, s') \<in> set (body tid p s)
      \<Longrightarrow> good (qs[i := None]) s' \<and> tally s' + of_nat (credit p) = tally s + of_bool b"

section \<open>The invariant of a window\<close>

fun calling :: "'p role \<Rightarrow> 'p option" where
  "calling (Worker (In_Body p)) = Some p"
| "calling _ = None"

fun pending :: "('p \<Rightarrow> nat) \<Rightarrow> 'p role \<Rightarrow> nat" where
  "pending credit (Worker (In_Body p)) = credit p"
| "pending credit (Worker Counting) = 1"
| "pending credit _ = 0"

fun is_main :: "'p role \<Rightarrow> bool" where
  "is_main (Main _) = True"
| "is_main (Worker _) = False"

text \<open>How many workers the caller has joined.\<close>

fun joined :: "nat \<Rightarrow> main_pc \<Rightarrow> nat" where
  "joined n (Join k) = k"
| "joined n Collect = n"
| "joined n (Done r) = n"
| "joined n _ = 0"

fun result_of :: "main_pc \<Rightarrow> window_result option" where
  "result_of (Done r) = Some r"
| "result_of _ = None"

lemma foldl_plus_sum_list: "foldl (+) a xs = a + sum_list xs" for a :: "'a::comm_monoid_add"
  by (induction xs arbitrary: a) (simp_all add: ac_simps)

lemma ops_collect: "ops (collect n counts) = sum_list counts"
  by (simp add: collect_def harness_sums_eq foldl_plus_sum_list)

definition window_inv :: "('p option list \<Rightarrow> 's \<Rightarrow> bool) \<Rightarrow> ('p \<Rightarrow> nat) \<Rightarrow> ('s \<Rightarrow> uint64) \<Rightarrow> nat
  \<Rightarrow> ('p role, 's window) conf \<Rightarrow> bool" where
  "window_inv good credit tally n c = (case c of (ts, g) \<Rightarrow>
     length ts = Suc n \<and> length (op_counts g) = n \<and>
     (\<exists>pc. ts ! 0 = Main pc \<and> joined n pc \<le> n \<and> (\<forall>j < joined n pc. ts ! Suc j = Worker Exited) \<and>
       (\<forall>r. result_of pc = Some r \<longrightarrow> r = collect n (op_counts g))) \<and>
     (\<forall>j < n. \<not> is_main (ts ! Suc j)) \<and>
     good (map calling ts) (env g) \<and>
     tally (env g) = sum_list (op_counts g) + of_nat (tsum (pending credit) ts))"

lemma window_invI:
  assumes "length ts = Suc n" "length (op_counts g) = n" "ts ! 0 = Main pc" "joined n pc \<le> n"
    "\<And>j. j < joined n pc \<Longrightarrow> ts ! Suc j = Worker Exited"
    "\<And>r. result_of pc = Some r \<Longrightarrow> r = collect n (op_counts g)"
    "\<And>j. j < n \<Longrightarrow> \<not> is_main (ts ! Suc j)"
    "good (map calling ts) (env g)"
    "tally (env g) = sum_list (op_counts g) + of_nat (tsum (pending credit) ts)"
  shows "window_inv good credit tally n (ts, g)"
  using assms by (simp add: window_inv_def)

lemma window_invE:
  assumes "window_inv good credit tally n (ts, g)"
  obtains pc where "length ts = Suc n" "length (op_counts g) = n" "ts ! 0 = Main pc"
    "joined n pc \<le> n"
    "\<And>j. j < joined n pc \<Longrightarrow> ts ! Suc j = Worker Exited"
    "\<And>r. result_of pc = Some r \<Longrightarrow> r = collect n (op_counts g)"
    "\<And>j. j < n \<Longrightarrow> \<not> is_main (ts ! Suc j)"
    "good (map calling ts) (env g)"
    "tally (env g) = sum_list (op_counts g) + of_nat (tsum (pending credit) ts)"
  using assms by (auto simp: window_inv_def)

text \<open>The caller's steps touch neither the counters nor the callable's state.\<close>

lemma main_step_frame:
  "(pc', g') \<in> set (main_step n pc ts g) \<Longrightarrow> op_counts g' = op_counts g \<and> env g' = env g"
  by (cases pc) (auto split: if_splits)

lemma main_step_joined:
  assumes "(pc', g') \<in> set (main_step n pc ts g)" "joined n pc \<le> n"
    "\<And>j. j < joined n pc \<Longrightarrow> ts ! Suc j = Worker Exited"
  shows "joined n pc' \<le> n" and "j < joined n pc' \<Longrightarrow> ts ! Suc j = Worker Exited"
  using assms by (cases pc; auto split: if_splits simp: less_Suc_eq)+

lemma main_step_result:
  "(pc', g') \<in> set (main_step n pc ts g) \<Longrightarrow> result_of pc' = Some r
    \<Longrightarrow> r = collect n (op_counts g)"
  by (cases pc) (auto split: if_splits)

lemma calling_update_same:
  "i < length ts \<Longrightarrow> calling l = calling (ts ! i) \<Longrightarrow> map calling (ts[i := l]) = map calling ts"
  by (metis list_update_id map_update)

lemma tsum_update_same:
  "i < length ts \<Longrightarrow> w l = w (ts ! i) \<Longrightarrow> tsum w (ts[i := l]) = tsum w ts"
  using tsum_update [of i ts w l] by simp

text \<open>
  A move changes the counters only when a worker counts, and then the counter of that worker, by 1.
\<close>

lemma op_counts_move:
  assumes inv: "window_inv good credit tally n (ts, g)" and i: "i < length ts"
    and st: "(l, g') \<in> set (window_step body entry n i ts g)"
  shows "length (op_counts g') = n \<and> (ts ! i = Worker Counting \<longrightarrow> 0 < i \<and> i - 1 < n)
    \<and> (\<forall>a < n. op_counts g' ! a = op_counts g ! a + of_bool (ts ! i = Worker Counting \<and> i = Suc a))"
proof -
  have len: "length ts = Suc n" "length (op_counts g) = n" and main: "is_main (ts ! 0)"
    using inv by (auto elim: window_invE)
  show ?thesis
  proof (cases "ts ! i")
    case (Main pc)
    then have "op_counts g' = op_counts g" using st by (auto dest: main_step_frame)
    then show ?thesis using Main len by simp
  next
    case (Worker pc)
    then have "0 < i" using main by (cases i) auto
    then obtain j where j: "i = Suc j" by (cases i) auto
    then show ?thesis
      using Worker st i len by (cases pc) (auto simp: nth_list_update split: if_splits)
  qed
qed

context counting_body begin

lemma main_keeps_inv:
  assumes inv: "window_inv good credit tally n (ts, g)"
    and pc: "ts ! 0 = Main pc" and st: "(pc', g') \<in> set (main_step n pc ts g)"
  shows "window_inv good credit tally n (ts[0 := Main pc'], g')"
proof -
  from inv pc have *: "length ts = Suc n" "length (op_counts g) = n" "joined n pc \<le> n"
    "\<And>j. j < joined n pc \<Longrightarrow> ts ! Suc j = Worker Exited"
    "\<And>j. j < n \<Longrightarrow> \<not> is_main (ts ! Suc j)" "good (map calling ts) (env g)"
    "tally (env g) = sum_list (op_counts g) + of_nat (tsum (pending credit) ts)"
    by (auto elim: window_invE)
  have 0: "0 < length ts" using *(1) by simp
  note frame = main_step_frame [OF st]
  note joined = main_step_joined [OF st *(3) *(4)]
  have "map calling (ts[0 := Main pc']) = map calling ts"
    using 0 pc by (intro calling_update_same) simp_all
  moreover have "tsum (pending credit) (ts[0 := Main pc']) = tsum (pending credit) ts"
    using 0 pc by (intro tsum_update_same) simp_all
  ultimately show ?thesis
    using * frame joined main_step_result [OF st]
    by (intro window_invI [where pc = pc']) simp_all
qed

lemma transfer_credit:
  fixes a :: "'a::ab_group_add"
  assumes "a' + (c + p) = a + (c' + p')" "t' + p = t + p'" "a = c + t"
  shows "a' = c' + t'"
proof -
  have "a' + (c + p) = c + c' + (t + p')" using assms(1,3) by (simp add: ac_simps)
  also have "\<dots> = c' + t' + (c + p)" unfolding assms(2) [symmetric] by (simp add: ac_simps)
  finally show ?thesis by (rule add_right_imp_eq)
qed

text \<open>
  A worker that has not exited has not been joined: it may change its own program counter and its own
  counter, when the tally and the counters move together.
\<close>

lemma worker_updateI:
  assumes inv: "window_inv good credit tally n (ts, g)" and i: "Suc i < length ts"
    and pc: "ts ! Suc i = Worker pc" "pc \<noteq> Exited"
    and "length (op_counts g') = n" "good ((map calling ts)[Suc i := calling (Worker pc')]) (env g')"
    and sums: "tally (env g') + (sum_list (op_counts g) + of_nat (pending credit (Worker pc)))
      = tally (env g) + (sum_list (op_counts g') + of_nat (pending credit (Worker pc')))"
  shows "window_inv good credit tally n (ts[Suc i := Worker pc'], g')"
proof -
  from inv obtain mpc where *: "length ts = Suc n" "ts ! 0 = Main mpc"
    "joined n mpc \<le> n" "\<And>j. j < joined n mpc \<Longrightarrow> ts ! Suc j = Worker Exited"
    "\<And>r. result_of mpc = Some r \<Longrightarrow> r = collect n (op_counts g)"
    "\<And>j. j < n \<Longrightarrow> \<not> is_main (ts ! Suc j)"
    "tally (env g) = sum_list (op_counts g) + of_nat (tsum (pending credit) ts)"
    by (auto elim: window_invE)
  have not_joined: "\<not> i < joined n mpc" using *(4) [of i] pc by auto
  have no_result: "result_of mpc = None" using not_joined i *(1) by (cases mpc) auto
  have "(of_nat (tsum (pending credit) (ts[Suc i := Worker pc'])) :: uint64) + of_nat (pending credit (Worker pc))
      = of_nat (tsum (pending credit) ts) + of_nat (pending credit (Worker pc'))"
    using tsum_update [OF i, of "pending credit" "Worker pc'"] pc by (metis of_nat_add)
  then have "tally (env g') = sum_list (op_counts g') + of_nat (tsum (pending credit) (ts[Suc i := Worker pc']))"
    by (rule transfer_credit [OF sums _ *(7)])
  then show ?thesis
    using * assms(5,6) not_joined no_result i
    by (intro window_invI [where pc = mpc]) (auto simp: map_update nth_list_update)
qed

text \<open>A step of a call, and its return.\<close>

lemma worker_call_keeps:
  assumes inv: "window_inv good credit tally n (ts, g)"
    and i: "Suc i < length ts" and pc: "ts ! Suc i = Worker (In_Body p)"
    and r: "(r, s) \<in> set (body i p (env g))"
  shows "window_inv good credit tally n
    (ts[Suc i := Worker (case r of Inl p' \<Rightarrow> In_Body p' | Inr counted \<Rightarrow> if counted then Counting else Loop_Test)],
     g\<lparr>env := s\<rparr>)"
proof -
  from inv have good: "good (map calling ts) (env g)" and len: "length (op_counts g) = n"
    by (auto elim: window_invE)
  have call: "Suc i < length (map calling ts)" "map calling ts ! Suc i = Some p" using i pc by simp_all
  show ?thesis
  proof (cases r)
    case (Inl p')
    then show ?thesis
      using good_step [OF good call] r inv i pc len
      by (intro worker_updateI [where pc = "In_Body p"]) (auto simp: algebra_simps)
  next
    case (Inr b)
    then show ?thesis
      using good_return [OF good call] r inv i pc len
      by (intro worker_updateI [where pc = "In_Body p"]) (auto simp: algebra_simps)
  qed
qed

lemma worker_keeps_inv:
  assumes inv: "window_inv good credit tally n (ts, g)"
    and i: "Suc i < length ts" and pc: "ts ! Suc i = Worker pc"
    and st: "(pc', g') \<in> set (worker_step body entry i pc ts g)"
  shows "window_inv good credit tally n (ts[Suc i := Worker pc'], g')"
proof -
  from inv have good: "good (map calling ts) (env g)" and len: "length (op_counts g) = n" "i < n"
    using i by (auto elim: window_invE)
  have qi: "map calling ts ! Suc i = calling (Worker pc)" using i pc by simp
  then have same: "calling (Worker pc) = None \<Longrightarrow> (map calling ts)[Suc i := None] = map calling ts"
    by (metis list_update_id)
  show ?thesis
  proof (cases pc)
    case (In_Body p)
    with st show ?thesis using worker_call_keeps [OF inv i, of p] pc by force
  next
    case Loop_Test
    then show ?thesis
      using st inv i pc len good same good_enter [OF good, of "Suc i"] qi credit_entry
      by (intro worker_updateI [where pc = pc]) (auto split: if_splits)
  next
    case Counting
    then show ?thesis
      using st inv i pc len good same sum_list_bump [of i "op_counts g"]
      by (intro worker_updateI [where pc = pc]) (auto simp: algebra_simps)
  qed (use st inv i pc len good same in \<open>(intro worker_updateI [where pc = pc]; auto split: if_splits)+\<close>)
qed

lemma window_start_inv: "window_inv good credit tally n (window_start n env0)"
proof -
  have "list_all (\<lambda>q. q = None) (map calling (Main (Spawn 0) # replicate n (Worker Unborn)))"
    by (simp add: list_all_iff)
  then have "good (map calling (Main (Spawn 0) # replicate n (Worker Unborn))) env0"
    by (rule good_start)
  moreover have "sum_list (replicate n (0::uint64)) = 0" by (induction n) simp_all
  ultimately show ?thesis
    unfolding window_start_def
    by (intro window_invI [where pc = "Spawn 0"]) (simp_all add: tally_start)
qed

lemma window_step_inv:
  assumes inv: "window_inv good credit tally n (ts, g)" and i: "i < length ts"
    and st: "(l, g') \<in> set (window_step body entry n i ts g)"
  shows "window_inv good credit tally n (ts[i := l], g')"
proof -
  from inv obtain pc0 where len: "length ts = Suc n" and m0: "ts ! 0 = Main pc0"
    and workers: "\<And>j. j < n \<Longrightarrow> \<not> is_main (ts ! Suc j)"
    by (auto elim: window_invE)
  show ?thesis
  proof (cases i)
    case 0
    with st m0 obtain pc' where "l = Main pc'" "(pc', g') \<in> set (main_step n pc0 ts g)" by auto
    with inv m0 0 show ?thesis by (simp add: main_keeps_inv)
  next
    case (Suc j)
    with i len workers [of j] obtain pc where pc: "ts ! Suc j = Worker pc"
      by (cases "ts ! Suc j") auto
    with st Suc obtain pc' where "l = Worker pc'" "(pc', g') \<in> set (worker_step body entry j pc ts g)"
      by auto
    with inv pc Suc i show ?thesis by (simp add: worker_keeps_inv)
  qed
qed

end

sublocale counting_body \<subseteq> window: interleaving "window_step body entry n" "window_start n env0"
  "window_inv good credit tally n" for n
  by unfold_locales (simp_all add: window_start_inv window_step_inv)

context counting_body begin

text \<open>Once the caller has its result, no call is in progress: the counts are the tally.\<close>

lemma window_tally:
  assumes "steps (window_step body entry n) (window_start n env0) (ts, g)"
    and "ts ! 0 = Main (Done r)"
  shows "ops r = tally (env g)" and "r = collect n (op_counts g)"
proof -
  have "window_inv good credit tally n (ts, g)" using assms(1) by (rule window.reach_inv)
  then obtain pc where *: "length ts = Suc n" "ts ! 0 = Main pc"
    "\<And>j. j < joined n pc \<Longrightarrow> ts ! Suc j = Worker Exited"
    "\<And>r. result_of pc = Some r \<Longrightarrow> r = collect n (op_counts g)"
    "tally (env g) = sum_list (op_counts g) + of_nat (tsum (pending credit) ts)"
    by (auto elim: window_invE)
  have pc: "pc = Done r" using *(2) assms(2) by simp
  show r: "r = collect n (op_counts g)" using *(4) pc by simp
  have "pending credit t = 0" if "t \<in> set ts" for t
  proof -
    from that obtain k where k: "k < Suc n" "t = ts ! k" using *(1) by (auto simp: in_set_conv_nth)
    show ?thesis
    proof (cases k)
      case 0
      then show ?thesis using k *(2) by simp
    next
      case (Suc j)
      then show ?thesis using k *(3) [of j] pc by simp
    qed
  qed
  then have "tsum (pending credit) ts = 0" by (simp add: tsum_eq_0_iff)
  then show "ops r = tally (env g)" using *(5) r by (simp add: ops_collect)
qed

end

end
