(* ===== verification/Counters.thy ===== *)
theory Counters
  imports Harness Locks
begin

text \<open>
  The counter benchmarks: src/bench\_counter\_mutex.cpp, src/bench\_counter\_spin.cpp and
  src/bench\_counter\_atomic.cpp.  Each is a critical section run by the contention harness,
  once per benchmark iteration on a fresh lock and counter, and a report over the iterations.
  The lock based sections are clients of \<open>lock_protocol\<close>: the locale \<open>lock_client\<close> proves
  mutual exclusion and the counting contract once, for any lock, and the mutex and the
  spinlock benchmarks are its interpretations.
\<close>

section \<open>The critical sections\<close>

definition mutex_hot_body :: "nat \<Rightarrow> uint64 section_pc \<Rightarrow> mutex \<times> uint64
  \<Rightarrow> ((uint64 section_pc + bool) \<times> (mutex \<times> uint64)) list" where
  "mutex_hot_body tid = locked_section mutex_attempt mutex_unlock True 0"

definition spin_hot_body :: "nat \<Rightarrow> uint64 section_pc \<Rightarrow> spinlock \<times> uint64
  \<Rightarrow> ((uint64 section_pc + bool) \<times> (spinlock \<times> uint64)) list" where
  "spin_hot_body tid = locked_section spin_attempt spin_unlock True 0"

definition spin_work_body :: "nat \<Rightarrow> uint64 section_pc \<Rightarrow> spinlock \<times> uint64
  \<Rightarrow> ((uint64 section_pc + bool) \<times> (spinlock \<times> uint64)) list" where
  "spin_work_body tid = locked_section spin_attempt spin_unlock True 10"

definition spin_fairness_body :: "nat \<Rightarrow> uint64 section_pc \<Rightarrow> spinlock \<times> uint64
  \<Rightarrow> ((uint64 section_pc + bool) \<times> (spinlock \<times> uint64)) list" where
  "spin_fairness_body tid = locked_section spin_attempt spin_unlock False 0"

text \<open>
  \<open>counter.fetch_add(1, Order)\<close> is one step whatever the order: the order constrains the
  visibility of other variables, and there is none.
\<close>

definition atomic_body :: "nat \<Rightarrow> unit \<Rightarrow> uint64 \<Rightarrow> ((unit + bool) \<times> uint64) list" where
  "atomic_body tid pc counter = [(Inr True, counter + 1)]"

section \<open>The benchmark loop and its report\<close>

text \<open>The windows of the iterations so far, each with the final state of its callable.\<close>

inductive measured :: "(nat \<Rightarrow> 'p \<Rightarrow> 's \<Rightarrow> (('p + bool) \<times> 's) list) \<Rightarrow> 'p \<Rightarrow> 's \<Rightarrow> nat
  \<Rightarrow> (window_result \<times> 's) list \<Rightarrow> bool" for body entry s0 n where
  no_iteration: "measured body entry s0 n []"
| iteration: "measured body entry s0 n ws
    \<Longrightarrow> steps (window_step body entry n) (window_start n s0) (ts, g)
    \<Longrightarrow> ts ! 0 = Main (Done r)
    \<Longrightarrow> measured body entry s0 n (ws @ [(r, env g)])"

record counter_report =
  ops_total :: real
  report_cv :: real
  items_processed :: int

record per_thread_report = counter_report +
  ops_per_thread :: real

definition total_ops :: "window_result list \<Rightarrow> uint64" where
  "total_ops ws = foldl (\<lambda>n w. n + ops w) 0 ws"

definition last_cv :: "window_result list \<Rightarrow> real" where
  "last_cv ws = foldl (\<lambda>_ w. fairness_cv w) 0 ws"

definition counter_bench :: "nat \<Rightarrow> window_result list \<Rightarrow> per_thread_report" where
  "counter_bench num_threads ws =
     \<lparr>ops_total = to_double rnd64 (total_ops ws),
      report_cv = last_cv ws,
      items_processed = sint (total_ops ws),
      ops_per_thread = rnd64 (to_double rnd64 (total_ops ws)
        / rnd64 (rnd64 (real num_threads) * rnd64 (real (length ws))))\<rparr>"

definition plain_report :: "window_result list \<Rightarrow> counter_report" where
  "plain_report ws =
     \<lparr>ops_total = to_double rnd64 (total_ops ws), report_cv = last_cv ws, items_processed = sint (total_ops ws)\<rparr>"

text \<open>The benchmarks: which windows the iterations may have measured, and the report over them.\<close>

definition counter_mutex_hot :: "nat \<Rightarrow> (window_result \<times> (mutex \<times> uint64)) list \<Rightarrow> per_thread_report \<Rightarrow> bool" where
  "counter_mutex_hot num_threads ws rep \<longleftrightarrow>
     measured mutex_hot_body Enter (mutex_ctor, 0) num_threads ws \<and> rep = counter_bench num_threads (map fst ws)"

definition counter_spin_hot :: "nat \<Rightarrow> (window_result \<times> (spinlock \<times> uint64)) list \<Rightarrow> per_thread_report \<Rightarrow> bool" where
  "counter_spin_hot num_threads ws rep \<longleftrightarrow>
     measured spin_hot_body Enter (spinlock_ctor, 0) num_threads ws \<and> rep = counter_bench num_threads (map fst ws)"

definition counter_spin_with_work :: "nat \<Rightarrow> (window_result \<times> (spinlock \<times> uint64)) list \<Rightarrow> counter_report \<Rightarrow> bool" where
  "counter_spin_with_work num_threads ws rep \<longleftrightarrow>
     measured spin_work_body Enter (spinlock_ctor, 0) num_threads ws \<and> rep = plain_report (map fst ws)"

definition counter_spin_fairness :: "nat \<Rightarrow> (window_result \<times> (spinlock \<times> uint64)) list \<Rightarrow> counter_report \<Rightarrow> bool" where
  "counter_spin_fairness num_threads ws rep \<longleftrightarrow>
     measured spin_fairness_body Enter (spinlock_ctor, 0) num_threads ws \<and> rep = plain_report (map fst ws)"

definition counter_atomic :: "nat \<Rightarrow> (window_result \<times> uint64) list \<Rightarrow> counter_report \<Rightarrow> bool" where
  "counter_atomic num_threads ws rep \<longleftrightarrow>
     measured atomic_body () 0 num_threads ws \<and> rep = plain_report (map fst ws)"

section \<open>The sections as counting callables\<close>

sublocale lock_client \<subseteq> counted: counting_body
  "\<lambda>tid. locked_section attempt release retry work" "Enter :: uint64 section_pc" "(k0, 0)"
  "section_good held" due snd
proof unfold_locales
  fix qs :: "uint64 section_pc option list"
  assume none: "list_all (\<lambda>q. q = None) qs"
  then have "tsum (case_option 0 inside) qs = 0"
    by (auto simp: tsum_eq_0_iff list_all_iff)
  with none start_free show "section_good held qs (k0, 0)"
    by (auto simp: section_good_def list_all_iff)
next
  fix qs :: "uint64 section_pc option list" and s :: "'k \<times> uint64" and i
  assume good: "section_good held qs s" and i: "i < length qs" and "qs ! i = None"
  then have "tsum (case_option 0 inside) (qs[i := Some Enter]) = tsum (case_option 0 inside) qs"
    using tsum_update [OF i, of "case_option 0 inside" "Some Enter"] by simp
  with good show "section_good held (qs[i := Some Enter]) s"
    by (auto simp: section_good_def intro!: list_all_update)
qed (auto dest: section_step section_return)

interpretation mutex_hot: lock_client mutex_attempt mutex_unlock locked mutex_ctor True 0
  by unfold_locales (simp add: mutex_ctor_def)

interpretation spin_hot: lock_client spin_attempt spin_unlock flag spinlock_ctor True 0
  by unfold_locales (simp add: spinlock_ctor_def)

interpretation spin_work: lock_client spin_attempt spin_unlock flag spinlock_ctor True 10
  by unfold_locales (simp add: spinlock_ctor_def)

interpretation spin_fair: lock_client spin_attempt spin_unlock flag spinlock_ctor False 0
  by unfold_locales (simp add: spinlock_ctor_def)

interpretation fetch_add: counting_body atomic_body "()" 0 "\<lambda>_ _. True" "\<lambda>_. 0" "\<lambda>v. v"
  by unfold_locales (auto simp: atomic_body_def)

section \<open>The reports count what happened\<close>

lemma total_ops_eq: "total_ops ws = sum_list (map ops ws)"
proof -
  have "foldl (\<lambda>n w. n + ops w) a ws = a + sum_list (map ops ws)" for a
    by (induction ws arbitrary: a) (simp_all add: ac_simps)
  then show ?thesis by (simp add: total_ops_def)
qed

lemma last_cv_snoc [simp]: "last_cv (ws @ [w]) = fairness_cv w"
  by (simp add: last_cv_def)

context counting_body begin

lemma measured_tally:
  "measured body entry env0 n ws
    \<Longrightarrow> total_ops (map fst ws) = sum_list (map (\<lambda>w. tally (snd w)) ws)"
  by (induction rule: measured.induct) (simp_all add: total_ops_eq window_tally)

end

text \<open>
  The same for a whole report: the operations of all iterations, as the 64-bit total and as
  the signed item count handed to the benchmark library.
\<close>

lemma counter_bench_items:
  "items_processed (counter_bench n ws) = sint (total_ops ws)"
  "ops_total (counter_bench n ws) = to_double rnd64 (total_ops ws)"
  "items_processed (plain_report ws) = sint (total_ops ws)"
  "ops_total (plain_report ws) = to_double rnd64 (total_ops ws)"
  by (simp_all add: counter_bench_def plain_report_def)

lemma mutex_hot_body_eq: "mutex_hot_body = (\<lambda>tid. locked_section mutex_attempt mutex_unlock True 0)"
  by (rule ext) (rule mutex_hot_body_def)

lemma spin_hot_body_eq: "spin_hot_body = (\<lambda>tid. locked_section spin_attempt spin_unlock True 0)"
  by (rule ext) (rule spin_hot_body_def)

lemma spin_work_body_eq: "spin_work_body = (\<lambda>tid. locked_section spin_attempt spin_unlock True 10)"
  by (rule ext) (rule spin_work_body_def)

lemma spin_fairness_body_eq:
  "spin_fairness_body = (\<lambda>tid. locked_section spin_attempt spin_unlock False 0)"
  by (rule ext) (rule spin_fairness_body_def)

lemmas body_eqs = mutex_hot_body_eq spin_hot_body_eq spin_work_body_eq spin_fairness_body_eq

text \<open>Two calls inside a section at once would both weigh on the held lock.\<close>

lemma section_good_exclusive:
  assumes "section_good held (map calling ts) s" "i < length ts" "j < length ts" "j \<noteq> i"
    and "ts ! i = Worker (In_Body p)" "inside p = 1" "ts ! j = Worker (In_Body q)"
  shows "inside q = 0"
proof -
  obtain k v where s: "s = (k, v)" by force
  have "case_option 0 inside (map calling ts ! i) + case_option 0 inside (map calling ts ! j)
      \<le> tsum (case_option 0 inside) (map calling ts)"
    using assms by (intro tsum_two) auto
  then show ?thesis
    using assms s by (cases "held k") (auto simp: section_good_def)
qed

text \<open>
  Counter_Mutex_Hot: whatever the number of workers and the schedule, the operations that
  the harness reports over all iterations are exactly the increments of the mutex-protected
  counters of these iterations (the sanity comment in the source), and so is the item count
  handed to the benchmark library.
\<close>

theorem mutex_hot_report:
  assumes "measured mutex_hot_body Enter (mutex_ctor, 0) n ws"
  shows "total_ops (map fst ws) = sum_list (map (\<lambda>w. snd (snd w)) ws)
    \<and> items_processed (counter_bench n (map fst ws)) = sint (sum_list (map (\<lambda>w. snd (snd w)) ws))"
  using mutex_hot.counted.measured_tally assms
  by (simp add: body_eqs counter_bench_items)

text \<open>
  The three spinlock benchmarks: the plain section, the section with work and the try_lock
  section, in which only successful calls are counted.  The reported operations are the
  increments, for every number of workers and every schedule.
\<close>

theorem spin_reports:
  "measured spin_hot_body Enter (spinlock_ctor, 0) n ws
    \<or> measured spin_work_body Enter (spinlock_ctor, 0) n ws
    \<or> measured spin_fairness_body Enter (spinlock_ctor, 0) n ws
    \<Longrightarrow> total_ops (map fst ws) = sum_list (map (\<lambda>w. snd (snd w)) ws)"
  using spin_hot.counted.measured_tally [of n ws] spin_work.counted.measured_tally [of n ws]
    spin_fair.counted.measured_tally [of n ws]
  by (auto simp: body_eqs)

text \<open>
  Counter_Atomic: one \<open>fetch_add\<close> per call loses no update either.
\<close>

theorem atomic_report:
  "measured atomic_body () 0 n ws \<Longrightarrow> total_ops (map fst ws) = sum_list (map snd ws)"
  using fetch_add.measured_tally by simp

text \<open>
  C6. The five counter benchmarks, for every number of workers and every schedule: what they report,
  as the item count and as the counter \<open>ops_total\<close>, is the number of increments of the shared
  counters of their iterations, modulo \<open>2 ^ 64\<close>; no update is lost under the mutex, under the
  spinlock (with work in the section, or with \<open>try_lock\<close>, whose failures are not counted) or
  by the atomic \<open>fetch_add\<close>.
\<close>

theorem counter_reports:
  "(counter_mutex_hot n m_ws m_rep \<longrightarrow> items_processed m_rep = sint (\<Sum>w\<leftarrow>m_ws. snd (snd w))
      \<and> ops_total m_rep = to_double rnd64 (\<Sum>w\<leftarrow>m_ws. snd (snd w)))
    \<and> (counter_spin_hot n h_ws h_rep \<longrightarrow> items_processed h_rep = sint (\<Sum>w\<leftarrow>h_ws. snd (snd w))
      \<and> ops_total h_rep = to_double rnd64 (\<Sum>w\<leftarrow>h_ws. snd (snd w)))
    \<and> (counter_spin_with_work n w_ws w_rep \<longrightarrow> items_processed w_rep = sint (\<Sum>w\<leftarrow>w_ws. snd (snd w))
      \<and> ops_total w_rep = to_double rnd64 (\<Sum>w\<leftarrow>w_ws. snd (snd w)))
    \<and> (counter_spin_fairness n f_ws f_rep \<longrightarrow> items_processed f_rep = sint (\<Sum>w\<leftarrow>f_ws. snd (snd w))
      \<and> ops_total f_rep = to_double rnd64 (\<Sum>w\<leftarrow>f_ws. snd (snd w)))
    \<and> (counter_atomic n a_ws a_rep \<longrightarrow> items_processed a_rep = sint (\<Sum>w\<leftarrow>a_ws. snd w)
      \<and> ops_total a_rep = to_double rnd64 (\<Sum>w\<leftarrow>a_ws. snd w))"
  using mutex_hot_report [of n m_ws] spin_reports [of n h_ws] spin_reports [of n w_ws] spin_reports [of n f_ws]
    atomic_report [of n a_ws]
  unfolding counter_mutex_hot_def counter_spin_hot_def counter_spin_with_work_def counter_spin_fairness_def
    counter_atomic_def
  by (intro conjI impI; elim conjE; simp add: counter_bench_items)

text \<open>
  C7. Mutual exclusion of the spinlock under the harness: in every reachable state, while one
  worker is between taking and releasing the lock, no other worker is.
\<close>

theorem spin_hot_exclusion:
  assumes "steps (window_step spin_hot_body Enter n) (window_start n (spinlock_ctor, 0)) (ts, g)"
    and "i < length ts" "j < length ts" "j \<noteq> i"
    and "ts ! i = Worker (In_Body p)" "inside p = 1" "ts ! j = Worker (In_Body q)"
  shows "inside q = 0"
proof -
  have "window_inv (section_good flag) due snd n (ts, g)"
    using assms(1) spin_hot.counted.window.reach_inv by (simp add: body_eqs)
  then have "section_good flag (map calling ts) (env g)" by (auto elim: window_invE)
  then show ?thesis using assms(2-) by (rule section_good_exclusive)
qed

section \<open>Concrete runs\<close>

lemmas window_evals = window_start_def spin_attempt_eq mutex_attempt_def mutex_unlock_def
  spin_unlock_def mutex_ctor_def spinlock_ctor_def body_eqs atomic_body_def

text \<open>One worker, one call: spawn, start, one section, stop, join, collect.\<close>

lemma mutex_hot_run:
  "exec (window_step mutex_hot_body Enter 1) (window_start 1 (mutex_ctor, 0))
     ([(0,0), (0,0), (1,0), (1,0), (0,0), (1,0), (1,0)] @ replicate 6 (1,0)
        @ [(0,0), (0,0), (1,0), (0,0), (0,0), (0,0)])
   = Some ([Main (Done (collect 1 [1])), Worker Exited],
       \<lparr>start_flag = True, stop_flag = True, op_counts = [1], env = (mutex_ctor, 1)\<rparr>)"
  by (simp add: window_evals numeral_eq_Suc)

theorem mutex_hot_report_witness:
  "measured mutex_hot_body Enter (mutex_ctor, 0) 1 [(collect 1 [1], (mutex_ctor, 1))]
    \<and> total_ops [collect 1 [1]] = 1
    \<and> items_processed (counter_bench 1 [collect 1 [1]]) = 1"
proof -
  have m: "measured mutex_hot_body Enter (mutex_ctor, 0) 1 [(collect 1 [1], (mutex_ctor, 1))]"
    using measured.iteration [OF measured.no_iteration exec_steps [OF mutex_hot_run]] by simp
  from mutex_hot_report [OF m] m show ?thesis by simp
qed

text \<open>
  Two workers on the spinlock with \<open>try_lock\<close>: worker 1 fails while worker 0 holds the lock,
  and that call is not counted.
\<close>

lemma spin_fairness_run:
  "exec (window_step spin_fairness_body Enter 2) (window_start 2 (spinlock_ctor, 0))
     ([(0,0), (0,0), (0,0), (0,0), (1,0), (1,0), (1,0), (2,0), (2,0), (2,0),
       (1,0), (2,0), (1,0), (2,0)] @ replicate 5 (1,0)
        @ [(0,0), (0,0), (2,0), (1,0), (0,0), (0,0), (0,0), (0,0)])
   = Some ([Main (Done (collect 2 [1, 0])), Worker Exited, Worker Exited],
       \<lparr>start_flag = True, stop_flag = True, op_counts = [1, 0], env = (spinlock_ctor, 1)\<rparr>)"
  by (simp add: window_evals numeral_eq_Suc)

theorem spin_reports_witness:
  "measured spin_fairness_body Enter (spinlock_ctor, 0) 2 [(collect 2 [1, 0], (spinlock_ctor, 1))]
    \<and> total_ops [collect 2 [1, 0]] = 1"
proof -
  have m: "measured spin_fairness_body Enter (spinlock_ctor, 0) 2
      [(collect 2 [1, 0], (spinlock_ctor, 1))]"
    using measured.iteration [OF measured.no_iteration exec_steps [OF spin_fairness_run]] by simp
  from spin_reports [OF disjI2 [OF disjI2 [OF m]]] m show ?thesis by simp
qed

lemma atomic_run:
  "exec (window_step atomic_body () 1) (window_start 1 0)
     [(0,0), (0,0), (1,0), (1,0), (0,0), (1,0), (1,0), (1,0), (1,0), (1,0), (1,0), (1,0),
      (0,0), (0,0), (1,0), (0,0), (0,0), (0,0)]
   = Some ([Main (Done (collect 1 [2])), Worker Exited],
       \<lparr>start_flag = True, stop_flag = True, op_counts = [2], env = 2\<rparr>)"
  by (simp add: window_evals numeral_eq_Suc)

theorem atomic_report_witness:
  "measured atomic_body () 0 1 [(collect 1 [2], 2)] \<and> total_ops [collect 1 [2]] = 2"
proof -
  have m: "measured atomic_body () 0 1 [(collect 1 [2], 2)]"
    using measured.iteration [OF measured.no_iteration exec_steps [OF atomic_run]] by simp
  from atomic_report [OF m] m show ?thesis by simp
qed

theorem counter_reports_witness:
  "counter_mutex_hot 1 [(collect 1 [1], (mutex_ctor, 1))] (counter_bench 1 [collect 1 [1]])
    \<and> items_processed (counter_bench 1 [collect 1 [1]]) = 1
    \<and> counter_spin_fairness 2 [(collect 2 [1, 0], (spinlock_ctor, 1))] (plain_report [collect 2 [1, 0]])
    \<and> items_processed (plain_report [collect 2 [1, 0]]) = 1
    \<and> counter_atomic 1 [(collect 1 [2], 2)] (plain_report [collect 1 [2]])
    \<and> items_processed (plain_report [collect 1 [2]]) = 2"
proof -
  have "measured mutex_hot_body Enter (mutex_ctor, 0) 1 [(collect 1 [1], (mutex_ctor, 1))]"
    using measured.iteration [OF measured.no_iteration exec_steps [OF mutex_hot_run]] by simp
  moreover have "measured spin_fairness_body Enter (spinlock_ctor, 0) 2 [(collect 2 [1, 0], (spinlock_ctor, 1))]"
    using measured.iteration [OF measured.no_iteration exec_steps [OF spin_fairness_run]] by simp
  moreover have "measured atomic_body () 0 1 [(collect 1 [2], 2)]"
    using measured.iteration [OF measured.no_iteration exec_steps [OF atomic_run]] by simp
  ultimately have "counter_mutex_hot 1 [(collect 1 [1], (mutex_ctor, 1))] (counter_bench 1 [collect 1 [1]])"
    "counter_spin_fairness 2 [(collect 2 [1, 0], (spinlock_ctor, 1))] (plain_report [collect 2 [1, 0]])"
    "counter_atomic 1 [(collect 1 [2], 2)] (plain_report [collect 1 [2]])"
    by (simp_all add: counter_mutex_hot_def counter_spin_fairness_def counter_atomic_def)
  then show ?thesis
    using counter_reports [of 1 "[(collect 1 [1], (mutex_ctor, 1))]" "counter_bench 1 [collect 1 [1]]"]
      counter_reports [where n = 2 and f_ws = "[(collect 2 [1, 0], (spinlock_ctor, 1))]"
        and f_rep = "plain_report [collect 2 [1, 0]]"]
      counter_reports [where n = 1 and a_ws = "[(collect 1 [2], 2)]" and a_rep = "plain_report [collect 1 [2]]"]
    by simp
qed

lemma spin_hot_contended_run:
  "exec (window_step spin_hot_body Enter 2) (window_start 2 (spinlock_ctor, 0))
     [(0,0), (0,0), (0,0), (0,0), (1,0), (1,0), (1,0), (2,0), (2,0), (2,0),
      (1,0), (2,0), (1,0), (2,0)]
   = Some ([Main Sleep, Worker (In_Body Load), Worker (In_Body Enter)],
       \<lparr>start_flag = True, stop_flag = False, op_counts = [0, 0], env = (\<lparr>flag = True\<rparr>, 0)\<rparr>)"
  by (simp add: window_evals numeral_eq_Suc)

theorem spin_hot_exclusion_witness:
  "\<exists>g. steps (window_step spin_hot_body Enter 2) (window_start 2 (spinlock_ctor, 0))
      ([Main Sleep, Worker (In_Body Load), Worker (In_Body Enter)], g)
    \<and> inside (Load :: uint64 section_pc) = 1 \<and> inside (Enter :: uint64 section_pc) = 0"
  using spin_hot_exclusion [OF exec_steps [OF spin_hot_contended_run], of 1 2 Load Enter]
    exec_steps [OF spin_hot_contended_run]
  by auto

end
