(* ===== verification/Spin_Test.thy ===== *)
theory Spin_Test
  imports Counters
begin

text \<open>
  The spinlock part of tests/test\_smoke.cpp: the sequential expectations, and the test in which
  several threads increment a shared \<open>std::atomic<int>\<close> by a load and a later store under the
  lock.  Thread 0 is the main thread, thread \<open>i + 1\<close> the worker \<open>i\<close>.  The test is proved to
  finish and to pass for every number of threads and iterations whose product fits an \<open>int\<close>.
\<close>

section \<open>The sequential expectations\<close>

definition spin_expectations :: "bool list" where
  "spin_expectations =
     (let lock = spinlock_ctor;
          (first, lock) = spin_try_lock lock;
          (second, lock) = spin_try_lock lock;
          lock = spin_unlock lock;
          (third, lock) = spin_try_lock lock;
          lock = spin_unlock lock
      in [first, \<not> second, third])"

section \<open>The threads of the test\<close>

type_synonym int32 = "32 word"

datatype test_main_pc =
    Test_Spawn nat
  | Test_Join nat
  | Test_Check
  | Test_Done bool

datatype test_pc =
    Not_Started
  | Iteration nat
  | Locked nat "int32 section_pc"
  | Returned

datatype test_role =
    Test_Main test_main_pc
  | Test_Thread test_pc

fun test_spawned :: "test_role \<Rightarrow> nat \<Rightarrow> bool" where
  "test_spawned (Test_Main (Test_Spawn k)) j = (j < k)"
| "test_spawned (Test_Main _) j = True"
| "test_spawned (Test_Thread _) j = False"

fun test_main_step :: "nat \<Rightarrow> nat \<Rightarrow> test_main_pc \<Rightarrow> test_role list \<Rightarrow> spinlock \<times> int32
  \<Rightarrow> test_main_pc list" where
  "test_main_step n iters (Test_Spawn k) ts s = [if k < n then Test_Spawn (Suc k) else Test_Join 0]"
| "test_main_step n iters (Test_Join k) ts s =
     (if k < n then (if ts ! Suc k = Test_Thread Returned then [Test_Join (Suc k)] else [])
      else [Test_Check])"
| "test_main_step n iters Test_Check ts s = [Test_Done (snd s = of_nat (n * iters))]"
| "test_main_step n iters (Test_Done b) ts s = []"

fun test_thread_step :: "nat \<Rightarrow> nat \<Rightarrow> test_pc \<Rightarrow> test_role list \<Rightarrow> spinlock \<times> int32
  \<Rightarrow> (test_pc \<times> (spinlock \<times> int32)) list" where
  "test_thread_step iters tid Not_Started ts s =
     (if test_spawned (ts ! 0) tid then [(Iteration 0, s)] else [])"
| "test_thread_step iters tid (Iteration j) ts s =
     [(if j < iters then Locked j Enter else Returned, s)]"
| "test_thread_step iters tid (Locked j p) ts s =
     map (\<lambda>(r, s'). (case r of Inl p' \<Rightarrow> Locked j p' | Inr _ \<Rightarrow> Iteration (Suc j), s'))
       (locked_section spin_attempt spin_unlock True 0 p s)"
| "test_thread_step iters tid Returned ts s = []"

fun test_step :: "nat \<Rightarrow> nat \<Rightarrow> (test_role, spinlock \<times> int32) stepper" where
  "test_step n iters i ts s =
     (case ts ! i of
        Test_Main pc \<Rightarrow> map (\<lambda>pc'. (Test_Main pc', s)) (test_main_step n iters pc ts s)
      | Test_Thread pc \<Rightarrow>
          map (\<lambda>(pc', s'). (Test_Thread pc', s')) (test_thread_step iters (i - 1) pc ts s))"

definition test_start :: "nat \<Rightarrow> (test_role, spinlock \<times> int32) conf" where
  "test_start n = (Test_Main (Test_Spawn 0) # replicate n (Test_Thread Not_Started),
     (spinlock_ctor, 0))"

section \<open>The invariant\<close>

fun test_calling :: "test_role \<Rightarrow> int32 section_pc option" where
  "test_calling (Test_Thread (Locked j p)) = Some p"
| "test_calling _ = None"

text \<open>The increments a thread has performed.\<close>

fun increments :: "nat \<Rightarrow> test_role \<Rightarrow> nat" where
  "increments iters (Test_Thread (Iteration j)) = j"
| "increments iters (Test_Thread (Locked j p)) = j + due p"
| "increments iters (Test_Thread Returned) = iters"
| "increments iters _ = 0"

fun test_ok :: "nat \<Rightarrow> test_role \<Rightarrow> bool" where
  "test_ok iters (Test_Thread (Iteration j)) = (j \<le> iters)"
| "test_ok iters (Test_Thread (Locked j p)) = (j < iters)"
| "test_ok iters _ = True"

fun test_joined :: "nat \<Rightarrow> test_main_pc \<Rightarrow> nat" where
  "test_joined n (Test_Spawn k) = 0"
| "test_joined n (Test_Join k) = k"
| "test_joined n _ = n"

fun test_verdict :: "test_main_pc \<Rightarrow> bool" where
  "test_verdict (Test_Done b) = b"
| "test_verdict _ = True"

fun is_test_main :: "test_role \<Rightarrow> bool" where
  "is_test_main (Test_Main _) = True"
| "is_test_main _ = False"

definition test_inv :: "nat \<Rightarrow> nat \<Rightarrow> (test_role, spinlock \<times> int32) conf \<Rightarrow> bool" where
  "test_inv n iters c = (case c of (ts, s) \<Rightarrow>
     length ts = Suc n \<and>
     (\<exists>pc. ts ! 0 = Test_Main pc \<and> test_joined n pc \<le> n \<and> test_verdict pc \<and>
       (\<forall>j < test_joined n pc. ts ! Suc j = Test_Thread Returned)) \<and>
     (\<forall>j < n. \<not> is_test_main (ts ! Suc j)) \<and>
     list_all (test_ok iters) ts \<and>
     section_good flag (map test_calling ts) s \<and>
     snd s = of_nat (tsum (increments iters) ts))"

text \<open>The work left: program counters, weighted so that a whole iteration costs seven.\<close>

fun section_rank :: "'w section_pc \<Rightarrow> nat" where
  "section_rank Enter = 5"
| "section_rank Load = 4"
| "section_rank (Store _) = 3"
| "section_rank (Work _ _) = 2"
| "section_rank Leave = 1"

fun test_rank1 :: "nat \<Rightarrow> nat \<Rightarrow> test_role \<Rightarrow> nat" where
  "test_rank1 n iters (Test_Main (Test_Spawn k)) = (n - k) + n + 4"
| "test_rank1 n iters (Test_Main (Test_Join k)) = (n - k) + 2"
| "test_rank1 n iters (Test_Main Test_Check) = 1"
| "test_rank1 n iters (Test_Main (Test_Done b)) = 0"
| "test_rank1 n iters (Test_Thread Not_Started) = 7 * iters + 2"
| "test_rank1 n iters (Test_Thread (Iteration j)) = 7 * (iters - j) + 1"
| "test_rank1 n iters (Test_Thread (Locked j p)) = 7 * (iters - Suc j) + 1 + section_rank p"
| "test_rank1 n iters (Test_Thread Returned) = 0"

definition test_rank :: "nat \<Rightarrow> nat \<Rightarrow> (test_role, spinlock \<times> int32) conf \<Rightarrow> nat" where
  "test_rank n iters c = tsum (test_rank1 n iters) (fst c)"

text \<open>The test has ended with its expectation met.\<close>

definition test_passed :: "nat \<Rightarrow> (test_role, spinlock \<times> int32) conf \<Rightarrow> bool" where
  "test_passed n c \<longleftrightarrow>
     fst c = Test_Main (Test_Done True) # replicate n (Test_Thread Returned)"

section \<open>Every action keeps the invariant\<close>

lemma test_invE:
  assumes "test_inv n iters (ts, s)"
  obtains pc where "length ts = Suc n" "ts ! 0 = Test_Main pc" "test_joined n pc \<le> n"
    "test_verdict pc" "\<And>j. j < test_joined n pc \<Longrightarrow> ts ! Suc j = Test_Thread Returned"
    "\<And>j. j < n \<Longrightarrow> \<not> is_test_main (ts ! Suc j)" "list_all (test_ok iters) ts"
    "section_good flag (map test_calling ts) s" "snd s = of_nat (tsum (increments iters) ts)"
  using assms by (auto simp: test_inv_def)

lemma all_returned:
  assumes "length ts = Suc n" "ts ! 0 = Test_Main pc"
    and "\<And>j. j < n \<Longrightarrow> ts ! Suc j = Test_Thread Returned"
  shows "ts = Test_Main pc # replicate n (Test_Thread Returned)"
proof (rule nth_equalityI)
  show "length ts = length (Test_Main pc # replicate n (Test_Thread Returned))"
    using assms(1) by simp
next
  fix i
  assume "i < length ts"
  then show "ts ! i = (Test_Main pc # replicate n (Test_Thread Returned)) ! i"
    using assms by (cases i) simp_all
qed

lemma test_main_keeps_inv:
  assumes inv: "test_inv n iters (ts, s)" and pc: "ts ! 0 = Test_Main pc"
    and st: "pc' \<in> set (test_main_step n iters pc ts s)"
  shows "test_inv n iters (ts[0 := Test_Main pc'], s)"
proof -
  from inv pc have *: "length ts = Suc n" "test_joined n pc \<le> n"
    "\<And>j. j < test_joined n pc \<Longrightarrow> ts ! Suc j = Test_Thread Returned"
    "\<And>j. j < n \<Longrightarrow> \<not> is_test_main (ts ! Suc j)" "list_all (test_ok iters) ts"
    "section_good flag (map test_calling ts) s" "snd s = of_nat (tsum (increments iters) ts)"
    by (auto elim: test_invE)
  have 0: "0 < length ts" using *(1) by simp
  have "map test_calling (ts[0 := Test_Main pc']) = map test_calling ts"
    using pc by (metis list_update_id map_update test_calling.simps(2))
  moreover have "tsum (increments iters) (ts[0 := Test_Main pc']) = tsum (increments iters) ts"
    using tsum_update [OF 0, of "increments iters" "Test_Main pc'"] pc by simp
  moreover have "test_joined n pc' \<le> n \<and> test_verdict pc'
      \<and> (\<forall>j < test_joined n pc'. ts ! Suc j = Test_Thread Returned)"
  proof (cases pc)
    case Test_Check
    have "ts = Test_Main Test_Check # replicate n (Test_Thread Returned)"
      using *(1,3) pc Test_Check by (intro all_returned) simp_all
    then have "tsum (increments iters) ts = n * iters"
      by (metis add_0 increments.simps(4) increments.simps(3) tsum_Cons tsum_replicate)
    with st Test_Check *(2,3,7) show ?thesis by auto
  qed (use st *(2,3) in \<open>auto split: if_splits simp: less_Suc_eq\<close>)
  ultimately show ?thesis
    using * 0 by (auto simp: test_inv_def list_all_update)
qed

text \<open>A thread that has not returned may change its own program counter when the sums move with it.\<close>

lemma test_thread_updateI:
  assumes inv: "test_inv n iters (ts, s)" and i: "Suc i < length ts"
    and "ts ! Suc i = Test_Thread pc" "pc \<noteq> Returned" "test_ok iters (Test_Thread pc')"
    and "section_good flag ((map test_calling ts)[Suc i := test_calling (Test_Thread pc')]) s'"
    and "snd s' + of_nat (increments iters (Test_Thread pc)) = snd s + of_nat (increments iters (Test_Thread pc'))"
  shows "test_inv n iters (ts[Suc i := Test_Thread pc'], s')"
proof -
  from inv obtain mpc where *: "length ts = Suc n" "ts ! 0 = Test_Main mpc"
    "test_joined n mpc \<le> n" "test_verdict mpc"
    "\<And>j. j < test_joined n mpc \<Longrightarrow> ts ! Suc j = Test_Thread Returned"
    "\<And>j. j < n \<Longrightarrow> \<not> is_test_main (ts ! Suc j)" "list_all (test_ok iters) ts"
    "snd s = of_nat (tsum (increments iters) ts)"
    by (auto elim: test_invE)
  have alive: "\<not> i < test_joined n mpc" using *(5) [of i] assms(3,4) by auto
  have "of_nat (tsum (increments iters) (ts[Suc i := Test_Thread pc'])) +
      (of_nat (increments iters (Test_Thread pc)) :: int32)
      = of_nat (tsum (increments iters) ts) + of_nat (increments iters (Test_Thread pc'))"
    using tsum_update [OF i, of "increments iters" "Test_Thread pc'"] assms(3) by (metis of_nat_add)
  then have "snd s' = of_nat (tsum (increments iters) (ts[Suc i := Test_Thread pc']))"
    using assms(7) *(8) by (metis add_right_imp_eq)
  then show ?thesis
    using * assms(5,6) alive i by (auto simp: test_inv_def list_all_update map_update nth_list_update)
qed

text \<open>A step inside the locked section.\<close>

lemma test_section_keeps:
  assumes inv: "test_inv n iters (ts, s)" and i: "Suc i < length ts"
    and pc: "ts ! Suc i = Test_Thread (Locked j p)"
    and r: "(r, s') \<in> set (locked_section spin_attempt spin_unlock True 0 p s)"
  shows "test_inv n iters (ts[Suc i := Test_Thread (case r of Inl p' \<Rightarrow> Locked j p' | Inr _ \<Rightarrow> Iteration (Suc j))], s')"
proof -
  from inv have good: "section_good flag (map test_calling ts) s" and "list_all (test_ok iters) ts"
    by (auto elim: test_invE)
  then have ok: "test_ok iters (Test_Thread (Locked j p))" using i pc by (metis list_all_length)
  have call: "Suc i < length (map test_calling ts)" "map test_calling ts ! Suc i = Some p" using i pc by simp_all
  show ?thesis
  proof (cases r)
    case (Inl p')
    then show ?thesis
      using spin_hot.section_step [OF good call] r ok inv i pc
      by (intro test_thread_updateI [where pc = "Locked j p"]) (auto simp: algebra_simps)
  next
    case (Inr b)
    then have "b" using r by (cases p; cases s) (auto simp: spin_attempt_eq split: if_splits)
    then show ?thesis
      using spin_hot.section_return [OF good call] r ok inv i pc Inr
      by (intro test_thread_updateI [where pc = "Locked j p"]) (auto simp: algebra_simps)
  qed
qed

lemma test_thread_keeps_inv:
  assumes inv: "test_inv n iters (ts, s)" and i: "Suc i < length ts"
    and pc: "ts ! Suc i = Test_Thread pc"
    and st: "(pc', s') \<in> set (test_thread_step iters i pc ts s)"
  shows "test_inv n iters (ts[Suc i := Test_Thread pc'], s')"
proof -
  from inv have good: "section_good flag (map test_calling ts) s" and "list_all (test_ok iters) ts"
    by (auto elim: test_invE)
  then have ok: "test_ok iters (Test_Thread pc)" using i pc by (metis list_all_length)
  have call: "Suc i < length (map test_calling ts)"
    "map test_calling ts ! Suc i = test_calling (Test_Thread pc)" using i pc by simp_all
  show ?thesis
  proof (cases pc)
    case (Locked j p)
    with st obtain r where "(r, s') \<in> set (locked_section spin_attempt spin_unlock True 0 p s)"
      "pc' = (case r of Inl p' \<Rightarrow> Locked j p' | Inr _ \<Rightarrow> Iteration (Suc j))" by auto
    then show ?thesis using test_section_keeps inv i pc Locked by blast
  next
    case (Iteration j)
    have "section_good flag ((map test_calling ts)[Suc i := q]) s" if "q = None \<or> q = Some Enter" for q
    proof -
      have "tsum (case_option 0 inside) ((map test_calling ts)[Suc i := q])
          = tsum (case_option 0 inside) (map test_calling ts)"
        using tsum_update [OF call(1), of "case_option 0 inside" q] call(2) Iteration that by auto
      with good that show ?thesis by (auto simp: section_good_def intro!: list_all_update)
    qed
    then show ?thesis
      using inv i pc ok st Iteration
      by (intro test_thread_updateI [where pc = pc]) (auto split: if_splits)
  next
    case Not_Started
    then have "(map test_calling ts)[Suc i := None] = map test_calling ts"
      using call by (metis list_update_id test_calling.simps(3))
    then show ?thesis
      using inv i pc ok st Not_Started good
      by (intro test_thread_updateI [where pc = pc]) (auto split: if_splits)
  qed (use st in simp)
qed

lemma test_start_inv: "test_inv n iters (test_start n)"
proof -
  have "tsum (case_option 0 inside) (map test_calling (fst (test_start n))) = 0"
    "tsum (increments iters) (fst (test_start n)) = 0"
    "list_all (test_ok iters) (fst (test_start n))"
    "list_all (case_option True (fresh 0)) (map test_calling (fst (test_start n)))"
    by (auto simp: test_start_def tsum_eq_0_iff list_all_iff)
  then show ?thesis
    by (auto simp: test_inv_def test_start_def section_good_def spinlock_ctor_def)
qed

lemma test_step_inv:
  assumes inv: "test_inv n iters (ts, s)" and i: "i < length ts"
    and st: "(l, s') \<in> set (test_step n iters i ts s)"
  shows "test_inv n iters (ts[i := l], s')"
proof -
  from inv obtain pc0 where len: "length ts = Suc n" and m0: "ts ! 0 = Test_Main pc0"
    and workers: "\<And>j. j < n \<Longrightarrow> \<not> is_test_main (ts ! Suc j)"
    by (auto elim: test_invE)
  show ?thesis
  proof (cases i)
    case 0
    with st m0 inv show ?thesis by (auto intro: test_main_keeps_inv)
  next
    case (Suc j)
    with i len workers [of j] obtain pc where pc: "ts ! Suc j = Test_Thread pc"
      by (cases "ts ! Suc j") auto
    with st Suc inv i show ?thesis by (auto intro: test_thread_keeps_inv)
  qed
qed

section \<open>Progress\<close>

lemma test_thread_moves:
  assumes "i < n" "length ts = Suc n" "ts ! Suc i = Test_Thread pc"
    and "(pc', s') \<in> set (test_thread_step iters i pc ts s)" and "pc' \<noteq> pc"
  shows "\<exists>c'. move (test_step n iters) (ts, s) c'"
  using assms by (intro moveI [of "Suc i" ts "Test_Thread pc'" s']) force+

lemma test_main_moves:
  assumes "length ts = Suc n" "ts ! 0 = Test_Main pc"
    and "pc' \<in> set (test_main_step n iters pc ts s)" and "pc' \<noteq> pc"
  shows "\<exists>c'. move (test_step n iters) (ts, s) c'"
  using assms by (intro moveI [of 0 ts "Test_Main pc'" s]) auto

text \<open>Inside the section a thread is never refused; at its entry it moves when the lock is free.\<close>

lemma section_moves:
  assumes "p \<noteq> Enter \<or> \<not> flag (fst s)"
  shows "\<exists>r s'. (r, s') \<in> set (locked_section spin_attempt spin_unlock True 0 p s) \<and> r \<noteq> Inl p"
proof -
  obtain k v where s: "s = (k, v)" by force
  then show ?thesis using assms by (cases p) (auto simp: spin_attempt_eq)
qed

text \<open>A call can move unless it tries to take a lock that is held; then the holder can.\<close>

lemma test_call_moves:
  assumes "length ts = Suc n" "Suc i < length ts" "ts ! Suc i = Test_Thread (Locked j p)" "p \<noteq> Enter \<or> \<not> flag (fst s)"
  shows "\<exists>c'. move (test_step n iters) (ts, s) c'"
proof -
  obtain r s' where r: "(r, s') \<in> set (locked_section spin_attempt spin_unlock True 0 p s)"
    "r \<noteq> Inl p" using section_moves [OF assms(4)] by blast
  let ?pc = "case r of Inl p' \<Rightarrow> Locked j p' | Inr _ \<Rightarrow> Iteration (Suc j)"
  have "(?pc, s') \<in> set (test_thread_step iters i (Locked j p) ts s)" using r(1) by force
  moreover have "?pc \<noteq> Locked j p" using r(2) by (cases r) auto
  ultimately show ?thesis using assms(1-3) by (intro test_thread_moves [of i]) auto
qed

lemma lock_holder:
  assumes "section_good flag (map test_calling ts) s" "flag (fst s)" "ts ! 0 = Test_Main mpc"
  obtains h j q where "Suc h < length ts" "ts ! Suc h = Test_Thread (Locked j q)" "q \<noteq> Enter"
proof -
  have "0 < tsum (case_option 0 inside) (map test_calling ts)"
    using assms(1,2) by (cases s) (simp add: section_good_def)
  then obtain i where i: "i < length (map test_calling ts)" "0 < case_option 0 inside (map test_calling ts ! i)"
    by (blast dest: tsum_pos_member)
  then have i: "i < length ts" "0 < case_option 0 inside (test_calling (ts ! i))" by simp_all
  then obtain q where q: "test_calling (ts ! i) = Some q" by (cases "test_calling (ts ! i)") auto
  with i assms(3) obtain h where h: "i = Suc h" by (cases i) auto
  from q h obtain j where "ts ! Suc h = Test_Thread (Locked j q)" by (auto elim: test_calling.elims)
  moreover have "q \<noteq> Enter" using i q by auto
  ultimately show ?thesis using that i h by blast
qed

lemma test_progress:
  assumes inv: "test_inv n iters (ts, s)" and nf: "\<not> test_passed n (ts, s)"
  shows "\<exists>c'. move (test_step n iters) (ts, s) c'"
proof -
  from inv obtain mpc where *: "length ts = Suc n" "ts ! 0 = Test_Main mpc"
    "test_joined n mpc \<le> n" "test_verdict mpc"
    "\<And>j. j < test_joined n mpc \<Longrightarrow> ts ! Suc j = Test_Thread Returned"
    "\<And>j. j < n \<Longrightarrow> \<not> is_test_main (ts ! Suc j)"
    "section_good flag (map test_calling ts) s"
    by (auto elim: test_invE)
  show ?thesis
  proof (cases mpc)
    case (Test_Join k)
    show ?thesis
    proof (cases "k < n")
      case False
      with Test_Join * show ?thesis by (intro test_main_moves) auto
    next
      case kn: True
      then obtain pc where pc: "ts ! Suc k = Test_Thread pc"
        using *(6) [of k] by (cases "ts ! Suc k") auto
      show ?thesis
      proof (cases pc)
        case Returned
        with kn pc Test_Join * show ?thesis by (intro test_main_moves) auto
      next
        case Not_Started
        with kn pc Test_Join * show ?thesis by (intro test_thread_moves [of k]) auto
      next
        case (Iteration j)
        with kn pc * show ?thesis by (intro test_thread_moves [of k]) (auto split: if_splits)
      next
        case (Locked j p)
        show ?thesis
        proof (cases "flag (fst s)")
          case True
          obtain h j' q where "Suc h < length ts" "ts ! Suc h = Test_Thread (Locked j' q)" "q \<noteq> Enter"
            by (rule lock_holder [OF *(7) True *(2)])
          then show ?thesis by (rule test_call_moves [OF *(1) _ _ disjI1])
        next
          case False
          then show ?thesis using kn *(1) by (intro test_call_moves [OF *(1) _ pc [unfolded Locked]]) simp_all
        qed
      qed
    qed
  next
    case (Test_Done b)
    then have "ts = Test_Main (Test_Done True) # replicate n (Test_Thread Returned)"
      using * by (intro all_returned) auto
    with nf show ?thesis by (simp add: test_passed_def)
  next
    case (Test_Spawn k)
    have "\<exists>pc'. pc' \<in> set (test_main_step n iters mpc ts s) \<and> pc' \<noteq> mpc"
      using Test_Spawn by auto
    then show ?thesis using test_main_moves * by blast
  next
    case Test_Check
    with * show ?thesis by (intro test_main_moves) auto
  qed
qed

lemma section_rank_pos: "0 < section_rank p"
  by (cases p) simp_all

lemma section_step_rank:
  assumes "(Inl p', s') \<in> set (locked_section spin_attempt spin_unlock True 0 p s)"
    and "(p', s') \<noteq> (p, s)"
  shows "section_rank p' < section_rank p"
proof -
  obtain k v where "s = (k, v)" by force
  with assms show ?thesis by (cases p) (auto simp: spin_attempt_eq split: if_splits)
qed

lemma test_thread_decrease:
  assumes "(pc', s') \<in> set (test_thread_step iters i pc ts s)" and "(pc', s') \<noteq> (pc, s)"
    and "test_ok iters (Test_Thread pc)"
  shows "test_rank1 n iters (Test_Thread pc') < test_rank1 n iters (Test_Thread pc)"
proof (cases pc)
  case (Locked j p)
  with assms obtain r where "(r, s') \<in> set (locked_section spin_attempt spin_unlock True 0 p s)"
    "pc' = (case r of Inl p' \<Rightarrow> Locked j p' | Inr _ \<Rightarrow> Iteration (Suc j))" by auto
  then show ?thesis
    using assms Locked section_step_rank [of _ s' p s] section_rank_pos [of p] by (cases r) auto
qed (use assms in \<open>auto split: if_splits\<close>)

lemma test_decrease:
  assumes inv: "test_inv n iters (ts, s)" and i: "i < length ts"
    and st: "(l, s') \<in> set (test_step n iters i ts s)" and ch: "(ts[i := l], s') \<noteq> (ts, s)"
  shows "test_rank n iters (ts[i := l], s') < test_rank n iters (ts, s)"
proof -
  have changed: "(l, s') \<noteq> (ts ! i, s)" using ch by auto
  have ok: "test_ok iters (ts ! i)"
    using inv i by (auto elim!: test_invE simp: list_all_length)
  have "test_rank1 n iters l < test_rank1 n iters (ts ! i)"
  proof (cases "ts ! i")
    case (Test_Main pc)
    then show ?thesis using st changed by (cases pc) (auto split: if_splits)
  next
    case (Test_Thread pc)
    with st obtain pc' where "l = Test_Thread pc'"
      "(pc', s') \<in> set (test_thread_step iters (i - 1) pc ts s)" by auto
    then show ?thesis
      using Test_Thread changed ok test_thread_decrease [of pc' s' iters "i - 1" pc ts s n] by auto
  qed
  then show ?thesis
    unfolding test_rank_def using i by (simp add: tsum_update_less)
qed

interpretation smoke: live_interleaving "test_step n iters" "test_start n" "test_inv n iters"
  "test_passed n" "test_rank n iters" for n iters
proof unfold_locales
  fix c
  show "test_inv n iters c \<Longrightarrow> \<not> test_passed n c \<Longrightarrow> \<exists>c'. move (test_step n iters) c c'"
    using test_progress [of n iters "fst c" "snd c"] by simp
qed (fact test_start_inv test_step_inv test_decrease)+

section \<open>The test passes\<close>

text \<open>
  The sequential expectations of the smoke test hold: \<open>try_lock\<close> succeeds on a free
  spinlock, fails on a held one, and succeeds again after \<open>unlock\<close>.
\<close>

theorem spin_expectations_met: "spin_expectations = [True, True, True]"
  by (simp add: spin_expectations_def spinlock_ctor_def spin_try_lock_def test_and_set_def
      spin_unlock_def)

text \<open>
  \<open>lock\<close> returns exactly on a free lock, which it takes; on a lock that is held and that
  nobody releases it never returns (the spinlock is not recursive).
\<close>

theorem spin_lock_result:
  "spin_lock s = (if flag s then None else Some (s\<lparr>flag := True\<rparr>))"
  by (simp add: spin_lock_free spin_lock_held)

text \<open>
  The contended test always finishes, for every number of threads and iterations: no run
  makes more moves (steps other than a failed spin) than the stated bound, and the only
  states without a move are those where the check of the counter has succeeded.  There is no
  deadlock, no livelock and no lost update.
\<close>

theorem smoke_test_passes:
  "finishes (test_step n iters) (test_start n) (test_passed n) (n * (7 * iters + 4) + 4)"
  by (rule smoke.always_finishes) (simp add: test_rank_def test_start_def algebra_simps)

text \<open>
  At the end of the test the \<open>int\<close> counter holds the number of increments, as a signed
  value, as long as that number fits an \<open>int\<close> (4 threads of 10000 iterations in the source).
\<close>

theorem smoke_test_counter:
  assumes "steps (test_step n iters) (test_start n) (ts, s)"
    and "test_passed n (ts, s)" and "n * iters < 2 ^ 31"
  shows "sint (snd s) = int (n * iters)"
proof -
  have "test_inv n iters (ts, s)" using assms(1) by (rule smoke.reach_inv)
  then have "snd s = of_nat (tsum (increments iters) ts)" by (auto elim: test_invE)
  moreover have "tsum (increments iters) ts = n * iters"
    using assms(2) by (simp add: test_passed_def)
  ultimately have "snd s = of_nat (n * iters)" by (simp only:)
  then have "sint (snd s) = signed_take_bit 31 (int (n * iters))"
    by (simp only: signed_of_nat) simp
  also have "\<dots> = int (n * iters)"
    using assms(3) by (intro signed_take_bit_int_eq_self) (simp_all del: of_nat_mult)
  finally show ?thesis .
qed

text \<open>One thread, one iteration.\<close>

lemma smoke_run:
  "exec (test_step 1 1) (test_start 1)
     ([(0,0), (0,0)] @ replicate 8 (1,0) @ [(0,0), (0,0), (0,0)])
   = Some ([Test_Main (Test_Done True), Test_Thread Returned], (spinlock_ctor, 1))"
  by (simp add: test_start_def spin_attempt_eq spin_unlock_def spinlock_ctor_def numeral_eq_Suc)

theorem smoke_test_counter_witness:
  "steps (test_step 1 1) (test_start 1)
     ([Test_Main (Test_Done True), Test_Thread Returned], (spinlock_ctor, 1))
   \<and> sint (1 :: int32) = 1"
  using smoke_test_counter [OF exec_steps [OF smoke_run]] exec_steps [OF smoke_run]
  by (simp add: test_passed_def)

end
