(* ===== verification/Clients.thy ===== *)
theory Clients
  imports Prelude
begin

text \<open>
  Threads that call the operations of one shared object.  An operation is an automaton over
  its own program counters: \<open>op_step i k g\<close> lists the outcomes of the next atomic action of
  thread \<open>i\<close> at program counter \<open>k\<close>, each a new program counter (\<open>Inl\<close>) or the value that the
  call returns (\<open>Inr\<close>).  A program is an automaton of its own, whose state \<open>'p\<close> does not change
  during a call: \<open>prog i ps c\<close> is the next action of thread \<open>i\<close>, a call (\<open>Inl\<close>), an atomic
  action on the variables \<open>'c\<close> that the threads share besides the object (\<open>Inr\<close>), or none when
  the thread is blocked or has ended; it may look at the program states \<open>ps\<close> of the others,
  as a join does.  \<open>after i p r\<close> is the program state once a call has returned \<open>r\<close>.
\<close>

text \<open>The call after a step: its next program counter, or none once it has returned.\<close>

abbreviation still :: "'k + 'r \<Rightarrow> 'k option" where
  "still r \<equiv> case r of Inl k \<Rightarrow> Some k | Inr _ \<Rightarrow> None"

section \<open>Programs over an object\<close>

fun client_step :: "(nat \<Rightarrow> 'p list \<Rightarrow> 'c \<Rightarrow> ('o + 'p \<times> 'c) option) \<Rightarrow> (nat \<Rightarrow> 'p \<Rightarrow> 'r \<Rightarrow> 'p)
  \<Rightarrow> ('o \<Rightarrow> 'k) \<Rightarrow> (nat \<Rightarrow> 'k \<Rightarrow> 'g \<Rightarrow> (('k + 'r) \<times> 'g) list)
  \<Rightarrow> ('p \<times> 'k option, 'g \<times> 'c) stepper" where
  "client_step prog after entry op_step i ts (g, c) =
     (case ts ! i of
        (p, None) \<Rightarrow>
          (case prog i (map fst ts) c of
             None \<Rightarrow> []
           | Some (Inl oper) \<Rightarrow> [((p, Some (entry oper)), (g, c))]
           | Some (Inr (p', c')) \<Rightarrow> [((p', None), (g, c'))])
      | (p, Some k) \<Rightarrow>
          map (\<lambda>(r, g'). (case r of Inl k' \<Rightarrow> (p, Some k') | Inr v \<Rightarrow> (after i p v, None), (g', c)))
            (op_step i k g))"

definition client_start :: "'p list \<Rightarrow> 'g \<Rightarrow> 'c \<Rightarrow> ('p \<times> 'k option, 'g \<times> 'c) conf" where
  "client_start ps g c = (map (\<lambda>p. (p, None)) ps, (g, c))"

text \<open>The four kinds of actions of a client.\<close>

lemma client_step_cases:
  assumes "(l, s') \<in> set (client_step prog after entry op_step i ts (g, c))"
  obtains
    (call) p oper where "ts ! i = (p, None)" "prog i (map fst ts) c = Some (Inl oper)"
      "l = (p, Some (entry oper))" "s' = (g, c)"
  | (local) p p' c' where "ts ! i = (p, None)" "prog i (map fst ts) c = Some (Inr (p', c'))"
      "l = (p', None)" "s' = (g, c')"
  | (within) p k k' g' where "ts ! i = (p, Some k)" "(Inl k', g') \<in> set (op_step i k g)"
      "l = (p, Some k')" "s' = (g', c)"
  | (return) p k v g' where "ts ! i = (p, Some k)" "(Inr v, g') \<in> set (op_step i k g)"
      "l = (after i p v, None)" "s' = (g', c)"
proof -
  obtain p kk where ti: "ts ! i = (p, kk)" by force
  show ?thesis
  proof (cases kk)
    case None
    show ?thesis
    proof (cases "prog i (map fst ts) c")
      case None
      with assms ti \<open>kk = None\<close> show ?thesis by simp
    next
      case (Some a)
      with assms ti \<open>kk = None\<close> call local show ?thesis by (cases a) auto
    qed
  next
    case (Some k)
    with assms ti obtain r g' where r: "(r, g') \<in> set (op_step i k g)" "s' = (g', c)"
      "l = (case r of Inl k' \<Rightarrow> (p, Some k') | Inr v \<Rightarrow> (after i p v, None))" by auto
    then show ?thesis using ti Some by (cases r) (auto intro: within return)
  qed
qed

declare client_step.simps [simp del]

section \<open>Invariants of an object\<close>

text \<open>
  The law of an object: an invariant over the program counters of the calls in progress
  (\<open>None\<close> for a thread outside a call) and the object's state, which holds at the start and is
  kept by beginning a call, by every action of a call, and by its return.  It then holds
  whatever the programs are, in every reachable state.
\<close>

locale shared_object =
  fixes op_step :: "nat \<Rightarrow> 'k \<Rightarrow> 'g \<Rightarrow> (('k + 'r) \<times> 'g) list"
    and entry :: "'o \<Rightarrow> 'k"
    and object_inv :: "'k option list \<Rightarrow> 'g \<Rightarrow> bool"
    and g0 :: 'g
  assumes object_start: "list_all (\<lambda>q. q = None) qs \<Longrightarrow> object_inv qs g0"
    and object_call: "object_inv qs g \<Longrightarrow> i < length qs \<Longrightarrow> qs ! i = None
      \<Longrightarrow> object_inv (qs[i := Some (entry oper)]) g"
    and object_within: "object_inv qs g \<Longrightarrow> i < length qs \<Longrightarrow> qs ! i = Some k
      \<Longrightarrow> (Inl k', g') \<in> set (op_step i k g) \<Longrightarrow> object_inv (qs[i := Some k']) g'"
    and object_return: "object_inv qs g \<Longrightarrow> i < length qs \<Longrightarrow> qs ! i = Some k
      \<Longrightarrow> (Inr v, g') \<in> set (op_step i k g) \<Longrightarrow> object_inv (qs[i := None]) g'"
begin

lemma object_client_step:
  assumes inv: "object_inv (map snd ts) g" and i: "i < length ts"
    and st: "(l, (g', c')) \<in> set (client_step prog after entry op_step i ts (g, c))"
  shows "object_inv (map snd (ts[i := l])) g'"
  using st
proof (cases rule: client_step_cases)
  case (call p oper)
  with inv i show ?thesis
    using object_call [of "map snd ts" g i oper] by (simp add: map_update)
next
  case (local p p' c')
  then have "map snd (ts[i := l]) = map snd ts"
    using i by (metis list_update_id map_update snd_conv)
  with inv local show ?thesis by simp
next
  case (within p k k' g'')
  with inv i show ?thesis
    using object_within [of "map snd ts" g i k k' g''] by (simp add: map_update)
next
  case (return p k v g'')
  with inv i show ?thesis
    using object_return [of "map snd ts" g i k v g''] by (simp add: map_update)
qed

sublocale clients: interleaving "client_step prog after entry op_step" "client_start ps g0 c0"
  "\<lambda>c. object_inv (map snd (fst c)) (fst (snd c))" for prog after ps c0
proof unfold_locales
  show "object_inv (map snd (fst (client_start ps g0 c0))) (fst (snd (client_start ps g0 c0)))"
    by (auto simp: client_start_def list_all_iff comp_def intro!: object_start)
next
  fix ts s i l s'
  assume "object_inv (map snd (fst (ts, s))) (fst (snd (ts, s)))" "i < length ts"
    "(l, s') \<in> set (client_step prog after entry op_step i ts s)"
  then show "object_inv (map snd (fst (ts[i := l], s'))) (fst (snd (ts[i := l], s')))"
    by (cases s; cases s') (auto intro: object_client_step)
qed

lemma object_reach:
  "steps (client_step prog after entry op_step) (client_start ps g0 c0) (ts, (g, c))
    \<Longrightarrow> object_inv (map snd ts) g"
  using clients.reach_inv by fastforce

end

section \<open>Simulation of an object by an abstract one\<close>

text \<open>
  The law of a linearizable object: an abstract object with the same operations and results, and for
  every action of a call actions of the abstract call, none or some.  \<open>abs_pc\<close> tells how far the
  abstract call is, and \<open>abs_state\<close> the abstract state, which may depend on the calls in progress.
  Clients then cannot tell the two objects apart: what they do with the object, in whatever
  interleaving, they can do with the abstract one, with the same calls and the same results.
\<close>

definition call_move :: "(nat \<Rightarrow> 'k \<Rightarrow> 'g \<Rightarrow> (('k + 'r) \<times> 'g) list) \<Rightarrow> nat \<Rightarrow> 'k \<times> 'g \<Rightarrow> 'k \<times> 'g \<Rightarrow> bool" where
  "call_move op_step i kg kg' \<longleftrightarrow> (case kg of (k, g) \<Rightarrow> (Inl (fst kg'), snd kg') \<in> set (op_step i k g))"

lemma call_move_client:
  assumes "(call_move op_step i)\<^sup>*\<^sup>* (k, g) (k', g')" and "i < length ts" "ts ! i = (p, Some k)"
  shows "steps (client_step prog after entry op_step) (ts, (g, c)) (ts[i := (p, Some k')], (g', c))"
  using assms(1)
proof (induction "(k', g')" arbitrary: k' g' rule: rtranclp_induct)
  case base
  show ?case using assms(3) by (metis list_update_id rtranclp.rtrancl_refl)
next
  case (step kg)
  obtain k1 g1 where kg: "kg = (k1, g1)" by force
  let ?ts = "ts[i := (p, Some k1)]"
  have "((p, Some k'), (g', c)) \<in> set (client_step prog after entry op_step i ?ts (g1, c))"
    using step.hyps(2) kg assms(2) by (force simp: call_move_def client_step.simps)
  then have "istep (client_step prog after entry op_step) (?ts, (g1, c)) (?ts[i := (p, Some k')], (g', c))"
    using assms(2) by (intro istepI) simp_all
  then show ?case using step.hyps(3) [OF kg] by simp
qed

locale object_simulation = shared_object op_step entry object_inv g0
  for op_step :: "nat \<Rightarrow> 'k \<Rightarrow> 'g \<Rightarrow> (('k + 'r) \<times> 'g) list"
    and entry :: "'o \<Rightarrow> 'k"
    and object_inv :: "'k option list \<Rightarrow> 'g \<Rightarrow> bool"
    and g0 :: 'g +
  fixes spec_step :: "nat \<Rightarrow> 'a \<Rightarrow> 's \<Rightarrow> (('a + 'r) \<times> 's) list"
    and spec_entry :: "'o \<Rightarrow> 'a"
    and abs_pc :: "'k \<Rightarrow> 'a"
    and abs_state :: "'k option list \<Rightarrow> 'g \<Rightarrow> 's"
  assumes abs_entry: "abs_pc (entry oper) = spec_entry oper"
    and abs_call: "object_inv qs g \<Longrightarrow> i < length qs \<Longrightarrow> qs ! i = None
      \<Longrightarrow> abs_state (qs[i := Some (entry oper)]) g = abs_state qs g"
    and abs_within: "object_inv qs g \<Longrightarrow> i < length qs \<Longrightarrow> qs ! i = Some k \<Longrightarrow> (Inl k', g') \<in> set (op_step i k g)
      \<Longrightarrow> (call_move spec_step i)\<^sup>*\<^sup>* (abs_pc k, abs_state qs g) (abs_pc k', abs_state (qs[i := Some k']) g')"
    and abs_return: "object_inv qs g \<Longrightarrow> i < length qs \<Longrightarrow> qs ! i = Some k \<Longrightarrow> (Inr v, g') \<in> set (op_step i k g)
      \<Longrightarrow> \<exists>a s. (call_move spec_step i)\<^sup>*\<^sup>* (abs_pc k, abs_state qs g) (a, s)
        \<and> (Inr v, abs_state (qs[i := None]) g') \<in> set (spec_step i a s)"
begin

definition abs_conf :: "('p \<times> 'k option, 'g \<times> 'c) conf \<Rightarrow> ('p \<times> 'a option, 's \<times> 'c) conf" where
  "abs_conf conf = (case conf of (ts, (g, c)) \<Rightarrow>
     (map (apsnd (map_option abs_pc)) ts, (abs_state (map snd ts) g, c)))"

lemma simulated_step:
  assumes inv: "object_inv (map snd ts) g" and i: "i < length ts"
    and st: "(l, (g', c')) \<in> set (client_step prog after entry op_step i ts (g, c))"
  shows "steps (client_step prog after spec_entry spec_step) (abs_conf (ts, (g, c))) (abs_conf (ts[i := l], (g', c')))"
proof -
  let ?cl = "client_step prog after spec_entry spec_step"
  let ?abs = "map (apsnd (map_option abs_pc))"
  have fsts: "map fst (?abs ts) = map fst ts" by simp
  have one: "istep ?cl (?abs us, (s, c)) ((?abs us)[i := l'], (s', c'))"
    if "(l', (s', c')) \<in> set (?cl i (?abs us) (s, c))" "i < length us" for us l' s s'
    using that by (intro istepI) simp_all
  show ?thesis
    using st
  proof (cases rule: client_step_cases)
    case (call p oper)
    moreover have "istep ?cl (?abs ts, (abs_state (map snd ts) g, c)) ((?abs ts)[i := (p, Some (spec_entry oper))], (abs_state (map snd ts) g, c'))"
      using call i by (intro one) (simp_all add: client_step.simps fsts)
    ultimately show ?thesis
      using abs_call [OF inv, of i oper] i
      by (simp add: abs_conf_def map_update abs_entry r_into_rtranclp)
  next
    case (local p p' c'')
    moreover have "map snd (ts[i := (p', None)]) = map snd ts"
      using i local(1) by (metis list_update_id map_update snd_conv)
    moreover have "istep ?cl (?abs ts, (abs_state (map snd ts) g, c)) ((?abs ts)[i := (p', None)], (abs_state (map snd ts) g, c'))"
      using local i by (intro one) (simp_all add: client_step.simps fsts)
    ultimately show ?thesis by (simp add: abs_conf_def map_update r_into_rtranclp)
  next
    case (within p k k' g'')
    have "steps ?cl (?abs ts, (abs_state (map snd ts) g, c))
        ((?abs ts)[i := (p, Some (abs_pc k'))], (abs_state ((map snd ts)[i := Some k']) g', c))"
      using abs_within [OF inv, of i k k' g'] within i by (intro call_move_client) simp_all
    then show ?thesis using within by (simp add: abs_conf_def map_update)
  next
    case (return p k v g'')
    obtain a s where a: "(call_move spec_step i)\<^sup>*\<^sup>* (abs_pc k, abs_state (map snd ts) g) (a, s)"
      "(Inr v, abs_state ((map snd ts)[i := None]) g') \<in> set (spec_step i a s)"
      using abs_return [OF inv, of i k v g'] return i by auto
    have "steps ?cl (?abs ts, (abs_state (map snd ts) g, c)) ((?abs ts)[i := (p, Some a)], (s, c))"
      using a(1) return i by (intro call_move_client) simp_all
    moreover have "istep ?cl ((?abs ts)[i := (p, Some a)], (s, c))
        ((?abs ts)[i := (p, Some a), i := (after i p v, None)], (abs_state ((map snd ts)[i := None]) g', c))"
      using a(2) i by (intro istepI) (force simp: client_step.simps)+
    ultimately show ?thesis
      using return by (simp add: abs_conf_def map_update rtranclp.rtrancl_into_rtrancl)
  qed
qed

lemma simulated:
  "steps (client_step prog after entry op_step) (client_start ps g0 c0) conf
    \<Longrightarrow> steps (client_step prog after spec_entry spec_step) (abs_conf (client_start ps g0 c0)) (abs_conf conf)"
proof (induction rule: rtranclp_induct)
  case (step conf conf')
  obtain ts g c where conf: "conf = (ts, (g, c))" by (metis surj_pair)
  obtain l g' c' i where "conf' = (ts[i := l], (g', c'))" "i < length ts"
    "(l, (g', c')) \<in> set (client_step prog after entry op_step i ts (g, c))"
    using step.hyps(2) conf by (auto elim: istepE)
  then have "steps (client_step prog after spec_entry spec_step) (abs_conf conf) (abs_conf conf')"
    using simulated_step [OF object_reach [OF step.hyps(1) [unfolded conf]]] conf by simp
  with step.IH show ?case by (rule rtranclp_trans)
qed simp

end

section \<open>One call alone\<close>

text \<open>A call run by one thread while the others do nothing, as long as it has no choice and does not block.\<close>

fun run_call :: "nat \<Rightarrow> ('k \<Rightarrow> 'g \<Rightarrow> (('k + 'r) \<times> 'g) list) \<Rightarrow> 'k \<Rightarrow> 'g \<Rightarrow> ('r \<times> 'g) option" where
  "run_call 0 step k g = None"
| "run_call (Suc fuel) step k g =
     (case step k g of
        [(Inl k', g')] \<Rightarrow> run_call fuel step k' g'
      | [(Inr v, g')] \<Rightarrow> Some (v, g')
      | _ \<Rightarrow> None)"

section \<open>Concrete clients\<close>

text \<open>Clients whose state is the list of the calls that they have still to make.\<close>

definition calls_prog :: "nat \<Rightarrow> 'o list list \<Rightarrow> unit \<Rightarrow> ('o + 'o list \<times> unit) option" where
  "calls_prog i ps c = (case ps ! i of [] \<Rightarrow> None | oper # rest \<Rightarrow> Some (Inl oper))"

definition calls_after :: "nat \<Rightarrow> 'o list \<Rightarrow> 'r \<Rightarrow> 'o list" where
  "calls_after i p r = tl p"

section \<open>Condition variables\<close>

text \<open>
  A condition variable is the list of the threads that wait for it.  \<open>notify_one\<close> wakes any one
  of them, if there is one.
\<close>

definition notify_one :: "nat list \<Rightarrow> nat list list" where
  "notify_one ws = (if ws = [] then [[]] else map (\<lambda>w. removeAll w ws) ws)"

lemma length_notify_one:
  "ws' \<in> set (notify_one ws) \<Longrightarrow> distinct ws \<Longrightarrow> length ws \<le> Suc (length ws')"
  by (auto simp: notify_one_def distinct_remove1_removeAll [symmetric] length_remove1 split: if_splits)

end
