(* ===== verification/Scripts.thy ===== *)
theory Scripts
  imports Clients
begin

text \<open>
  A main thread that starts \<open>n\<close> worker threads and then waits for each of them in turn, and workers
  that each run a fixed sequence of instructions: calls of a shared object's operations, whose
  results they drop, and atomic actions on the other shared variables.  This is the shape of the
  reader/writer benchmarks, of the semaphore/mutex comparison and of the std::async benchmarks,
  where waiting is \<open>join\<close> or \<open>get\<close>.  That the runs end, and what they compute, is proved once, for
  every object and every invariant that counts the instructions performed.
\<close>

section \<open>The program\<close>

datatype ('o, 'c) instr = Call 'o | Do "'c \<Rightarrow> 'c"

datatype script_pc =
    Sh_Spawn nat | Sh_Join nat | Sh_Over
  | Sw_Unborn | Sw_At nat | Sw_Over

fun script_born :: "script_pc \<Rightarrow> nat \<Rightarrow> bool" where
  "script_born (Sh_Spawn k) i = (i \<le> k)"
| "script_born p i = True"

text \<open>Thread 0 is the main thread; worker \<open>tid\<close> is thread \<open>tid + 1\<close> and runs \<open>code tid 0\<close> up to \<open>code tid (len - 1)\<close>.\<close>

definition script_prog :: "nat \<Rightarrow> nat \<Rightarrow> (nat \<Rightarrow> nat \<Rightarrow> ('o, 'c) instr) \<Rightarrow> nat \<Rightarrow> script_pc list \<Rightarrow> 'c
  \<Rightarrow> ('o + script_pc \<times> 'c) option" where
  "script_prog n len code i ps c =
     (case ps ! i of
        Sh_Spawn k \<Rightarrow> Some (Inr (if k < n then Sh_Spawn (Suc k) else Sh_Join 0, c))
      | Sh_Join k \<Rightarrow>
          if k < n then if ps ! Suc k = Sw_Over then Some (Inr (Sh_Join (Suc k), c)) else None
          else Some (Inr (Sh_Over, c))
      | Sh_Over \<Rightarrow> None
      | Sw_Unborn \<Rightarrow> if script_born (ps ! 0) i then Some (Inr (Sw_At 0, c)) else None
      | Sw_At j \<Rightarrow>
          Some (if j < len
                then (case code (i - 1) j of Call oper \<Rightarrow> Inl oper | Do f \<Rightarrow> Inr (Sw_At (Suc j), f c))
                else Inr (Sw_Over, c))
      | Sw_Over \<Rightarrow> None)"

fun script_after :: "nat \<Rightarrow> script_pc \<Rightarrow> 'r \<Rightarrow> script_pc" where
  "script_after i (Sw_At j) r = Sw_At (Suc j)"
| "script_after i p r = p"

definition script_step :: "('o \<Rightarrow> 'k) \<Rightarrow> (nat \<Rightarrow> 'k \<Rightarrow> 'g \<Rightarrow> (('k + 'r) \<times> 'g) list) \<Rightarrow> nat \<Rightarrow> nat
  \<Rightarrow> (nat \<Rightarrow> nat \<Rightarrow> ('o, 'c) instr) \<Rightarrow> (script_pc \<times> 'k option, 'g \<times> 'c) stepper" where
  "script_step entry op_step n len code = client_step (script_prog n len code) script_after entry op_step"

definition script_start :: "nat \<Rightarrow> 'g \<Rightarrow> 'c \<Rightarrow> (script_pc \<times> 'k option, 'g \<times> 'c) conf" where
  "script_start n g c = client_start (Sh_Spawn 0 # replicate n Sw_Unborn) g c"

definition script_end :: "nat \<Rightarrow> (script_pc \<times> 'k option) list" where
  "script_end n = map (\<lambda>p. (p, None)) (Sh_Over # replicate n Sw_Over)"

text \<open>How many instructions worker \<open>tid\<close> has performed.\<close>

fun position :: "nat \<Rightarrow> script_pc \<Rightarrow> nat" where
  "position len (Sw_At j) = j"
| "position len Sw_Over = len"
| "position len p = 0"

definition positions :: "nat \<Rightarrow> nat \<Rightarrow> script_pc list \<Rightarrow> nat \<Rightarrow> nat" where
  "positions n len ps tid = (if tid < n then position len (ps ! Suc tid) else 0)"

text \<open>A sum over the workers when one of them goes on.\<close>

lemma sum_fun_upd:
  "tid < n \<Longrightarrow> (\<Sum>t < n. h t ((P(tid := x)) t)) + h tid (P tid) = (\<Sum>t < n. h t (P t)) + (h tid x :: nat)"
  for tid n :: nat
proof -
  assume "tid < n"
  then have split: "(\<Sum>t < n. f t) = f tid + (\<Sum>t \<in> {..<n} - {tid}. f t)" for f :: "nat \<Rightarrow> nat"
    by (intro sum.remove) simp_all
  have "(\<Sum>t \<in> {..<n} - {tid}. h t ((P(tid := x)) t)) = (\<Sum>t \<in> {..<n} - {tid}. h t (P t))"
    by (rule sum.cong) simp_all
  then show ?thesis using split [of "\<lambda>t. h t ((P(tid := x)) t)"] split [of "\<lambda>t. h t (P t)"] by simp
qed

section \<open>What the runs have in common\<close>

text \<open>
  \<open>counting P qs g c\<close> is the invariant of a benchmark, for workers that have performed \<open>P tid\<close>
  instructions: every instruction keeps it, and while a call is in progress some call can move.
  The steps that a call has left only depend on its program counter.
\<close>

locale scripted =
  fixes op_step :: "nat \<Rightarrow> 'k \<Rightarrow> 'g \<Rightarrow> (('k + 'r) \<times> 'g) list"
    and entry :: "'o \<Rightarrow> 'k"
    and n len :: nat
    and code :: "nat \<Rightarrow> nat \<Rightarrow> ('o, 'c) instr"
    and g0 :: 'g and c0 :: 'c
    and counting :: "(nat \<Rightarrow> nat) \<Rightarrow> 'k option list \<Rightarrow> 'g \<Rightarrow> 'c \<Rightarrow> bool"
    and left :: "'k \<Rightarrow> nat" and longest :: nat
  assumes count_start: "counting (\<lambda>_. 0) (replicate (Suc n) None) g0 c0"
    and count_call: "counting P qs g c \<Longrightarrow> length qs = Suc n \<Longrightarrow> tid < n \<Longrightarrow> qs ! Suc tid = None \<Longrightarrow> P tid < len
      \<Longrightarrow> code tid (P tid) = Call oper \<Longrightarrow> counting P (qs[Suc tid := Some (entry oper)]) g c"
    and count_do: "counting P qs g c \<Longrightarrow> length qs = Suc n \<Longrightarrow> tid < n \<Longrightarrow> qs ! Suc tid = None \<Longrightarrow> P tid < len
      \<Longrightarrow> code tid (P tid) = Do f \<Longrightarrow> counting (P(tid := Suc (P tid))) qs g (f c)"
    and count_within: "counting P qs g c \<Longrightarrow> length qs = Suc n \<Longrightarrow> tid < n \<Longrightarrow> qs ! Suc tid = Some k \<Longrightarrow> P tid < len
      \<Longrightarrow> code tid (P tid) = Call oper \<Longrightarrow> (Inl k', g') \<in> set (op_step (Suc tid) k g) \<Longrightarrow> counting P (qs[Suc tid := Some k']) g' c"
    and count_return: "counting P qs g c \<Longrightarrow> length qs = Suc n \<Longrightarrow> tid < n \<Longrightarrow> qs ! Suc tid = Some k \<Longrightarrow> P tid < len
      \<Longrightarrow> code tid (P tid) = Call oper \<Longrightarrow> (Inr v, g') \<in> set (op_step (Suc tid) k g) \<Longrightarrow> counting (P(tid := Suc (P tid))) (qs[Suc tid := None]) g' c"
    and count_progress: "counting P qs g c \<Longrightarrow> length qs = Suc n \<Longrightarrow> i < length qs \<Longrightarrow> qs ! i \<noteq> None
      \<Longrightarrow> \<exists>j k. j < length qs \<and> qs ! j = Some k \<and> op_step j k g \<noteq> []"
    and left_entry: "left (entry oper) < longest"
    and left_within: "(Inl k', g') \<in> set (op_step i k g) \<Longrightarrow> left k' < left k"
begin

fun script_ok :: "nat \<Rightarrow> script_pc \<times> 'k option \<Rightarrow> bool" where
  "script_ok i (Sh_Spawn k, q) = (i = 0 \<and> q = None \<and> k \<le> n)"
| "script_ok i (Sh_Join k, q) = (i = 0 \<and> q = None \<and> k \<le> n)"
| "script_ok i (Sh_Over, q) = (i = 0 \<and> q = None)"
| "script_ok i (Sw_Unborn, q) = (0 < i \<and> q = None)"
| "script_ok i (Sw_At j, q) = (0 < i \<and> (if q = None then j \<le> len else j < len \<and> (\<exists>oper. code (i - 1) j = Call oper)))"
| "script_ok i (Sw_Over, q) = (0 < i \<and> q = None)"

fun script_joined :: "script_pc \<Rightarrow> nat" where
  "script_joined (Sh_Join k) = k"
| "script_joined Sh_Over = n"
| "script_joined p = 0"

definition script_inv :: "(script_pc \<times> 'k option, 'g \<times> 'c) conf \<Rightarrow> bool" where
  "script_inv conf = (case conf of (ts, (g, c)) \<Rightarrow>
     length ts = Suc n \<and> (\<forall>i < length ts. script_ok i (ts ! i)) \<and>
     (\<forall>j < script_joined (fst (ts ! 0)). fst (ts ! Suc j) = Sw_Over) \<and>
     counting (positions n len (map fst ts)) (map snd ts) g c)"

fun script_rank1 :: "script_pc \<times> 'k option \<Rightarrow> nat" where
  "script_rank1 (Sh_Spawn k, q) = (n - k) + n + 2"
| "script_rank1 (Sh_Join k, q) = (n - k) + 1"
| "script_rank1 (Sh_Over, q) = 0"
| "script_rank1 (Sw_Unborn, q) = len * Suc longest + 2"
| "script_rank1 (Sw_At j, q) = (case q of None \<Rightarrow> (len - j) * Suc longest + 1
    | Some k \<Rightarrow> (len - Suc j) * Suc longest + 2 + left k)"
| "script_rank1 (Sw_Over, q) = 0"

lemma script_start_inv: "script_inv (script_start n g0 c0)"
proof -
  let ?ps = "Sh_Spawn 0 # replicate n Sw_Unborn"
  have "positions n len (map fst (map (\<lambda>p. (p, None)) ?ps :: (script_pc \<times> 'k option) list)) = (\<lambda>_. 0)"
    by (auto simp: positions_def fun_eq_iff)
  moreover have "map snd (map (\<lambda>p. (p, None)) ?ps :: (script_pc \<times> 'k option) list) = replicate (Suc n) None"
    by simp
  moreover have "script_ok i (map (\<lambda>p. (p, None)) ?ps ! i)" if "i < Suc n" for i
    using that by (cases i) simp_all
  ultimately show ?thesis
    using count_start by (simp add: script_inv_def script_start_def client_start_def comp_def)
qed

lemma positions_same:
  "i < length ts \<Longrightarrow> position len (fst l) = position len (fst (ts ! i))
    \<Longrightarrow> positions n len (map fst (ts[i := l])) = positions n len (map fst ts)"
  by (cases "i < length ts") (auto simp: positions_def fun_eq_iff map_update nth_list_update)

lemma positions_next:
  "length ts = Suc n \<Longrightarrow> tid < n \<Longrightarrow> position len (fst l) = Suc (position len (fst (ts ! Suc tid)))
    \<Longrightarrow> positions n len (map fst (ts[Suc tid := l]))
      = (positions n len (map fst ts))(tid := Suc (positions n len (map fst ts) tid))"
  by (auto simp: positions_def fun_eq_iff map_update nth_list_update)

lemma script_keeps:
  assumes inv: "script_inv (ts, (g, c))" and i: "i < length ts"
    and st: "(l, (g', c')) \<in> set (script_step entry op_step n len code i ts (g, c))"
  shows "script_inv (ts[i := l], (g', c'))"
proof -
  let ?P = "positions n len (map fst ts)" and ?ts = "ts[i := l]"
  have lens: "length ts = Suc n" and ok: "\<And>j. j < length ts \<Longrightarrow> script_ok j (ts ! j)"
    and joined: "\<forall>j < script_joined (fst (ts ! 0)). fst (ts ! Suc j) = Sw_Over"
    and count: "counting ?P (map snd ts) g c"
    using inv by (simp_all add: script_inv_def)
  have first: "map fst ts ! 0 = fst (ts ! 0)" and at_i: "map fst ts ! i = fst (ts ! i)"
    and others: "\<And>k. k < n \<Longrightarrow> map fst ts ! Suc k = fst (ts ! Suc k)"
    using lens i by (auto intro!: nth_map)
  have pos: "?P tid = position len (fst (ts ! Suc tid))" if "tid < n" for tid
    using that lens by (simp add: positions_def)
  have same: "map snd ?ts = map snd ts" if "snd l = snd (ts ! i)"
    using that i by (simp add: map_update list_update_same_conv)
  have "script_ok i l \<and> counting (positions n len (map fst ?ts)) (map snd ?ts) g' c'
    \<and> (\<forall>j < script_joined (fst l). i = 0 \<longrightarrow> fst (ts ! Suc j) = Sw_Over) \<and> fst (ts ! i) \<noteq> Sw_Over"
    using st unfolding script_step_def
  proof (cases rule: client_step_cases)
    case (call p oper)
    then obtain j where j: "p = Sw_At j" "j < len" "code (i - 1) j = Call oper"
      using at_i by (cases p) (auto simp: script_prog_def split: if_splits instr.splits)
    obtain tid where tid: "i = Suc tid" "tid < n" using ok [OF i] call j i lens by (cases i) auto
    have "positions n len (map fst ?ts) = ?P" using call i by (intro positions_same) simp_all
    then show ?thesis
      using count_call [OF count _ tid(2), of oper] pos [OF tid(2)] call j tid lens by (simp add: map_update)
  next
    case (local p p' c'')
    note p = ok [OF i, unfolded local(1)]
    show ?thesis
    proof (cases "\<exists>j. p = Sw_At j \<and> j < len")
      case True
      then obtain j f where j: "p = Sw_At j" "j < len" "code (i - 1) j = Do f" "p' = Sw_At (Suc j)" "c'' = f c"
        using local at_i by (auto simp: script_prog_def split: instr.splits)
      obtain tid where tid: "i = Suc tid" "tid < n" using p j i lens by (cases i) auto
      have "positions n len (map fst ?ts) = ?P(tid := Suc (?P tid))"
        using local j tid lens unfolding tid(1) by (intro positions_next) simp_all
      then show ?thesis
        using count_do [OF count _ tid(2), of f] pos [OF tid(2)] local j tid lens same by simp
    next
      case False
      then have *: "script_ok i (p', None)" "position len p' = position len p" "c'' = c" "p \<noteq> Sw_Over"
        "\<forall>j < script_joined p'. i = 0 \<longrightarrow> fst (ts ! Suc j) = Sw_Over"
        using local(2) p at_i joined local(1) others
        by (cases p; auto simp: script_prog_def less_Suc_eq split: if_splits)+
      moreover have "positions n len (map fst ?ts) = ?P" using * local i by (intro positions_same) simp_all
      ultimately show ?thesis using local count same by simp
    qed
  next
    case (within p k k' g'')
    then obtain j oper where j: "p = Sw_At j" "j < len" "code (i - 1) j = Call oper" using ok [OF i] by (cases p) auto
    obtain tid where tid: "i = Suc tid" "tid < n" using ok [OF i] within j i lens by (cases i) auto
    have "positions n len (map fst ?ts) = ?P" using within i by (intro positions_same) simp_all
    then show ?thesis
      using count_within [OF count _ tid(2), of k oper k' g''] pos [OF tid(2)] ok [OF i] within j tid lens
      by (simp add: map_update)
  next
    case (return p k v g'')
    then obtain j oper where j: "p = Sw_At j" "j < len" "code (i - 1) j = Call oper" using ok [OF i] by (cases p) auto
    obtain tid where tid: "i = Suc tid" "tid < n" using ok [OF i] return j i lens by (cases i) auto
    have "positions n len (map fst ?ts) = ?P(tid := Suc (?P tid))"
      using return j tid lens unfolding tid(1) by (intro positions_next) simp_all
    then show ?thesis
      using count_return [OF count _ tid(2), of k oper v g''] pos [OF tid(2)] return j tid lens by (simp add: map_update)
  qed
  then show ?thesis
    using lens ok joined i by (auto simp: script_inv_def nth_list_update)
qed

lemma script_reach:
  "steps (script_step entry op_step n len code) (script_start n g0 c0) (ts, (g, c))
    \<Longrightarrow> counting (positions n len (map fst ts)) (map snd ts) g c"
proof -
  assume "steps (script_step entry op_step n len code) (script_start n g0 c0) (ts, (g, c))"
  then have "script_inv (ts, (g, c))"
    by (rule interleaving.reach_inv [rotated]) (unfold_locales, use script_start_inv script_keeps in auto)
  then show ?thesis by (simp add: script_inv_def)
qed

lemma script_stuck:
  assumes inv: "script_inv (ts, (g, c))"
    and stuck: "\<And>i. i < length ts \<Longrightarrow> script_step entry op_step n len code i ts (g, c) = []"
  shows "ts = script_end n"
proof -
  have lens: "length ts = Suc n" and ok: "\<And>j. j < length ts \<Longrightarrow> script_ok j (ts ! j)"
    and count: "counting (positions n len (map fst ts)) (map snd ts) g c"
    using inv by (simp_all add: script_inv_def)
  have idle: "snd (ts ! i) = None" if "i < length ts" for i
  proof (rule ccontr)
    assume "snd (ts ! i) \<noteq> None"
    then have "map snd ts ! i \<noteq> None" "i < length (map snd ts)" using that by simp_all
    then have "\<exists>j k. j < length (map snd ts) \<and> map snd ts ! j = Some k \<and> op_step j k g \<noteq> []"
      by (intro count_progress [OF count]) (simp_all only: length_map lens)
    then obtain j k where j: "j < length ts" "map snd ts ! j = Some k" "op_step j k g \<noteq> []"
      unfolding length_map by blast
    then have "snd (ts ! j) = Some k" by simp
    then show False using j(1,3) using stuck [of j] by (cases "ts ! j") (simp add: script_step_def client_step.simps)
  qed
  have none: "script_prog n len code i (map fst ts) c = None" if "i < length ts" for i
    using stuck [OF that] idle [OF that]
    by (cases "ts ! i") (auto simp: script_step_def client_step.simps split: option.splits sum.splits)
  have pc: "map fst ts ! i = fst (ts ! i)" if "i < length ts" for i using that by simp
  have started: "script_born (fst (ts ! 0)) i" for i
    using none [of 0] pc [of 0] lens by (cases "fst (ts ! 0)") (auto simp: script_prog_def)
  have worker: "ts ! Suc tid = (Sw_Over, None)" if "tid < n" for tid
  proof -
    have i: "Suc tid < length ts" using that lens by simp
    have "fst (ts ! Suc tid) = Sw_Over"
      using none [OF i] pc [OF i] pc [of 0] ok [OF i] started lens
      by (cases "ts ! Suc tid"; cases "fst (ts ! Suc tid)") (auto simp: script_prog_def split: if_splits instr.splits)
    then show ?thesis using idle [OF i] by (simp add: prod_eq_iff)
  qed
  have "map fst ts ! Suc k = Sw_Over" if "k < n" for k
    using pc [of "Suc k"] worker [OF that] that lens by simp
  then have "fst (ts ! 0) = Sh_Over"
    using none [of 0] pc [of 0] ok [of 0] lens
    by (cases "ts ! 0"; cases "fst (ts ! 0)") (auto simp: script_prog_def split: if_splits)
  then have "ts ! 0 = (Sh_Over, None)" using idle [of 0] lens by (simp add: prod_eq_iff)
  then show ?thesis
    using worker lens by (auto simp: script_end_def nth_Cons' gr0_conv_Suc intro!: nth_equalityI)
qed

lemma Suc_diff_mult: "j < len \<Longrightarrow> (len - j) * m = m + (len - Suc j) * m" for j m :: nat
  by (metis Suc_diff_Suc mult_Suc)

lemma script_decrease:
  assumes inv: "script_inv (ts, (g, c))" and i: "i < length ts"
    and st: "(l, (g', c')) \<in> set (script_step entry op_step n len code i ts (g, c))"
  shows "tsum script_rank1 (ts[i := l]) < tsum script_rank1 ts"
proof -
  have ok: "script_ok i (ts ! i)" using inv i by (simp add: script_inv_def)
  have at_i: "map fst ts ! i = fst (ts ! i)" using i by simp
  have "script_rank1 l < script_rank1 (ts ! i)"
    using st unfolding script_step_def
  proof (cases rule: client_step_cases)
    case (call p oper)
    then obtain j where "p = Sw_At j" "j < len"
      using at_i by (cases p) (auto simp: script_prog_def split: if_splits instr.splits)
    then show ?thesis using call left_entry [of oper] Suc_diff_mult [of j "Suc longest"] by simp
  next
    case (local p p' c'')
    then show ?thesis
      using at_i ok Suc_diff_mult [of _ "Suc longest"]
      by (cases p) (auto simp: script_prog_def split: if_splits instr.splits)
  next
    case (within p k k' g'')
    then show ?thesis using left_within [OF within(2)] ok by (cases p) (simp_all del: mult_Suc_right)
  next
    case (return p k v g'')
    then show ?thesis using ok by (cases p) simp_all
  qed
  then show ?thesis using tsum_update [OF i, of script_rank1 l] by simp
qed

lemma script_finishes:
  "finishes (script_step entry op_step n len code) (script_start n g0 c0)
    (\<lambda>(ts, (g, c)). ts = script_end n \<and> counting (\<lambda>tid. if tid < n then len else 0) (replicate (Suc n) None) g c)
    (n * (len * Suc longest + 4) + 2)"
proof (rule live_interleaving.always_finishes)
  have at_end: "counting (\<lambda>tid. if tid < n then len else 0) (replicate (Suc n) None) g c"
    if "script_inv (ts, (g, c))" "ts = script_end n" for ts g c
  proof -
    have "positions n len (map fst (script_end n :: (script_pc \<times> 'k option) list)) = (\<lambda>tid. if tid < n then len else 0)"
      by (auto simp: positions_def script_end_def fun_eq_iff)
    moreover have "map snd (script_end n :: (script_pc \<times> 'k option) list) = replicate (Suc n) None"
      by (simp add: script_end_def)
    ultimately show ?thesis using that by (simp add: script_inv_def)
  qed
  show "live_interleaving (script_step entry op_step n len code) (script_start n g0 c0) script_inv
      (\<lambda>(ts, (g, c)). ts = script_end n \<and> counting (\<lambda>tid. if tid < n then len else 0) (replicate (Suc n) None) g c)
      (\<lambda>(ts, s). tsum script_rank1 ts)"
  proof (rule live_by_rank)
    show "script_inv (script_start n g0 c0)" by (rule script_start_inv)
    fix ts g c
    assume inv: "script_inv (ts, (g, c))"
    assume "\<And>i. i < length ts \<Longrightarrow> script_step entry op_step n len code i ts (g, c) = []"
    from script_stuck [OF inv this] at_end [OF inv]
    show "case (ts, (g, c)) of (ts, (g, c)) \<Rightarrow>
        ts = script_end n \<and> counting (\<lambda>tid. if tid < n then len else 0) (replicate (Suc n) None) g c" by simp
  qed (use script_keeps script_decrease in \<open>simp_all only: prod.case\<close>)
qed (simp add: script_start_def client_start_def algebra_simps)

end

end
