(* ===== verification/Semaphore_Queue.thy ===== *)
theory Semaphore_Queue
  imports Clients
begin

text \<open>
  The bounded queue \<open>SemaphoreQueue<T>\<close> of include/semaphore\_queue.hpp: a \<open>std::queue\<close> under a
  mutex, two counting semaphores and two atomic flags.  Every access to one of these is an
  atomic step of its own, in the order of the source; the atomic flags are sequentially
  consistent.  The two logs are history variables: what \<open>queue_.push\<close> and \<open>queue_.pop\<close> have
  moved, in order; no operation reads them.
\<close>

section \<open>The state\<close>

record 'a sem_queue =
  mtx :: bool
  items :: "'a list"
  empty_slots :: nat
  filled_slots :: nat
  max_size :: nat
  closed_flag :: bool
  shutdown_flag :: bool
  log_in :: "'a list"
  log_out :: "'a list"

definition sem_queue_ctor :: "nat \<Rightarrow> 'a sem_queue" where
  "sem_queue_ctor n = \<lparr>mtx = False, items = [], empty_slots = n, filled_slots = 0, max_size = n,
     closed_flag = False, shutdown_flag = False, log_in = [], log_out = []\<rparr>"

text \<open>\<open>acquire\<close> and \<open>lock\<close> have no outcome while they block.\<close>

definition acquire_empty :: "'a sem_queue \<Rightarrow> 'a sem_queue list" where
  "acquire_empty q = (if empty_slots q = 0 then [] else [q\<lparr>empty_slots := empty_slots q - 1\<rparr>])"

definition release_empty :: "'a sem_queue \<Rightarrow> 'a sem_queue" where
  "release_empty q = q\<lparr>empty_slots := empty_slots q + 1\<rparr>"

definition acquire_filled :: "'a sem_queue \<Rightarrow> 'a sem_queue list" where
  "acquire_filled q = (if filled_slots q = 0 then [] else [q\<lparr>filled_slots := filled_slots q - 1\<rparr>])"

definition release_filled :: "'a sem_queue \<Rightarrow> 'a sem_queue" where
  "release_filled q = q\<lparr>filled_slots := filled_slots q + 1\<rparr>"

definition lock_queue :: "'a sem_queue \<Rightarrow> 'a sem_queue list" where
  "lock_queue q = (if mtx q then [] else [q\<lparr>mtx := True\<rparr>])"

definition unlock_queue :: "'a sem_queue \<Rightarrow> 'a sem_queue" where
  "unlock_queue q = q\<lparr>mtx := False\<rparr>"

definition push_item :: "'a \<Rightarrow> 'a sem_queue \<Rightarrow> 'a sem_queue" where
  "push_item x q = q\<lparr>items := items q @ [x], log_in := log_in q @ [x]\<rparr>"

definition pop_front :: "'a sem_queue \<Rightarrow> 'a sem_queue" where
  "pop_front q = q\<lparr>items := tl (items q), log_out := log_out q @ [hd (items q)]\<rparr>"

section \<open>The operations\<close>

text \<open>The program counters of \<open>push\<close>, \<open>pop\<close>, \<open>close\<close> and \<open>shutdown\<close>, and the observers.\<close>

datatype 'a push_pc =
    Push_Shut1 'a | Push_Closed1 'a | Push_Acquire 'a | Push_Shut2 'a | Push_Closed2 'a
  | Push_Back | Push_Lock 'a | Push_Shut3 'a | Push_Closed3 'a | Push_Abort | Push_Abort_Unlock
  | Push_Enqueue 'a | Push_Unlock | Push_Release

datatype 'a pop_pc =
    Pop_Lock1 | Pop_Empty1 | Pop_Shut1 | Pop_Closed1 | Pop_Drained | Pop_Unlock1 | Pop_Acquire
  | Pop_Lock2 | Pop_Empty2 | Pop_Take | Pop_Give 'a | Pop_Unlock_Taken 'a | Pop_Unlock2
  | Pop_Shut2 | Pop_Closed2 | Pop_Back

datatype close_pc =
    Close_Store | Close_Wake nat
  | Shut_Store | Shut_Close | Shut_Wake_Consumers nat | Shut_Wake_Producers nat

datatype look_pc =
    Size_Lock | Size_Read | Size_Unlock nat | Load_Shut | Load_Closed

fun push_step :: "'a push_pc \<Rightarrow> 'a sem_queue \<Rightarrow> (('a push_pc + bool) \<times> 'a sem_queue) list" where
  "push_step (Push_Shut1 x) q = [(if shutdown_flag q then Inr False else Inl (Push_Closed1 x), q)]"
| "push_step (Push_Closed1 x) q = [(if closed_flag q then Inr False else Inl (Push_Acquire x), q)]"
| "push_step (Push_Acquire x) q = map (\<lambda>q'. (Inl (Push_Shut2 x), q')) (acquire_empty q)"
| "push_step (Push_Shut2 x) q = [(Inl (if shutdown_flag q then Push_Back else Push_Closed2 x), q)]"
| "push_step (Push_Closed2 x) q = [(Inl (if closed_flag q then Push_Back else Push_Lock x), q)]"
| "push_step Push_Back q = [(Inr False, release_empty q)]"
| "push_step (Push_Lock x) q = map (\<lambda>q'. (Inl (Push_Shut3 x), q')) (lock_queue q)"
| "push_step (Push_Shut3 x) q = [(Inl (if shutdown_flag q then Push_Abort else Push_Closed3 x), q)]"
| "push_step (Push_Closed3 x) q = [(Inl (if closed_flag q then Push_Abort else Push_Enqueue x), q)]"
| "push_step Push_Abort q = [(Inl Push_Abort_Unlock, release_empty q)]"
| "push_step Push_Abort_Unlock q = [(Inr False, unlock_queue q)]"
| "push_step (Push_Enqueue x) q = [(Inl Push_Unlock, push_item x q)]"
| "push_step Push_Unlock q = [(Inl Push_Release, unlock_queue q)]"
| "push_step Push_Release q = [(Inr True, release_filled q)]"

text \<open>The result of \<open>pop\<close> is \<open>Some\<close> item for \<open>true\<close> and \<open>None\<close> for \<open>false\<close>.\<close>

fun pop_step :: "'a pop_pc \<Rightarrow> 'a sem_queue \<Rightarrow> (('a pop_pc + 'a option) \<times> 'a sem_queue) list" where
  "pop_step Pop_Lock1 q = map (\<lambda>q'. (Inl Pop_Empty1, q')) (lock_queue q)"
| "pop_step Pop_Empty1 q = [(Inl (if items q = [] then Pop_Shut1 else Pop_Unlock1), q)]"
| "pop_step Pop_Shut1 q = [(Inl (if shutdown_flag q then Pop_Drained else Pop_Closed1), q)]"
| "pop_step Pop_Closed1 q = [(Inl (if closed_flag q then Pop_Drained else Pop_Unlock1), q)]"
| "pop_step Pop_Drained q = [(Inr None, unlock_queue q)]"
| "pop_step Pop_Unlock1 q = [(Inl Pop_Acquire, unlock_queue q)]"
| "pop_step Pop_Acquire q = map (\<lambda>q'. (Inl Pop_Lock2, q')) (acquire_filled q)"
| "pop_step Pop_Lock2 q = map (\<lambda>q'. (Inl Pop_Empty2, q')) (lock_queue q)"
| "pop_step Pop_Empty2 q = [(Inl (if items q \<noteq> [] then Pop_Take else Pop_Unlock2), q)]"
| "pop_step Pop_Take q = [(Inl (Pop_Give (hd (items q))), pop_front q)]"
| "pop_step (Pop_Give x) q = [(Inl (Pop_Unlock_Taken x), release_empty q)]"
| "pop_step (Pop_Unlock_Taken x) q = [(Inr (Some x), unlock_queue q)]"
| "pop_step Pop_Unlock2 q = [(Inl Pop_Shut2, unlock_queue q)]"
| "pop_step Pop_Shut2 q = [(Inl (if shutdown_flag q then Pop_Back else Pop_Closed2), q)]"
| "pop_step Pop_Closed2 q = [(Inl (if closed_flag q then Pop_Back else Pop_Lock1), q)]"
| "pop_step Pop_Back q = [(Inr None, release_filled q)]"

text \<open>
  \<open>wake_consumers\<close> and \<open>wake_producers\<close> release \<open>max_size + 1\<close> permits, one per step; the
  argument of the program counter is the number left.
\<close>

fun close_step :: "close_pc \<Rightarrow> 'a sem_queue \<Rightarrow> ((close_pc + unit) \<times> 'a sem_queue) list" where
  "close_step Close_Store q = [(Inl (Close_Wake (max_size q + 1)), q\<lparr>closed_flag := True\<rparr>)]"
| "close_step (Close_Wake 0) q = [(Inr (), q)]"
| "close_step (Close_Wake (Suc n)) q = [(Inl (Close_Wake n), release_filled q)]"
| "close_step Shut_Store q = [(Inl Shut_Close, q\<lparr>shutdown_flag := True\<rparr>)]"
| "close_step Shut_Close q = [(Inl (Shut_Wake_Consumers (max_size q + 1)), q\<lparr>closed_flag := True\<rparr>)]"
| "close_step (Shut_Wake_Consumers 0) q = [(Inl (Shut_Wake_Producers (max_size q + 1)), q)]"
| "close_step (Shut_Wake_Consumers (Suc n)) q = [(Inl (Shut_Wake_Consumers n), release_filled q)]"
| "close_step (Shut_Wake_Producers 0) q = [(Inr (), q)]"
| "close_step (Shut_Wake_Producers (Suc n)) q = [(Inl (Shut_Wake_Producers n), release_empty q)]"

fun look_step :: "look_pc \<Rightarrow> 'a sem_queue \<Rightarrow> ((look_pc + nat) \<times> 'a sem_queue) list" where
  "look_step Size_Lock q = map (\<lambda>q'. (Inl Size_Read, q')) (lock_queue q)"
| "look_step Size_Read q = [(Inl (Size_Unlock (length (items q))), q)]"
| "look_step (Size_Unlock n) q = [(Inr n, unlock_queue q)]"
| "look_step Load_Shut q = [(Inr (of_bool (shutdown_flag q)), q)]"
| "look_step Load_Closed q = [(Inr (of_bool (closed_flag q)), q)]"

text \<open>The object: any operation, its entry and its result.\<close>

datatype 'a queue_op = Push 'a | Pop | Close | Shutdown | Size | Is_Shutdown | Is_Closed

datatype 'a queue_pc = In_Push "'a push_pc" | In_Pop "'a pop_pc" | In_Close close_pc | In_Look look_pc

datatype 'a queue_ret = Pushed bool | Popped "'a option" | Void | Observed nat

fun queue_entry :: "'a queue_op \<Rightarrow> 'a queue_pc" where
  "queue_entry (Push x) = In_Push (Push_Shut1 x)"
| "queue_entry Pop = In_Pop Pop_Lock1"
| "queue_entry Close = In_Close Close_Store"
| "queue_entry Shutdown = In_Close Shut_Store"
| "queue_entry Size = In_Look Size_Lock"
| "queue_entry Is_Shutdown = In_Look Load_Shut"
| "queue_entry Is_Closed = In_Look Load_Closed"

fun queue_step :: "nat \<Rightarrow> 'a queue_pc \<Rightarrow> 'a sem_queue
  \<Rightarrow> (('a queue_pc + 'a queue_ret) \<times> 'a sem_queue) list" where
  "queue_step i (In_Push k) q = map (\<lambda>(r, q'). (map_sum In_Push Pushed r, q')) (push_step k q)"
| "queue_step i (In_Pop k) q = map (\<lambda>(r, q'). (map_sum In_Pop Popped r, q')) (pop_step k q)"
| "queue_step i (In_Close k) q = map (\<lambda>(r, q'). (map_sum In_Close (\<lambda>_. Void) r, q')) (close_step k q)"
| "queue_step i (In_Look k) q = map (\<lambda>(r, q'). (map_sum In_Look Observed r, q')) (look_step k q)"

section \<open>What the program counters hold\<close>

text \<open>The mutex.\<close>

fun holds_mtx :: "'a queue_pc \<Rightarrow> nat" where
  "holds_mtx (In_Push k) = (case k of Push_Shut3 x \<Rightarrow> 1 | Push_Closed3 x \<Rightarrow> 1 | Push_Abort \<Rightarrow> 1
     | Push_Abort_Unlock \<Rightarrow> 1 | Push_Enqueue x \<Rightarrow> 1 | Push_Unlock \<Rightarrow> 1 | _ \<Rightarrow> 0)"
| "holds_mtx (In_Pop k) = (case k of Pop_Empty1 \<Rightarrow> 1 | Pop_Shut1 \<Rightarrow> 1 | Pop_Closed1 \<Rightarrow> 1
     | Pop_Drained \<Rightarrow> 1 | Pop_Unlock1 \<Rightarrow> 1 | Pop_Empty2 \<Rightarrow> 1 | Pop_Take \<Rightarrow> 1 | Pop_Give x \<Rightarrow> 1
     | Pop_Unlock_Taken x \<Rightarrow> 1 | Pop_Unlock2 \<Rightarrow> 1 | _ \<Rightarrow> 0)"
| "holds_mtx (In_Close k) = 0"
| "holds_mtx (In_Look k) = (case k of Size_Read \<Rightarrow> 1 | Size_Unlock n \<Rightarrow> 1 | _ \<Rightarrow> 0)"

text \<open>A permit for an empty slot: acquired for a push, or owed to the semaphore by a pop.\<close>

fun holds_empty :: "'a queue_pc \<Rightarrow> nat" where
  "holds_empty (In_Push k) = (case k of Push_Shut2 x \<Rightarrow> 1 | Push_Closed2 x \<Rightarrow> 1 | Push_Back \<Rightarrow> 1
     | Push_Lock x \<Rightarrow> 1 | Push_Shut3 x \<Rightarrow> 1 | Push_Closed3 x \<Rightarrow> 1 | Push_Abort \<Rightarrow> 1
     | Push_Enqueue x \<Rightarrow> 1 | _ \<Rightarrow> 0)"
| "holds_empty (In_Pop k) = (case k of Pop_Give x \<Rightarrow> 1 | _ \<Rightarrow> 0)"
| "holds_empty _ = 0"

text \<open>A permit for a filled slot: owed by a push, or acquired by a pop.\<close>

fun holds_filled :: "'a queue_pc \<Rightarrow> nat" where
  "holds_filled (In_Push k) = (case k of Push_Unlock \<Rightarrow> 1 | Push_Release \<Rightarrow> 1 | _ \<Rightarrow> 0)"
| "holds_filled (In_Pop k) = (case k of Pop_Lock2 \<Rightarrow> 1 | Pop_Empty2 \<Rightarrow> 1 | Pop_Take \<Rightarrow> 1
     | Pop_Unlock2 \<Rightarrow> 1 | Pop_Shut2 \<Rightarrow> 1 | Pop_Closed2 \<Rightarrow> 1 | Pop_Back \<Rightarrow> 1 | _ \<Rightarrow> 0)"
| "holds_filled _ = 0"

text \<open>A push that has passed its last test of the shutdown flag: it may still enqueue.\<close>

fun committed :: "'a queue_pc \<Rightarrow> nat" where
  "committed (In_Push k) = (case k of Push_Closed3 x \<Rightarrow> 1 | Push_Enqueue x \<Rightarrow> 1 | _ \<Rightarrow> 0)"
| "committed _ = 0"

text \<open>Wake-up permits still to be released by \<open>close\<close> and \<open>shutdown\<close>.\<close>

fun wakes_consumers :: "'a queue_pc \<Rightarrow> nat" where
  "wakes_consumers (In_Close k) =
     (case k of Close_Wake n \<Rightarrow> n | Shut_Wake_Consumers n \<Rightarrow> n | _ \<Rightarrow> 0)"
| "wakes_consumers _ = 0"

fun wakes_producers :: "nat \<Rightarrow> 'a queue_pc \<Rightarrow> nat" where
  "wakes_producers m (In_Close k) =
     (case k of Shut_Close \<Rightarrow> m + 1 | Shut_Wake_Consumers n \<Rightarrow> m + 1 | Shut_Wake_Producers n \<Rightarrow> n
      | _ \<Rightarrow> 0)"
| "wakes_producers m _ = 0"

text \<open>What a thread knows at its program counter.\<close>

fun queue_assert :: "'a sem_queue \<Rightarrow> 'a queue_pc \<Rightarrow> bool" where
  "queue_assert q (In_Push k) = (case k of Push_Back \<Rightarrow> closed_flag q \<or> shutdown_flag q
     | Push_Abort \<Rightarrow> closed_flag q \<or> shutdown_flag q | Push_Abort_Unlock \<Rightarrow> closed_flag q \<or> shutdown_flag q | _ \<Rightarrow> True)"
| "queue_assert q (In_Pop k) = (case k of Pop_Shut1 \<Rightarrow> items q = [] | Pop_Closed1 \<Rightarrow> items q = []
     | Pop_Drained \<Rightarrow> items q = [] \<and> (closed_flag q \<or> shutdown_flag q) | Pop_Take \<Rightarrow> items q \<noteq> []
     | Pop_Unlock2 \<Rightarrow> items q = [] \<and> closed_flag q | Pop_Shut2 \<Rightarrow> closed_flag q | Pop_Closed2 \<Rightarrow> closed_flag q
     | Pop_Back \<Rightarrow> closed_flag q | _ \<Rightarrow> True)"
| "queue_assert q (In_Close k) = (case k of Close_Wake n \<Rightarrow> closed_flag q | Shut_Close \<Rightarrow> shutdown_flag q
     | Shut_Wake_Consumers n \<Rightarrow> closed_flag q \<and> shutdown_flag q
     | Shut_Wake_Producers n \<Rightarrow> closed_flag q \<and> shutdown_flag q | _ \<Rightarrow> True)"
| "queue_assert q (In_Look k) = (case k of Size_Unlock n \<Rightarrow> n = length (items q) | _ \<Rightarrow> True)"

abbreviation over :: "('a queue_pc \<Rightarrow> nat) \<Rightarrow> 'a queue_pc option \<Rightarrow> nat" where
  "over w \<equiv> case_option 0 w"

text \<open>
  The invariant: the mutex is held by one call; slots are conserved until a shutdown releases
  more, and every item fits; filled permits are conserved until a close releases more, and a
  close or shutdown leaves more than it needs; the queue is what was pushed less what was popped.
\<close>

definition queue_counts :: "nat \<Rightarrow> nat \<Rightarrow> nat \<Rightarrow> nat \<Rightarrow> nat \<Rightarrow> nat \<Rightarrow> 'a sem_queue \<Rightarrow> bool" where
  "queue_counts m e f c wc wp q \<longleftrightarrow>
     m = of_bool (mtx q) \<and>
     max_size q \<le> empty_slots q + length (items q) + e \<and>
     (\<not> shutdown_flag q \<longrightarrow> empty_slots q + length (items q) + e = max_size q) \<and>
     length (items q) + c \<le> max_size q \<and>
     length (items q) \<le> filled_slots q + f \<and>
     (\<not> closed_flag q \<longrightarrow> filled_slots q + f = length (items q)) \<and>
     (closed_flag q \<longrightarrow> length (items q) + max_size q + 1 \<le> filled_slots q + f + wc) \<and>
     (shutdown_flag q \<longrightarrow> max_size q + max_size q + 1 \<le> empty_slots q + length (items q) + e + wp)"

definition queue_inv :: "'a queue_pc option list \<Rightarrow> 'a sem_queue \<Rightarrow> bool" where
  "queue_inv qs q \<longleftrightarrow>
     queue_counts (tsum (over holds_mtx) qs) (tsum (over holds_empty) qs)
       (tsum (over holds_filled) qs) (tsum (over committed) qs)
       (tsum (over wakes_consumers) qs) (tsum (over (wakes_producers (max_size q))) qs) q \<and>
     tsum (over committed) qs \<le> tsum (over holds_empty) qs \<and>
     log_in q = log_out q @ items q \<and>
     list_all (case_option True (queue_assert q)) qs"

section \<open>Every step keeps the invariant\<close>

lemmas queue_access = acquire_empty_def release_empty_def acquire_filled_def release_filled_def
  lock_queue_def unlock_queue_def push_item_def pop_front_def

lemma push_step_frame:
  "(r, q') \<in> set (push_step k q) \<Longrightarrow> max_size q' = max_size q \<and> closed_flag q' = closed_flag q
    \<and> shutdown_flag q' = shutdown_flag q \<and> (items q' = items q \<or> holds_mtx (In_Push k) = 1)"
  by (cases k) (auto simp: queue_access split: if_splits)

lemma pop_step_frame:
  "(r, q') \<in> set (pop_step k q) \<Longrightarrow> max_size q' = max_size q \<and> closed_flag q' = closed_flag q
    \<and> shutdown_flag q' = shutdown_flag q \<and> (items q' = items q \<or> holds_mtx (In_Pop k) = 1)"
  by (cases k) (auto simp: queue_access split: if_splits)

lemma close_step_frame:
  "(r, q') \<in> set (close_step k q) \<Longrightarrow> max_size q' = max_size q \<and> (closed_flag q \<longrightarrow> closed_flag q')
    \<and> (shutdown_flag q \<longrightarrow> shutdown_flag q') \<and> items q' = items q \<and> mtx q' = mtx q"
  by (cases "(k, q)" rule: close_step.cases) (auto simp: queue_access)

lemma look_step_frame:
  "(r, q') \<in> set (look_step k q) \<Longrightarrow> max_size q' = max_size q \<and> closed_flag q' = closed_flag q
    \<and> shutdown_flag q' = shutdown_flag q \<and> items q' = items q"
  by (cases k) (auto simp: queue_access split: if_splits)

lemma queue_step_frame:
  "(r, q') \<in> set (queue_step i k q) \<Longrightarrow> max_size q' = max_size q \<and> (closed_flag q \<longrightarrow> closed_flag q')
    \<and> (shutdown_flag q \<longrightarrow> shutdown_flag q') \<and> (items q' = items q \<or> holds_mtx k = 1)"
  by (cases k)
    (auto dest: push_step_frame pop_step_frame close_step_frame look_step_frame)

lemma queue_assert_frame:
  "queue_assert q k \<Longrightarrow> (closed_flag q \<longrightarrow> closed_flag q') \<Longrightarrow> (shutdown_flag q \<longrightarrow> shutdown_flag q')
    \<Longrightarrow> items q' = items q \<or> holds_mtx k = 0 \<Longrightarrow> queue_assert q' k"
  by (cases k) (auto split: push_pc.splits pop_pc.splits close_pc.splits look_pc.splits)

lemma holds_mtx_le: "holds_mtx k \<le> 1"
  by (cases k) (auto split: push_pc.splits pop_pc.splits look_pc.splits)

lemma committed_le: "committed k \<le> holds_empty k"
  by (cases k) (auto split: push_pc.splits)

text \<open>The counts, for one thread whose holdings are part of the totals.\<close>

lemma push_step_counts:
  assumes "queue_counts m e f c wc wp q" "c \<le> e" "(r, q') \<in> set (push_step k q)"
    and "m' + holds_mtx (In_Push k) = m + over holds_mtx (still (map_sum In_Push Pushed r))"
    and "e' + holds_empty (In_Push k) = e + over holds_empty (still (map_sum In_Push Pushed r))"
    and "f' + holds_filled (In_Push k) = f + over holds_filled (still (map_sum In_Push Pushed r))"
    and "c' + committed (In_Push k) = c + over committed (still (map_sum In_Push Pushed r))"
    and "c' \<le> e'" "c \<le> e" "holds_mtx (In_Push k) \<le> m"
  shows "queue_counts m' e' f' c' wc wp q'"
  using assms
  by (cases k; cases "mtx q") (auto simp: queue_counts_def queue_access split: if_splits)

lemma pop_step_counts:
  assumes "queue_counts m e f c wc wp q" "queue_assert q (In_Pop k)" "(r, q') \<in> set (pop_step k q)"
    and "m' + holds_mtx (In_Pop k) = m + over holds_mtx (still (map_sum In_Pop Popped r))"
    and "e' + holds_empty (In_Pop k) = e + over holds_empty (still (map_sum In_Pop Popped r))"
    and "f' + holds_filled (In_Pop k) = f + over holds_filled (still (map_sum In_Pop Popped r))"
    and "holds_mtx (In_Pop k) \<le> m"
  shows "queue_counts m' e' f' c wc wp q'"
  using assms
  by (cases k; cases "mtx q"; cases "items q") (auto simp: queue_counts_def queue_access split: if_splits)

lemma close_step_counts:
  assumes "queue_counts m e f c wc wp q" "queue_assert q (In_Close k)"
    and "(r, q') \<in> set (close_step k q)"
    and "wc' + wakes_consumers (In_Close k)
      = wc + over wakes_consumers (still (map_sum In_Close (\<lambda>_. Void) r))"
    and "wp' + wakes_producers (max_size q) (In_Close k)
      = wp + over (wakes_producers (max_size q)) (still (map_sum In_Close (\<lambda>_. Void) r))"
  shows "queue_counts m e f c wc' wp' q'"
  using assms
  by (cases "(k, q)" rule: close_step.cases) (auto simp: queue_counts_def queue_access)

lemma look_step_counts:
  assumes "queue_counts m e f c wc wp q" "(r, q') \<in> set (look_step k q)"
    and "m' + holds_mtx (In_Look k) = m + over holds_mtx (still (map_sum In_Look Observed r))"
  shows "queue_counts m' e f c wc wp q'"
  using assms
  by (cases k; cases "mtx q") (auto simp: queue_counts_def queue_access split: if_splits)

text \<open>The assertion at the next program counter.\<close>

lemma push_step_assert:
  assumes "(Inl k', q') \<in> set (push_step k q)" "queue_assert q (In_Push k)"
  shows "queue_assert q' (In_Push k')"
  using assms by (cases k) (auto simp: queue_access split: if_splits)

lemma pop_step_assert:
  assumes "(Inl k', q') \<in> set (pop_step k q)" "queue_assert q (In_Pop k)"
    and "queue_counts m e f c wc wp q" "holds_filled (In_Pop k) \<le> f"
  shows "queue_assert q' (In_Pop k')"
  using assms by (cases k) (auto simp: queue_access queue_counts_def split: if_splits)

lemma close_step_assert:
  assumes "(Inl k', q') \<in> set (close_step k q)" "queue_assert q (In_Close k)"
  shows "queue_assert q' (In_Close k')"
  using assms by (cases "(k, q)" rule: close_step.cases) (auto simp: queue_access)

lemma look_step_assert:
  assumes "(Inl k', q') \<in> set (look_step k q)" "queue_assert q (In_Look k)"
  shows "queue_assert q' (In_Look k')"
  using assms by (cases k) (auto simp: queue_access split: if_splits)

text \<open>What the logs record.\<close>

lemma queue_step_logs:
  assumes "(r, q') \<in> set (queue_step i k q)" "log_in q = log_out q @ items q" "queue_assert q k"
  shows "log_in q' = log_out q' @ items q'"
proof (cases k)
  case (In_Push p)
  with assms show ?thesis by (cases p) (auto simp: queue_access split: if_splits)
next
  case (In_Pop p)
  with assms show ?thesis by (cases p) (auto simp: queue_access split: if_splits)
next
  case (In_Close p)
  with assms show ?thesis
    by (cases "(p, q)" rule: close_step.cases) (auto simp: queue_access)
next
  case (In_Look p)
  with assms show ?thesis by (cases p) (auto simp: queue_access split: if_splits)
qed

lemma queue_step_counts:
  assumes inv: "queue_inv qs q" and i: "i < length qs" and k: "qs ! i = Some k"
    and st: "(r, q') \<in> set (queue_step i k q)"
  shows "queue_counts (tsum (over holds_mtx) (qs[i := still r])) (tsum (over holds_empty) (qs[i := still r]))
       (tsum (over holds_filled) (qs[i := still r])) (tsum (over committed) (qs[i := still r]))
       (tsum (over wakes_consumers) (qs[i := still r])) (tsum (over (wakes_producers (max_size q))) (qs[i := still r])) q'"
proof -
  let ?qs = "qs[i := still r]"
  have counts: "queue_counts (tsum (over holds_mtx) qs) (tsum (over holds_empty) qs)
       (tsum (over holds_filled) qs) (tsum (over committed) qs)
       (tsum (over wakes_consumers) qs) (tsum (over (wakes_producers (max_size q))) qs) q"
    and logs: "log_in q = log_out q @ items q"
    and asserts: "list_all (case_option True (queue_assert q)) qs"
    using inv by (simp_all add: queue_inv_def)
  have ak: "queue_assert q k" using asserts i k by (auto simp: list_all_length)
  have upd: "tsum (over w) ?qs + w k = tsum (over w) qs + over w (still r)" for w
    using tsum_update [OF i, of "over w" "still r"] k by simp
  have here: "w k \<le> tsum (over w) qs" for w
    using tsum_member [OF i, of "over w"] k by simp
  have ce: "tsum (over committed) rs \<le> tsum (over holds_empty) rs" for rs :: "'a queue_pc option list"
    by (rule tsum_mono) (auto intro: committed_le split: option.splits)
  show ?thesis
  proof (cases k)
    case (In_Push p)
    with st obtain s where s: "(s, q') \<in> set (push_step p q)" and r: "r = map_sum In_Push Pushed s"
      by auto
    have "over wakes_consumers (still r) = 0" "over (wakes_producers (max_size q)) (still r) = 0"
      using r by (cases s; simp)+
    then have "tsum (over wakes_consumers) ?qs = tsum (over wakes_consumers) qs"
      "tsum (over (wakes_producers (max_size q))) ?qs = tsum (over (wakes_producers (max_size q))) qs"
      using upd [of wakes_consumers] upd [of "wakes_producers (max_size q)"] In_Push by simp_all
    then show ?thesis
      using push_step_counts [OF counts ce s] upd ce here In_Push r by metis
  next
    case (In_Pop p)
    with st obtain s where s: "(s, q') \<in> set (pop_step p q)" and r: "r = map_sum In_Pop Popped s"
      by auto
    have "over wakes_consumers (still r) = 0" "over (wakes_producers (max_size q)) (still r) = 0"
      "over committed (still r) = 0" using r by (cases s; simp)+
    then have "tsum (over wakes_consumers) ?qs = tsum (over wakes_consumers) qs"
      "tsum (over (wakes_producers (max_size q))) ?qs = tsum (over (wakes_producers (max_size q))) qs"
      "tsum (over committed) ?qs = tsum (over committed) qs"
      using upd [of wakes_consumers] upd [of "wakes_producers (max_size q)"] upd [of committed] In_Pop
      by simp_all
    then show ?thesis
      using pop_step_counts [OF counts _ s] ak upd here In_Pop r by metis
  next
    case (In_Close p)
    with st obtain s where s: "(s, q') \<in> set (close_step p q)"
      and r: "r = map_sum In_Close (\<lambda>_. Void) s" by auto
    have "over holds_mtx (still r) = 0" "over holds_empty (still r) = 0"
      "over holds_filled (still r) = 0" "over committed (still r) = 0" using r by (cases s; simp)+
    then have "tsum (over holds_mtx) ?qs = tsum (over holds_mtx) qs"
      "tsum (over holds_empty) ?qs = tsum (over holds_empty) qs"
      "tsum (over holds_filled) ?qs = tsum (over holds_filled) qs"
      "tsum (over committed) ?qs = tsum (over committed) qs"
      using upd [of holds_mtx] upd [of holds_empty] upd [of holds_filled] upd [of committed] In_Close
      by simp_all
    then show ?thesis
      using close_step_counts [OF counts _ s] ak upd In_Close r by metis
  next
    case (In_Look p)
    with st obtain s where s: "(s, q') \<in> set (look_step p q)" and r: "r = map_sum In_Look Observed s"
      by auto
    have "over wakes_consumers (still r) = 0" "over (wakes_producers (max_size q)) (still r) = 0"
      "over holds_empty (still r) = 0" "over holds_filled (still r) = 0"
      "over committed (still r) = 0" using r by (cases s; simp)+
    then have "tsum (over wakes_consumers) ?qs = tsum (over wakes_consumers) qs"
      "tsum (over (wakes_producers (max_size q))) ?qs = tsum (over (wakes_producers (max_size q))) qs"
      "tsum (over holds_empty) ?qs = tsum (over holds_empty) qs"
      "tsum (over holds_filled) ?qs = tsum (over holds_filled) qs"
      "tsum (over committed) ?qs = tsum (over committed) qs"
      using upd [of wakes_consumers] upd [of "wakes_producers (max_size q)"] upd [of holds_empty]
        upd [of holds_filled] upd [of committed] In_Look by simp_all
    then show ?thesis
      using look_step_counts [OF counts s] upd In_Look r by metis
  qed
qed

lemma queue_step_asserts:
  assumes inv: "queue_inv qs q" and i: "i < length qs" and k: "qs ! i = Some k"
    and st: "(r, q') \<in> set (queue_step i k q)"
  shows "list_all (case_option True (queue_assert q')) (qs[i := still r])"
proof -
  let ?qs = "qs[i := still r]"
  have counts: "queue_counts (tsum (over holds_mtx) qs) (tsum (over holds_empty) qs)
       (tsum (over holds_filled) qs) (tsum (over committed) qs)
       (tsum (over wakes_consumers) qs) (tsum (over (wakes_producers (max_size q))) qs) q"
    and asserts: "list_all (case_option True (queue_assert q)) qs"
    using inv by (simp_all add: queue_inv_def)
  have ak: "queue_assert q k" using asserts i k by (auto simp: list_all_length)
  have here: "w k \<le> tsum (over w) qs" for w
    using tsum_member [OF i, of "over w"] k by simp
  note frame = queue_step_frame [OF st]
  have own: "case_option True (queue_assert q') (still r)"
  proof (cases r)
    case (Inl k')
    then show ?thesis
      using st ak counts here [of holds_filled]
      by (cases k; cases k')
        (auto dest: push_step_assert close_step_assert look_step_assert pop_step_assert
          simp: map_sum_def simp del: queue_assert.simps holds_filled.simps split: sum.splits)
  qed simp
  have "case_option True (queue_assert q') (?qs ! j)" if "j < length qs" for j
  proof (cases "j = i")
    case True
    with own i show ?thesis by simp
  next
    case False
    have aj: "case_option True (queue_assert q) (qs ! j)" using asserts that by (simp add: list_all_length)
    have "holds_mtx k + over holds_mtx (qs ! j) \<le> tsum (over holds_mtx) qs"
      using tsum_two [OF i that, of "over holds_mtx"] False k by simp
    also have "\<dots> \<le> 1" using counts by (simp add: queue_counts_def)
    finally have "items q' = items q \<or> over holds_mtx (qs ! j) = 0" using frame by auto
    then show ?thesis
      using aj frame False by (auto split: option.splits elim: queue_assert_frame)
  qed
  then show ?thesis by (simp add: list_all_length)
qed

lemma queue_step_keeps:
  assumes inv: "queue_inv qs q" and i: "i < length qs" and k: "qs ! i = Some k"
    and st: "(r, q') \<in> set (queue_step i k q)"
  shows "queue_inv (qs[i := still r]) q'"
proof -
  have logs: "log_in q = log_out q @ items q" and "queue_assert q k"
    using inv i k by (auto simp: queue_inv_def list_all_length)
  moreover have "max_size q' = max_size q" using queue_step_frame [OF st] by simp
  moreover have "tsum (over committed) rs \<le> tsum (over holds_empty) rs" for rs :: "'a queue_pc option list"
    by (rule tsum_mono) (auto intro: committed_le split: option.splits)
  ultimately show ?thesis
    using queue_step_counts [OF assms] queue_step_asserts [OF assms] queue_step_logs [OF st logs]
    by (simp add: queue_inv_def)
qed

section \<open>The queue as a shared object\<close>

lemma queue_inv_start: "list_all (\<lambda>k. k = None) qs \<Longrightarrow> queue_inv qs (sem_queue_ctor n)"
proof -
  assume none: "list_all (\<lambda>k. k = None) qs"
  then have "tsum (over w) qs = 0" for w :: "'a queue_pc \<Rightarrow> nat"
    by (auto simp: tsum_eq_0_iff list_all_iff)
  with none show ?thesis
    by (auto simp: queue_inv_def queue_counts_def sem_queue_ctor_def list_all_iff)
qed

lemma queue_inv_call:
  assumes inv: "queue_inv qs q" and i: "i < length qs" and "qs ! i = None"
  shows "queue_inv (qs[i := Some (queue_entry oper)]) q"
proof -
  have "tsum (over w) (qs[i := Some (queue_entry oper)]) = tsum (over w) qs"
    if "w (queue_entry oper) = 0" for w
    using tsum_update [OF i, of "over w" "Some (queue_entry oper)"] assms(3) that by simp
  moreover have "holds_mtx (queue_entry oper) = 0" "holds_empty (queue_entry oper) = 0"
    "holds_filled (queue_entry oper) = 0" "committed (queue_entry oper) = 0"
    "wakes_consumers (queue_entry oper) = 0" "wakes_producers m (queue_entry oper) = 0"
    "queue_assert q (queue_entry oper)" for m
    by (cases oper; simp)+
  ultimately show ?thesis
    using inv by (simp add: queue_inv_def list_all_update)
qed

text \<open>The capacity is that of the constructor.\<close>

abbreviation queue_inv_of :: "nat \<Rightarrow> 'a queue_pc option list \<Rightarrow> 'a sem_queue \<Rightarrow> bool" where
  "queue_inv_of n qs q \<equiv> queue_inv qs q \<and> max_size q = n"

interpretation sem_queue: shared_object queue_step queue_entry "queue_inv_of n" "sem_queue_ctor n" for n
proof unfold_locales
  show "queue_inv_of n qs (sem_queue_ctor n)" if "list_all (\<lambda>k. k = None) qs"
    for qs :: "'a queue_pc option list"
    using queue_inv_start [OF that] by (simp add: sem_queue_ctor_def)
qed (auto intro: queue_inv_call dest: queue_step_keeps queue_step_frame)

section \<open>Blocked calls\<close>

text \<open>A call without an outcome waits for the mutex or for a permit.\<close>

fun waits_for_mtx :: "'a queue_pc \<Rightarrow> bool" where
  "waits_for_mtx (In_Push k) = (case k of Push_Lock x \<Rightarrow> True | _ \<Rightarrow> False)"
| "waits_for_mtx (In_Pop k) = (k = Pop_Lock1 \<or> k = Pop_Lock2)"
| "waits_for_mtx (In_Close k) = False"
| "waits_for_mtx (In_Look k) = (k = Size_Lock)"

fun waits_for_slot :: "'a queue_pc \<Rightarrow> bool" where
  "waits_for_slot (In_Push k) = (case k of Push_Acquire x \<Rightarrow> True | _ \<Rightarrow> False)"
| "waits_for_slot _ = False"

fun waits_for_item :: "'a queue_pc \<Rightarrow> bool" where
  "waits_for_item (In_Pop k) = (k = Pop_Acquire)"
| "waits_for_item _ = False"

lemma queue_step_blocked:
  "queue_step i k q = [] \<longleftrightarrow> waits_for_mtx k \<and> mtx q \<or> waits_for_slot k \<and> empty_slots q = 0
    \<or> waits_for_item k \<and> filled_slots q = 0"
proof (cases k)
  case (In_Push p)
  then show ?thesis by (cases p) (auto simp: queue_access)
next
  case (In_Pop p)
  then show ?thesis by (cases p) (auto simp: queue_access)
next
  case (In_Close p)
  then show ?thesis by (cases "(p, q)" rule: close_step.cases) auto
next
  case (In_Look p)
  then show ?thesis by (cases p) (auto simp: queue_access)
qed

lemma blocked_holds_no_mtx: "queue_step i k q = [] \<Longrightarrow> holds_mtx k = 0"
  by (cases k)
    (auto simp: queue_step_blocked simp del: queue_step.simps split: push_pc.splits look_pc.splits)

lemma waiting_holds_nothing:
  "waits_for_slot k \<or> waits_for_item k \<Longrightarrow> holds_empty k = 0 \<and> holds_filled k = 0
    \<and> wakes_consumers k = 0 \<and> wakes_producers m k = 0"
  by (cases k) (auto split: push_pc.splits)

lemma tsum_over_0:
  "(\<And>i k. i < length qs \<Longrightarrow> qs ! i = Some k \<Longrightarrow> w k = 0) \<Longrightarrow> tsum (over w) qs = 0"
  by (auto simp: tsum_eq_0_iff in_set_conv_nth split: option.splits)

text \<open>
  When no call can take a step, every call in progress waits for a slot of a full queue that is
  not shut down, or for an item of an empty queue that is not closed.
\<close>

lemma all_blocked:
  assumes inv: "queue_inv qs q" and i: "i < length qs" "qs ! i = Some k"
    and blocked: "\<And>j p. j < length qs \<Longrightarrow> qs ! j = Some p \<Longrightarrow> queue_step j p q = []"
  shows "(waits_for_slot k \<and> length (items q) = max_size q \<and> \<not> shutdown_flag q)
    \<or> (waits_for_item k \<and> items q = [] \<and> \<not> closed_flag q)"
proof -
  have "tsum (over holds_mtx) qs = 0"
    using blocked blocked_holds_no_mtx by (intro tsum_over_0) blast
  then have free: "\<not> mtx q" using inv by (auto simp: queue_inv_def queue_counts_def)
  have w: "waits_for_slot p \<and> empty_slots q = 0 \<or> waits_for_item p \<and> filled_slots q = 0"
    if "j < length qs" "qs ! j = Some p" for j p
    using blocked [OF that] free by (simp add: queue_step_blocked)
  have "tsum (over holds_empty) qs = 0" "tsum (over holds_filled) qs = 0"
    "tsum (over wakes_consumers) qs = 0" "tsum (over (wakes_producers (max_size q))) qs = 0"
    using w waiting_holds_nothing by (intro tsum_over_0; blast)+
  then show ?thesis
    using inv w [OF i] by (auto simp: queue_inv_def queue_counts_def)
qed

end
