(* ===== verification/Semaphore_Spec.thy ===== *)
theory Semaphore_Spec
  imports Semaphore_Queue
begin

text \<open>
  What the semaphore queue promises to its clients, whatever programs they run: it is linearizable
  to an atomic bounded FIFO queue (an interpretation of \<open>object_simulation\<close>), it loses and duplicates no item, its calls block only when a bounded
  queue must block them, and alone each operation returns what a sequential queue returns.
\<close>

section \<open>The abstract queue\<close>

text \<open>
  An atomic bounded FIFO with the same operations.  Its state is the contents, and whether it has
  been closed and shut down.  A call asks, takes effect and answers.  A push is admitted while
  the queue is not shut down, and an admitted push enqueues in one action, while there is room and
  the queue is not closed; \<open>shutdown\<close> takes effect in two actions, as its two stores do.
\<close>

definition abs_queue :: "'a sem_queue \<Rightarrow> 'a list \<times> bool \<times> bool" where
  "abs_queue q = (items q, closed_flag q, shutdown_flag q)"

datatype 'a fifo_pc = Asked "'a queue_op" | Admitted 'a | Shutting | Answer "'a queue_ret"

fun fifo_effect :: "nat \<Rightarrow> 'a fifo_pc \<Rightarrow> 'a list \<times> bool \<times> bool \<Rightarrow> ('a fifo_pc \<times> 'a list \<times> bool \<times> bool) list" where
  "fifo_effect n (Asked (Push x)) (xs, cl, dn) =
     (if cl \<or> dn then [(Answer (Pushed False), (xs, cl, dn))] else [])
     @ (if dn then [] else [(Admitted x, (xs, cl, dn))])"
| "fifo_effect n (Admitted x) (xs, cl, dn) =
     (if cl then [(Answer (Pushed False), (xs, cl, dn))]
      else if length xs < n then [(Answer (Pushed True), (xs @ [x], cl, dn))] else [])"
| "fifo_effect n (Asked Pop) (xs, cl, dn) =
     (case xs of y # ys \<Rightarrow> [(Answer (Popped (Some y)), (ys, cl, dn))]
      | [] \<Rightarrow> if cl \<or> dn then [(Answer (Popped None), (xs, cl, dn))] else [])"
| "fifo_effect n (Asked Close) (xs, cl, dn) = [(Answer Void, (xs, True, dn))]"
| "fifo_effect n (Asked Shutdown) (xs, cl, dn) = [(Shutting, (xs, cl, True))]"
| "fifo_effect n Shutting (xs, cl, dn) = [(Answer Void, (xs, True, dn))]"
| "fifo_effect n (Asked Size) (xs, cl, dn) = [(Answer (Observed (length xs)), (xs, cl, dn))]"
| "fifo_effect n (Asked Is_Shutdown) (xs, cl, dn) = [(Answer (Observed (of_bool dn)), (xs, cl, dn))]"
| "fifo_effect n (Asked Is_Closed) (xs, cl, dn) = [(Answer (Observed (of_bool cl)), (xs, cl, dn))]"
| "fifo_effect n (Answer r) s = []"

definition fifo_step :: "nat \<Rightarrow> nat \<Rightarrow> 'a fifo_pc \<Rightarrow> 'a list \<times> bool \<times> bool
  \<Rightarrow> (('a fifo_pc + 'a queue_ret) \<times> ('a list \<times> bool \<times> bool)) list" where
  "fifo_step n i k s = (case k of Answer r \<Rightarrow> [(Inr r, s)] | _ \<Rightarrow> map (\<lambda>(k', s'). (Inl k', s')) (fifo_effect n k s))"

text \<open>How far the abstract call is.\<close>

fun fifo_pc_of :: "'a queue_pc \<Rightarrow> 'a fifo_pc" where
  "fifo_pc_of (In_Push k) = (case k of
     Push_Shut1 x \<Rightarrow> Asked (Push x) | Push_Closed1 x \<Rightarrow> Asked (Push x) | Push_Acquire x \<Rightarrow> Asked (Push x)
   | Push_Shut2 x \<Rightarrow> Asked (Push x) | Push_Closed2 x \<Rightarrow> Asked (Push x) | Push_Lock x \<Rightarrow> Asked (Push x)
   | Push_Shut3 x \<Rightarrow> Asked (Push x) | Push_Closed3 x \<Rightarrow> Admitted x
   | Push_Back \<Rightarrow> Answer (Pushed False) | Push_Abort \<Rightarrow> Answer (Pushed False) | Push_Abort_Unlock \<Rightarrow> Answer (Pushed False)
   | Push_Enqueue x \<Rightarrow> Answer (Pushed True) | Push_Unlock \<Rightarrow> Answer (Pushed True) | Push_Release \<Rightarrow> Answer (Pushed True))"
| "fifo_pc_of (In_Pop k) = (case k of
     Pop_Drained \<Rightarrow> Answer (Popped None) | Pop_Give x \<Rightarrow> Answer (Popped (Some x)) | Pop_Unlock_Taken x \<Rightarrow> Answer (Popped (Some x))
   | Pop_Unlock2 \<Rightarrow> Answer (Popped None) | Pop_Shut2 \<Rightarrow> Answer (Popped None) | Pop_Closed2 \<Rightarrow> Answer (Popped None)
   | Pop_Back \<Rightarrow> Answer (Popped None) | _ \<Rightarrow> Asked Pop)"
| "fifo_pc_of (In_Close k) = (case k of
     Close_Store \<Rightarrow> Asked Close | Shut_Store \<Rightarrow> Asked Shutdown | Shut_Close \<Rightarrow> Shutting | _ \<Rightarrow> Answer Void)"
| "fifo_pc_of (In_Look k) = (case k of
     Size_Lock \<Rightarrow> Asked Size | Size_Read \<Rightarrow> Asked Size | Size_Unlock n \<Rightarrow> Answer (Observed n)
   | Load_Shut \<Rightarrow> Asked Is_Shutdown | Load_Closed \<Rightarrow> Asked Is_Closed)"

text \<open>
  A push takes effect when it reads under the mutex that the queue is not closed; its item is then
  in the abstract queue, and enters the queue itself with the next action of its thread.
\<close>

fun entering :: "'a queue_pc \<Rightarrow> 'a list" where
  "entering (In_Push k) = (case k of Push_Enqueue x \<Rightarrow> [x] | _ \<Rightarrow> [])"
| "entering _ = []"

definition fifo_of :: "'a queue_pc option list \<Rightarrow> 'a sem_queue \<Rightarrow> 'a list \<times> bool \<times> bool" where
  "fifo_of qs q = (items q @ concat (map (case_option [] entering) qs), closed_flag q, shutdown_flag q)"

section \<open>The simulation\<close>

lemma concat_update:
  "i < length xs \<Longrightarrow> f (xs ! i) = [] \<Longrightarrow> (\<And>j. j < length xs \<Longrightarrow> j \<noteq> i \<Longrightarrow> f (xs ! j) = []) \<Longrightarrow> concat (map f (xs[i := x])) = f x"
proof (induction xs arbitrary: i)
  case (Cons y ys)
  have rest: "concat (map f zs) = []" if "\<And>j. j < length zs \<Longrightarrow> f (zs ! j) = []" for zs
    using that by (auto simp: in_set_conv_nth)
  show ?case
  proof (cases i)
    case 0
    then show ?thesis using rest [of ys] Cons.prems(3) [of "Suc _"] by (auto simp del: concat_eq_Nil_conv)
  next
    case (Suc k)
    then show ?thesis using Cons.IH [of k] Cons.prems(1,2) Cons.prems(3) [of 0] Cons.prems(3) [of "Suc _"] by simp
  qed
qed simp

lemma entering_holds: "entering k \<noteq> [] \<Longrightarrow> holds_mtx k = 1"
  by (cases k) (auto split: push_pc.splits)

lemma entering_alone:
  assumes inv: "queue_inv qs q" and i: "i < length qs" "qs ! i = Some k" and h: "holds_mtx k = 1"
    and j: "j < length qs" "j \<noteq> i"
  shows "case_option [] entering (qs ! j) = []"
proof -
  have "tsum (over holds_mtx) qs \<le> 1" using inv by (simp add: queue_inv_def queue_counts_def)
  moreover have "over holds_mtx (qs ! i) + over holds_mtx (qs ! j) \<le> tsum (over holds_mtx) qs"
    using i j by (intro tsum_two) auto
  ultimately have "over holds_mtx (qs ! j) = 0" using i(2) h by simp
  then show ?thesis using entering_holds by (cases "qs ! j") fastforce+
qed

text \<open>While a call that is not enqueuing holds the mutex, the abstract contents are the contents.\<close>

lemma fifo_of_holder:
  assumes "queue_inv qs q" "i < length qs" "qs ! i = Some k" "holds_mtx k = 1"
  shows "concat (map (case_option [] entering) (qs[i := r])) = case_option [] entering r"
    and "concat (map (case_option [] entering) qs) = entering k"
proof -
  have *: "concat (map (case_option [] entering) (qs[i := r])) = case_option [] entering r" for r
    using concat_update [of i "qs[i := None]" "case_option [] entering" r] entering_alone [OF assms] assms(2) by simp
  show "concat (map (case_option [] entering) (qs[i := r])) = case_option [] entering r" by (rule *)
  show "concat (map (case_option [] entering) qs) = entering k" using * [of "Some k"] assms(2,3) by (metis list_update_id option.simps(5))
qed

lemma abstract_room: "length (concat (map (case_option [] entering) qs)) \<le> tsum (over committed) qs"
proof (induction qs)
  case (Cons r qs)
  have "length (case_option [] entering r) \<le> over committed r"
    by (cases r; cases "the r") (auto split: push_pc.splits)
  then show ?case using Cons.IH by simp
qed simp

lemma fifo_of_same:
  assumes "i < length qs" "case_option [] entering r = case_option [] entering (qs ! i)"
  shows "concat (map (case_option [] entering) (qs[i := r])) = concat (map (case_option [] entering) qs)"
  using assms by (metis list_update_id map_update)

lemma queue_effect:
  assumes inv: "queue_inv qs q" and i: "i < length qs" and k: "qs ! i = Some k"
    and st: "(r, q') \<in> set (queue_step i k q)"
  defines "a \<equiv> case r of Inl k' \<Rightarrow> fifo_pc_of k' | Inr v \<Rightarrow> Answer v"
  shows "(a, fifo_of (qs[i := still r]) q') = (fifo_pc_of k, fifo_of qs q)
    \<or> (a, fifo_of (qs[i := still r]) q') \<in> set (fifo_effect (max_size q) (fifo_pc_of k) (fifo_of qs q))"
proof -
  let ?C = "concat (map (case_option [] entering) qs)" and ?D = "concat (map (case_option [] entering) (qs[i := still r]))"
  have hold: "?C = entering k \<and> ?D = case_option [] entering (still r)" if "holds_mtx k = 1"
    using fifo_of_holder [OF inv i k that] by simp
  have free: "?D = ?C" if "case_option [] entering (still r) = entering k"
    using fifo_of_same [OF i, of "still r"] that k by simp
  have ak: "queue_assert q k" using inv i k by (auto simp: queue_inv_def list_all_length)
  have ar: "case_option True (queue_assert q') (still r)"
    using queue_step_asserts [OF inv i k st] i by (auto simp: list_all_length dest!: spec [of _ i])
  have "over committed (qs ! i) \<le> tsum (over committed) qs" using i by (intro tsum_member) simp
  then have room: "length (items q) + committed k \<le> max_size q"
    using inv k by (simp add: queue_inv_def queue_counts_def)
  show ?thesis
  proof (cases k)
    case (In_Push p)
    then show ?thesis
      using st hold free room ak unfolding fifo_of_def a_def
      by (cases p) (auto simp: queue_access simp del: concat_eq_Nil_conv split: if_splits)
  next
    case (In_Pop p)
    then show ?thesis
      using st hold free ak ar unfolding fifo_of_def a_def
      by (cases p; cases "items q") (auto simp: queue_access simp del: concat_eq_Nil_conv split: if_splits)
  next
    case (In_Close p)
    then show ?thesis
      using st free unfolding fifo_of_def a_def
      by (cases "(p, q)" rule: close_step.cases) (auto simp: queue_access)
  next
    case (In_Look p)
    then show ?thesis
      using st hold free unfolding fifo_of_def a_def
      by (cases p) (auto simp: queue_access simp del: concat_eq_Nil_conv split: if_splits)
  qed
qed

lemma fifo_effect_move: "(k', s') \<in> set (fifo_effect n k s) \<Longrightarrow> call_move (fifo_step n) i (k, s) (k', s')"
  by (cases k) (force simp: call_move_def fifo_step_def)+

lemma queue_simulated:
  assumes "queue_inv qs q" "i < length qs" "qs ! i = Some k" "(r, q') \<in> set (queue_step i k q)"
  shows "(call_move (fifo_step (max_size q)) i)\<^sup>*\<^sup>* (fifo_pc_of k, fifo_of qs q)
    (case r of Inl k' \<Rightarrow> fifo_pc_of k' | Inr v \<Rightarrow> Answer v, fifo_of (qs[i := still r]) q')"
  using queue_effect [OF assms] by (auto dest: fifo_effect_move)

interpretation queue_fifo: object_simulation queue_step queue_entry "queue_inv_of n" "sem_queue_ctor n"
  "fifo_step n" Asked fifo_pc_of fifo_of for n
proof unfold_locales
  show "fifo_pc_of (queue_entry oper) = Asked oper" for oper :: "'a queue_op" by (cases oper) simp_all
  show "fifo_of (qs[i := Some (queue_entry oper)]) q = fifo_of qs q"
    if "i < length qs" "qs ! i = None" for qs i oper and q :: "'a sem_queue"
    using fifo_of_same [OF that(1), of "Some (queue_entry oper)"] that(2) by (cases oper) (simp_all add: fifo_of_def)
  show "(call_move (fifo_step n) i)\<^sup>*\<^sup>* (fifo_pc_of k, fifo_of qs q) (fifo_pc_of k', fifo_of (qs[i := Some k']) q')"
    if "queue_inv_of n qs q" "i < length qs" "qs ! i = Some k" "(Inl k', q') \<in> set (queue_step i k q)"
    for qs i k k' and q q' :: "'a sem_queue"
    using queue_simulated [OF _ that(2-4)] that(1) by auto
  show "\<exists>a s. (call_move (fifo_step n) i)\<^sup>*\<^sup>* (fifo_pc_of k, fifo_of qs q) (a, s)
      \<and> (Inr v, fifo_of (qs[i := None]) q') \<in> set (fifo_step n i a s)"
    if "queue_inv_of n qs q" "i < length qs" "qs ! i = Some k" "(Inr v, q') \<in> set (queue_step i k q)"
    for qs i k v and q q' :: "'a sem_queue"
    using queue_simulated [OF _ that(2-4)] that(1) by (intro exI [of _ "Answer v"] exI) (auto simp: fifo_step_def)
qed

text \<open>
  C1. The semaphore queue is linearizable: clients cannot tell it from the atomic bounded FIFO.
  Whatever operations they call, from any number of threads and in any interleaving of
  their atomic accesses, including \<open>close\<close> and \<open>shutdown\<close> while calls are in progress, the run is a run
  of the same clients on the FIFO, with the same calls and the same results.  In particular a push
  is accepted only if it finds the queue not shut down and then, when it takes effect, not
  closed and not full; and a pop returns the oldest item, or fails on an empty queue that is closed or
  shut down.  The capacity is never exceeded, and what is in the queue is what was
  enqueued less what was dequeued, in order.
\<close>

theorem queue_refines_fifo:
  fixes q :: "'a sem_queue"
  assumes "steps (client_step prog after queue_entry queue_step)
      (client_start ps (sem_queue_ctor n) c0) (ts, (q, c))"
  shows "steps (client_step prog after Asked (fifo_step n)) (client_start ps ([], False, False) c0)
      (map (apsnd (map_option fifo_pc_of)) ts, (fifo_of (map snd ts) q, c))
    \<and> length (fst (fifo_of (map snd ts) q)) \<le> n \<and> log_in q = log_out q @ items q"
proof -
  have inv: "queue_inv_of n (map snd ts) q" using assms by (rule sem_queue.object_reach)
  have "queue_fifo.abs_conf (client_start ps (sem_queue_ctor n :: 'a sem_queue) c0) = (client_start ps ([], False, False) c0)"
    by (auto simp: queue_fifo.abs_conf_def client_start_def fifo_of_def sem_queue_ctor_def comp_def)
  moreover have "queue_fifo.abs_conf (ts, (q, c)) = (map (apsnd (map_option fifo_pc_of)) ts, (fifo_of (map snd ts) q, c))"
    by (simp add: queue_fifo.abs_conf_def)
  ultimately have "steps (client_step prog after Asked (fifo_step n)) (client_start ps ([], False, False) c0)
      (map (apsnd (map_option fifo_pc_of)) ts, (fifo_of (map snd ts) q, c))"
    using queue_fifo.simulated [OF assms] by simp
  moreover have "length (items q) + length (concat (map (case_option [] entering) (map snd ts))) \<le> n"
    using inv abstract_room [of "map snd ts"] by (simp add: queue_inv_def queue_counts_def)
  ultimately show ?thesis using inv by (simp add: queue_inv_def fifo_of_def)
qed

text \<open>
  Inside \<open>pop\<close>, \<open>front\<close> and \<open>pop_front\<close> are only reached on a queue that is not empty, and
  while a call is between taking and releasing the mutex no other call is.
\<close>

theorem queue_front_safe:
  assumes "steps (client_step prog after queue_entry queue_step)
      (client_start ps (sem_queue_ctor n) c0) (ts, (q, c))"
    and "i < length ts" and "snd (ts ! i) = Some (In_Pop Pop_Take)"
  shows "items q \<noteq> [] \<and> mtx q
    \<and> list_all (\<lambda>j. j = i \<or> case_option True (\<lambda>k. holds_mtx k = 0) (snd (ts ! j))) [0..<length ts]"
proof -
  have inv: "queue_inv (map snd ts) q" using sem_queue.object_reach [OF assms(1)] by simp
  then have counts: "tsum (over holds_mtx) (map snd ts) = of_bool (mtx q)"
    and asserts: "list_all (case_option True (queue_assert q)) (map snd ts)"
    by (simp_all only: queue_inv_def queue_counts_def)
  have "case_option True (queue_assert q) (map snd ts ! i)"
    using asserts assms(2) by (simp add: list_all_length)
  then have "items q \<noteq> []" using assms(2,3) by simp
  moreover have "over holds_mtx (map snd ts ! i) \<le> tsum (over holds_mtx) (map snd ts)"
    using assms(2) by (intro tsum_member) simp
  then have "mtx q" using assms(2,3) counts by (cases "mtx q") auto
  moreover have "case_option True (\<lambda>k. holds_mtx k = 0) (snd (ts ! j))"
    if "j < length ts" "j \<noteq> i" for j
  proof -
    have "over holds_mtx (map snd ts ! i) + over holds_mtx (map snd ts ! j)
        \<le> tsum (over holds_mtx) (map snd ts)"
      using that assms(2) by (intro tsum_two) auto
    then show ?thesis
      using that assms(2,3) counts by (cases "mtx q") (auto split: option.splits)
  qed
  ultimately show ?thesis
    unfolding list_all_iff by (metis atLeastLessThan_iff set_upt)
qed


section \<open>Every thread and its results\<close>

text \<open>
  The most general client: thread \<open>i\<close> calls the operation \<open>ops i h\<close> that its program chooses
  after the results \<open>h\<close> of its previous calls, and stops when there is none.
\<close>

definition history_prog :: "(nat \<Rightarrow> 'a queue_ret list \<Rightarrow> 'a queue_op option) \<Rightarrow> nat
  \<Rightarrow> 'a queue_ret list list \<Rightarrow> unit \<Rightarrow> ('a queue_op + 'a queue_ret list \<times> unit) option" where
  "history_prog ops i hs c = map_option Inl (ops i (hs ! i))"

definition history_step :: "(nat \<Rightarrow> 'a queue_ret list \<Rightarrow> 'a queue_op option)
  \<Rightarrow> ('a queue_ret list \<times> 'a queue_pc option, 'a sem_queue \<times> unit) stepper" where
  "history_step ops = client_step (history_prog ops) (\<lambda>i h r. h @ [r]) queue_entry queue_step"

definition history_start :: "nat \<Rightarrow> nat
  \<Rightarrow> ('a queue_ret list \<times> 'a queue_pc option, 'a sem_queue \<times> unit) conf" where
  "history_start threads n = client_start (replicate threads []) (sem_queue_ctor n) ()"

fun popped :: "'a queue_ret \<Rightarrow> 'a multiset" where
  "popped (Popped (Some x)) = {#x#}"
| "popped _ = {#}"

fun accepted :: "'a queue_ret \<Rightarrow> nat" where
  "accepted (Pushed True) = 1"
| "accepted _ = 0"

fun refusal :: "'a queue_ret \<Rightarrow> bool" where
  "refusal (Pushed b) = (\<not> b)"
| "refusal (Popped x) = (x = None)"
| "refusal _ = False"

text \<open>An item that a call has taken and not returned; an item enqueued by a call still running.\<close>

fun carried :: "'a queue_pc \<Rightarrow> 'a multiset" where
  "carried (In_Pop k) = (case k of Pop_Give x \<Rightarrow> {#x#} | Pop_Unlock_Taken x \<Rightarrow> {#x#} | _ \<Rightarrow> {#})"
| "carried _ = {#}"

fun entered :: "'a queue_pc \<Rightarrow> nat" where
  "entered (In_Push k) = (case k of Push_Unlock \<Rightarrow> 1 | Push_Release \<Rightarrow> 1 | _ \<Rightarrow> 0)"
| "entered _ = 0"

definition got :: "'a queue_ret list \<times> 'a queue_pc option \<Rightarrow> 'a multiset" where
  "got t = (case t of (h, k) \<Rightarrow> sum_list (map popped h) + case_option {#} carried k)"

definition gave :: "'a queue_ret list \<times> 'a queue_pc option \<Rightarrow> nat" where
  "gave t = (case t of (h, k) \<Rightarrow> sum_list (map accepted h) + case_option 0 entered k)"

definition history_inv :: "nat \<Rightarrow> ('a queue_ret list \<times> 'a queue_pc option, 'a sem_queue \<times> unit) conf
  \<Rightarrow> bool" where
  "history_inv n s = (case s of (ts, (q, c)) \<Rightarrow>
     queue_inv_of n (map snd ts) q \<and>
     mset (log_out q) = tmset got ts \<and>
     length (log_in q) = tsum gave ts \<and>
     list_all (\<lambda>t. list_ex refusal (fst t) \<longrightarrow> closed_flag q \<or> shutdown_flag q) ts)"

lemma queue_step_items:
  assumes "(r, q') \<in> set (queue_step i k q)"
  shows "mset (log_out q') + carried k = mset (log_out q) + case_sum carried popped r"
    and "length (log_in q') + entered k = length (log_in q) + case_sum entered accepted r"
proof -
  have "mset (log_out q') + carried k = mset (log_out q) + case_sum carried popped r
    \<and> length (log_in q') + entered k = length (log_in q) + case_sum entered accepted r"
  proof (cases k)
    case (In_Push p)
    with assms show ?thesis by (cases p) (auto simp: queue_access split: if_splits)
  next
    case (In_Pop p)
    with assms show ?thesis by (cases p) (auto simp: queue_access split: if_splits)
  next
    case (In_Close p)
    with assms show ?thesis by (cases "(p, q)" rule: close_step.cases) (auto simp: queue_access)
  next
    case (In_Look p)
    with assms show ?thesis by (cases p) (auto simp: queue_access split: if_splits)
  qed
  then show "mset (log_out q') + carried k = mset (log_out q) + case_sum carried popped r"
    and "length (log_in q') + entered k = length (log_in q) + case_sum entered accepted r"
    by simp_all
qed

lemma queue_step_refusal:
  assumes "(Inr v, q') \<in> set (queue_step i k q)" "queue_assert q k" "refusal v"
  shows "closed_flag q' \<or> shutdown_flag q'"
proof (cases k)
  case (In_Push p)
  with assms show ?thesis by (cases p) (auto simp: queue_access split: if_splits)
next
  case (In_Pop p)
  with assms show ?thesis by (cases p) (auto simp: queue_access split: if_splits)
next
  case (In_Close p)
  with assms show ?thesis by (cases "(p, q)" rule: close_step.cases) (auto simp: queue_access)
next
  case (In_Look p)
  with assms show ?thesis by (cases p) (auto simp: queue_access split: if_splits)
qed

lemma history_step_inv:
  assumes inv: "history_inv n (ts, (q, c))" and i: "i < length ts"
    and st: "(l, (q', c')) \<in> set (history_step ops i ts (q, c))"
  shows "history_inv n (ts[i := l], (q', c'))"
proof -
  have st': "(l, (q', c')) \<in> set (client_step (history_prog ops) (\<lambda>i h r. h @ [r]) queue_entry
      queue_step i ts (q, c))"
    using st by (simp add: history_step_def)
  have 1: "queue_inv_of n (map snd ts) q" and 2: "mset (log_out q) = tmset got ts"
    and 3: "length (log_in q) = tsum gave ts"
    and 4: "list_all (\<lambda>t. list_ex refusal (fst t) \<longrightarrow> closed_flag q \<or> shutdown_flag q) ts"
    using inv by (simp_all add: history_inv_def)
  have ti: "list_ex refusal (fst (ts ! i)) \<longrightarrow> closed_flag q \<or> shutdown_flag q"
    using 4 i by (auto simp: list_all_length)
  have ak: "queue_assert q k" if "ts ! i = (p, Some k)" for p k
  proof -
    have "list_all (case_option True (queue_assert q)) (map snd ts)" using 1 by (simp add: queue_inv_def)
    then have "case_option True (queue_assert q) (map snd ts ! i)"
      using i by (simp add: list_all_length)
    then show ?thesis using i that by simp
  qed
  have goal: "history_inv n (ts[i := l], (q', c'))"
    if "mset (log_out q') + got (ts ! i) = mset (log_out q) + got l"
      and "length (log_in q') + gave (ts ! i) = length (log_in q) + gave l"
      and "closed_flag q \<longrightarrow> closed_flag q'" "shutdown_flag q \<longrightarrow> shutdown_flag q'"
      and "list_ex refusal (fst l) \<longrightarrow> closed_flag q' \<or> shutdown_flag q'"
  proof -
    have "mset (log_out q') = tmset got (ts[i := l])"
      using that(1) 2 tmset_update [OF i, of got l] by (metis add_right_cancel)
    moreover have "length (log_in q') = tsum gave (ts[i := l])"
      using that(2) 3 tsum_update [OF i, of gave l] by linarith
    moreover have "list_all (\<lambda>t. list_ex refusal (fst t) \<longrightarrow> closed_flag q' \<or> shutdown_flag q') ts"
      using 4 that(3,4) by (auto simp: list_all_iff)
    ultimately show ?thesis
      using sem_queue.object_client_step [OF 1 i st'] that(5)
      by (simp add: history_inv_def list_all_update)
  qed
  from st' show ?thesis
  proof (cases rule: client_step_cases)
    case (call p oper)
    moreover have "carried (queue_entry oper) = {#}" "entered (queue_entry oper) = 0"
      by (cases oper; simp)+
    ultimately show ?thesis using goal ti by (simp add: got_def gave_def)
  next
    case (local p p' c'')
    then show ?thesis by (simp add: history_prog_def)
  next
    case (within p k k' g')
    then show ?thesis
      using goal ti queue_step_items [of "Inl k'" q' i k q] queue_step_frame [of "Inl k'" q' i k q]
      by (auto simp: got_def gave_def ac_simps)
  next
    case (return p k v g')
    then show ?thesis
      using goal ti queue_step_items [of "Inr v" q' i k q] queue_step_frame [of "Inr v" q' i k q]
        queue_step_refusal [of v q' i k q] ak
      by (auto simp: got_def gave_def ac_simps)
  qed
qed

interpretation histories: interleaving "history_step ops" "history_start threads n" "history_inv n"
  for ops threads n
proof unfold_locales
  have "queue_inv (map snd (map (\<lambda>p. (p, None)) (replicate threads []))) (sem_queue_ctor n)"
    by (rule queue_inv_start) (simp add: list_all_iff)
  moreover have "tmset got (replicate threads ([], None)) = {#}"
    by (rule tmset_empty) (auto simp: got_def)
  ultimately show "history_inv n (history_start threads n)"
    by (simp add: history_inv_def history_start_def client_start_def gave_def sem_queue_ctor_def
        list_all_iff)
next
  fix ts s i l s'
  assume "history_inv n (ts, s)" "i < length ts" "(l, s') \<in> set (history_step ops i ts s)"
  then show "history_inv n (ts[i := l], s')"
    by (cases s; cases s') (auto intro: history_step_inv)
qed

text \<open>
  C18. No item is lost, duplicated or invented: in every reachable state of any client, the
  items that \<open>pop\<close> calls have returned or are about to return, over all threads, together with
  the queue's contents are exactly the items enqueued; and these are as many as the \<open>push\<close>
  calls that have returned \<open>true\<close> or are about to.
\<close>

theorem queue_conserves_items:
  assumes "steps (history_step ops) (history_start threads n) (ts, (q, c))"
  shows "tmset got ts + mset (items q) = mset (log_in q) \<and> tsum gave ts = length (log_in q)"
proof -
  have "history_inv n (ts, (q, c))" using assms by (rule histories.reach_inv)
  then have "mset (log_out q) = tmset got ts" "length (log_in q) = tsum gave ts"
    "log_in q = log_out q @ items q"
    by (auto simp: history_inv_def queue_inv_def)
  then show ?thesis by simp
qed

text \<open>
  C22. Operations are refused only for a reason: if a \<open>push\<close> has returned \<open>false\<close> or a \<open>pop\<close> has
  returned \<open>false\<close>, the queue has been closed or shut down.
\<close>

theorem queue_refusals:
  assumes "steps (history_step ops) (history_start threads n) (ts, (q, c))"
    and "i < length ts" and "list_ex refusal (fst (ts ! i))"
  shows "closed_flag q \<or> shutdown_flag q"
proof -
  have "history_inv n (ts, (q, c))" using assms(1) by (rule histories.reach_inv)
  then show ?thesis using assms(2,3) by (auto simp: history_inv_def list_all_length)
qed

section \<open>A failed pop is final\<close>

text \<open>
  A \<open>pop\<close> that has found the queue empty and closed, or has returned \<open>false\<close>; and a \<open>push\<close> that
  can still enqueue: past its last test, or about to make it on a queue not closed.
\<close>

fun gave_up :: "'a queue_ret list \<times> 'a queue_pc option \<Rightarrow> bool" where
  "gave_up (h, k) = (Popped None \<in> set h \<or> k = Some (In_Pop Pop_Drained) \<or> k = Some (In_Pop Pop_Unlock2)
     \<or> k = Some (In_Pop Pop_Shut2) \<or> k = Some (In_Pop Pop_Closed2) \<or> k = Some (In_Pop Pop_Back))"

fun may_enter :: "'a sem_queue \<Rightarrow> 'a queue_pc \<Rightarrow> bool" where
  "may_enter q (In_Push k) = (case k of Push_Enqueue x \<Rightarrow> True | Push_Closed3 x \<Rightarrow> \<not> closed_flag q | _ \<Rightarrow> False)"
| "may_enter q _ = False"

definition drain_inv :: "('a queue_ret list \<times> 'a queue_pc option, 'a sem_queue \<times> unit) conf \<Rightarrow> bool" where
  "drain_inv s = (case s of (ts, (q, c)) \<Rightarrow>
     list_ex gave_up ts \<longrightarrow> (closed_flag q \<or> shutdown_flag q) \<and> items q = [] \<and>
       list_all (\<lambda>t. case_option True (\<lambda>k. \<not> may_enter q k) (snd t)) ts)"

lemma may_enter_holds_mtx: "may_enter q k \<Longrightarrow> holds_mtx k = 1"
  by (cases k) (auto split: push_pc.splits)

lemma may_enter_frame: "\<not> may_enter q k \<Longrightarrow> (closed_flag q \<longrightarrow> closed_flag q') \<Longrightarrow> \<not> may_enter q' k"
  by (cases k) (auto split: push_pc.splits)

text \<open>A step on a closed and empty queue that nobody may enter leaves it so.\<close>

lemma drained_step:
  assumes "(r, q') \<in> set (queue_step i k q)" "queue_assert q k"
    and "closed_flag q \<or> shutdown_flag q" "items q = []" "\<not> may_enter q k"
  shows "items q' = []" "case r of Inl k' \<Rightarrow> \<not> may_enter q' k' | Inr v \<Rightarrow> True"
proof -
  have "items q' = [] \<and> (case r of Inl k' \<Rightarrow> \<not> may_enter q' k' | Inr v \<Rightarrow> True)"
  proof (cases k)
    case (In_Push p)
    with assms show ?thesis by (cases p) (auto simp: queue_access split: if_splits)
  next
    case (In_Pop p)
    with assms show ?thesis by (cases p) (auto simp: queue_access split: if_splits)
  next
    case (In_Close p)
    with assms show ?thesis by (cases "(p, q)" rule: close_step.cases) (auto simp: queue_access)
  next
    case (In_Look p)
    with assms show ?thesis by (cases p) (auto simp: queue_access split: if_splits)
  qed
  then show "items q' = []" "case r of Inl k' \<Rightarrow> \<not> may_enter q' k' | Inr v \<Rightarrow> True" by simp_all
qed

text \<open>The step with which a \<open>pop\<close> gives up is made under the mutex, on an empty closed queue.\<close>

lemma giving_up_step:
  assumes "(r, q') \<in> set (queue_step i k q)" "queue_assert q k"
    and "queue_counts m e f c wc wp q" "holds_filled k \<le> f"
    and "gave_up (h', k')" "\<not> gave_up (h, Some k)"
    and "(case r of Inl p \<Rightarrow> h' = h \<and> k' = Some p | Inr v \<Rightarrow> h' = h @ [v] \<and> k' = None)"
  shows "q' = q \<and> holds_mtx k = 1 \<and> items q = [] \<and> (closed_flag q \<or> shutdown_flag q)"
proof (cases k)
  case (In_Push p)
  with assms show ?thesis by (cases p) (auto simp: queue_access split: if_splits)
next
  case (In_Pop p)
  with assms show ?thesis by (cases p) (auto simp: queue_access queue_counts_def split: if_splits)
next
  case (In_Close p)
  with assms show ?thesis by (cases "(p, q)" rule: close_step.cases) (auto simp: queue_access)
next
  case (In_Look p)
  with assms show ?thesis by (cases p) (auto simp: queue_access split: if_splits)
qed

lemma gave_up_before:
  assumes "list_ex gave_up (ts[i := l])" "gave_up l \<Longrightarrow> gave_up (ts ! i)" "i < length ts"
  shows "\<exists>t \<in> set ts. gave_up t"
proof -
  from assms(1) obtain t where "t \<in> set (ts[i := l])" "gave_up t" by (auto simp: list_ex_iff)
  then have "gave_up l \<or> (\<exists>t \<in> set ts. gave_up t)"
    using set_update_subset_insert [of ts i l] by blast
  then show ?thesis using assms(2,3) nth_mem by blast
qed

lemma drain_move:
  assumes inv: "queue_inv (map snd ts) q" and drain: "drain_inv (ts, (q, c))" and i: "i < length ts"
    and k: "ts ! i = (h, Some k)" and r: "(r, q') \<in> set (queue_step i k q)"
    and l: "case r of Inl p \<Rightarrow> l = (h, Some p) | Inr v \<Rightarrow> l = (h @ [v], None)"
  shows "drain_inv (ts[i := l], (q', c'))"
proof -
  from inv have counts: "queue_counts (tsum (over holds_mtx) (map snd ts)) (tsum (over holds_empty) (map snd ts))
       (tsum (over holds_filled) (map snd ts)) (tsum (over committed) (map snd ts))
       (tsum (over wakes_consumers) (map snd ts)) (tsum (over (wakes_producers (max_size q))) (map snd ts)) q"
    and asserts: "list_all (case_option True (queue_assert q)) (map snd ts)"
    by (simp_all only: queue_inv_def)
  note old = gave_up_before [of ts i l, OF _ _ i]
  have "case_option True (queue_assert q) (map snd ts ! i)" using asserts i by (simp add: list_all_length)
  then have qa: "queue_assert q k" using i k by simp
  have hf: "holds_filled k \<le> tsum (over holds_filled) (map snd ts)"
    using tsum_member [of i "map snd ts" "over holds_filled"] i k by simp
  note frame = queue_step_frame [OF r]
  show ?thesis
  proof (cases "list_ex gave_up ts")
    case True
    then have d: "closed_flag q \<or> shutdown_flag q" "items q = []"
      "list_all (\<lambda>t. case_option True (\<lambda>k. \<not> may_enter q k) (snd t)) ts"
      using drain by (simp_all add: drain_inv_def)
    have "case_option True (\<lambda>k. \<not> may_enter q k) (snd (ts ! i))" using d(3) i by (simp add: list_all_length)
    then have "\<not> may_enter q k" using k by simp
    note ds = drained_step [OF r qa d(1,2) this]
    have "case_option True (\<lambda>k. \<not> may_enter q' k) (snd l)"
      using ds(2) l by (cases r) auto
    moreover have "list_all (\<lambda>t. case_option True (\<lambda>k. \<not> may_enter q' k) (snd t)) ts"
      using d(3) frame may_enter_frame by (fastforce simp: list_all_iff split: option.splits)
    ultimately show ?thesis using ds(1) d(1) frame by (auto simp: drain_inv_def list_all_update)
  next
    case False
    then have none: "\<not> gave_up (h, Some k)" using i k by (metis list_ex_length)
    show ?thesis
    proof (cases "gave_up l")
      case False
      then show ?thesis
        using old \<open>\<not> list_ex gave_up ts\<close> by (auto simp: drain_inv_def list_ex_iff)
    next
      case True
      obtain h' k' where l': "l = (h', k')" by force
      have g: "q' = q \<and> holds_mtx k = 1 \<and> items q = [] \<and> (closed_flag q \<or> shutdown_flag q)"
      proof (rule giving_up_step [OF r qa counts hf _ none])
        show "gave_up (h', k')" using True l' by simp
        show "case r of Inl p \<Rightarrow> h' = h \<and> k' = Some p | Inr v \<Rightarrow> h' = h @ [v] \<and> k' = None"
          using l l' by (cases r) simp_all
      qed
      have others: "case_option True (\<lambda>k. \<not> may_enter q k) (snd (ts ! j))" if "j < length ts" "j \<noteq> i" for j
      proof -
        have "over holds_mtx (map snd ts ! i) + over holds_mtx (map snd ts ! j)
            \<le> tsum (over holds_mtx) (map snd ts)"
          using that i by (intro tsum_two) auto
        also have "\<dots> \<le> 1" using counts by (simp add: queue_counts_def)
        finally show ?thesis
          using g k that i may_enter_holds_mtx by (fastforce split: option.splits)
      qed
      have own: "case_option True (\<lambda>k. \<not> may_enter q k) (snd l)"
        using True none l by (auto split: sum.splits)
      have "case_option True (\<lambda>k. \<not> may_enter q k) (snd (ts[i := l] ! j))" if "j < length ts" for j
        using others [OF that] own i by (cases "j = i") simp_all
      then show ?thesis using g by (simp add: drain_inv_def list_all_length)
    qed
  qed
qed

lemma drain_step:
  assumes inv: "queue_inv (map snd ts) q" and drain: "drain_inv (ts, (q, c))" and i: "i < length ts"
    and st: "(l, (q', c')) \<in> set (history_step ops i ts (q, c))"
  shows "drain_inv (ts[i := l], (q', c'))"
proof -
  note old = gave_up_before [of ts i l, OF _ _ i]
  have st': "(l, (q', c')) \<in> set (client_step (history_prog ops) (\<lambda>i h r. h @ [r]) queue_entry
      queue_step i ts (q, c))" using st by (simp add: history_step_def)
  have quiet: "drain_inv (ts[i := l], (q', c'))"
    if "q' = q" "gave_up l \<Longrightarrow> gave_up (ts ! i)" "case_option True (\<lambda>k. \<not> may_enter q k) (snd l)"
    using drain old that unfolding drain_inv_def by (auto simp: list_ex_iff intro!: list_all_update)
  note move = drain_move [OF inv drain i]
  from st' show ?thesis
  proof (cases rule: client_step_cases)
    case (call p oper)
    then show ?thesis by (intro quiet) (cases oper; simp)+
  next
    case (local p p' c'')
    then show ?thesis by (simp add: history_prog_def)
  next
    case (within p k k' g')
    then show ?thesis using move [of p k "Inl k'"] by simp
  next
    case (return p k v g')
    then show ?thesis using move [of p k "Inr v"] by simp
  qed
qed

interpretation drains: interleaving "history_step ops" "history_start threads n"
  "\<lambda>s. history_inv n s \<and> drain_inv s" for ops threads n
proof unfold_locales
  show "history_inv n (history_start threads n) \<and> drain_inv (history_start threads n)"
    using histories.start_inv
    by (auto simp: drain_inv_def history_start_def client_start_def list_ex_iff)
next
  fix ts s i l s'
  assume inv: "history_inv n (ts, s) \<and> drain_inv (ts, s)" and i: "i < length ts"
    and st: "(l, s') \<in> set (history_step ops i ts s)"
  obtain q c where s: "s = (q, c)" by (cases s)
  obtain q' c' where s': "s' = (q', c')" by (cases s')
  have "queue_inv (map snd ts) q" using inv s by (simp add: history_inv_def)
  then show "history_inv n (ts[i := l], s') \<and> drain_inv (ts[i := l], s')"
    using inv i st s s' histories.act_inv drain_step by blast
qed

text \<open>
  C19. A failed \<open>pop\<close> is final: once a \<open>pop\<close> of any thread has returned \<open>false\<close>, the queue is
  empty and every item that has ever been accepted has been popped, in this and in every
  later state, even when \<open>close\<close> or \<open>shutdown\<close> ran concurrently with pushes: an accepted item
  is never stranded behind a consumer that has been told that there are no more.
\<close>

theorem failed_pop_is_final:
  assumes "steps (history_step ops) (history_start threads n) (ts, (q, c))"
    and "i < length ts" and "Popped None \<in> set (fst (ts ! i))"
  shows "items q = [] \<and> tmset got ts = mset (log_in q)"
proof -
  have inv: "history_inv n (ts, (q, c)) \<and> drain_inv (ts, (q, c))"
    using assms(1) by (rule drains.reach_inv)
  have "gave_up (ts ! i)" using assms(3) by (cases "ts ! i") auto
  then have "list_ex gave_up ts" using assms(2) by (auto simp: list_ex_length)
  then have "items q = []" using inv by (simp add: drain_inv_def)
  with inv show ?thesis by (simp add: history_inv_def queue_inv_def)
qed

section \<open>One thread alone\<close>

text \<open>
  A call run by one thread with nobody else: \<open>None\<close> when it blocks, or when \<open>fuel\<close> steps are not
  enough for it.
\<close>

fun run_alone :: "nat \<Rightarrow> 'a queue_pc \<Rightarrow> 'a sem_queue \<Rightarrow> ('a queue_ret \<times> 'a sem_queue) option" where
  "run_alone 0 k q = None"
| "run_alone (Suc fuel) k q =
     (case queue_step 0 k q of
        [(Inl k', q')] \<Rightarrow> run_alone fuel k' q'
      | [(Inr v, q')] \<Rightarrow> Some (v, q')
      | _ \<Rightarrow> None)"

text \<open>The reference: a sequential bounded queue; \<open>None\<close> is a call that blocks.\<close>

fun seq_fifo :: "nat \<Rightarrow> 'a queue_op \<Rightarrow> 'a list \<times> bool \<times> bool
  \<Rightarrow> ('a queue_ret \<times> 'a list \<times> bool \<times> bool) option" where
  "seq_fifo n (Push x) (xs, cl, dn) =
     (if cl \<or> dn then Some (Pushed False, (xs, cl, dn))
      else if length xs < n then Some (Pushed True, (xs @ [x], cl, dn)) else None)"
| "seq_fifo n Pop (xs, cl, dn) =
     (case xs of
        y # ys \<Rightarrow> Some (Popped (Some y), (ys, cl, dn))
      | [] \<Rightarrow> if cl \<or> dn then Some (Popped None, (xs, cl, dn)) else None)"
| "seq_fifo n Close (xs, cl, dn) = Some (Void, (xs, True, dn))"
| "seq_fifo n Shutdown (xs, cl, dn) = Some (Void, (xs, True, True))"
| "seq_fifo n Size (xs, cl, dn) = Some (Observed (length xs), (xs, cl, dn))"
| "seq_fifo n Is_Shutdown (xs, cl, dn) = Some (Observed (of_bool dn), (xs, cl, dn))"
| "seq_fifo n Is_Closed (xs, cl, dn) = Some (Observed (of_bool cl), (xs, cl, dn))"

lemma run_close_wake:
  "run_alone (Suc (m + fuel)) (In_Close (Close_Wake m)) q
    = Some (Void, q\<lparr>filled_slots := filled_slots q + m\<rparr>)"
  by (induction m arbitrary: q) (simp_all add: release_filled_def)

lemma run_wake_producers:
  "run_alone (Suc (m + fuel)) (In_Close (Shut_Wake_Producers m)) q
    = Some (Void, q\<lparr>empty_slots := empty_slots q + m\<rparr>)"
  by (induction m arbitrary: q) (simp_all add: release_empty_def)

lemma run_wake_consumers:
  "run_alone (Suc (m + fuel)) (In_Close (Shut_Wake_Consumers m)) q
    = run_alone fuel (In_Close (Shut_Wake_Producers (Suc (max_size q))))
        (q\<lparr>filled_slots := filled_slots q + m\<rparr>)"
  by (induction m arbitrary: q) (simp_all add: release_filled_def)

lemma run_close_start:
  "run_alone (Suc fuel) (In_Close Close_Store) q
    = run_alone fuel (In_Close (Close_Wake (Suc (max_size q)))) (q\<lparr>closed_flag := True\<rparr>)"
  by simp

lemma run_shutdown_start:
  "run_alone (Suc (Suc fuel)) (In_Close Shut_Store) q
    = run_alone fuel (In_Close (Shut_Wake_Consumers (Suc (max_size q))))
        (q\<lparr>shutdown_flag := True, closed_flag := True\<rparr>)"
  by simp

lemma quiescent:
  assumes "queue_inv_of n [] q"
  shows "\<not> mtx q" "max_size q = n" "\<not> shutdown_flag q \<Longrightarrow> empty_slots q + length (items q) = n"
    "\<not> closed_flag q \<Longrightarrow> filled_slots q = length (items q)" "length (items q) \<le> filled_slots q"
  using assms by (auto simp: queue_inv_def queue_counts_def)

lemma run_push:
  assumes "queue_inv_of n [] q"
  shows "map_option (\<lambda>(v, q'). (v, abs_queue q')) (run_alone (20 + fuel) (queue_entry (Push x)) q)
    = seq_fifo n (Push x) (abs_queue q)"
  using quiescent [OF assms]
  by (cases "shutdown_flag q"; cases "closed_flag q"; cases "empty_slots q = 0")
    (auto simp: numeral_eq_Suc abs_queue_def queue_access)

lemma run_pop:
  assumes "queue_inv_of n [] q"
  shows "map_option (\<lambda>(v, q'). (v, abs_queue q')) (run_alone (20 + fuel) (queue_entry Pop) q)
    = seq_fifo n Pop (abs_queue q)"
  using quiescent [OF assms]
  by (cases "items q"; cases "shutdown_flag q"; cases "closed_flag q"; cases "filled_slots q = 0")
    (auto simp: numeral_eq_Suc abs_queue_def queue_access)

lemma run_close:
  assumes "queue_inv_of n [] q"
  shows "map_option (\<lambda>(v, q'). (v, abs_queue q')) (run_alone (2 * n + 20 + fuel) (queue_entry Close) q)
    = seq_fifo n Close (abs_queue q)"
proof -
  have "run_alone (2 * n + 20 + fuel) (queue_entry Close) q
      = run_alone (Suc (Suc (Suc n + (n + 17 + fuel)))) (In_Close Close_Store) q"
    by (rule arg_cong3 [where f = run_alone]) simp_all
  also have "\<dots> = run_alone (Suc (Suc n + (n + 17 + fuel))) (In_Close (Close_Wake (Suc n)))
      (q\<lparr>closed_flag := True\<rparr>)"
    by (simp only: run_close_start quiescent(2) [OF assms])
  finally show ?thesis by (simp only: run_close_wake) (simp add: abs_queue_def)
qed

lemma run_shutdown:
  assumes "queue_inv_of n [] q"
  shows "map_option (\<lambda>(v, q'). (v, abs_queue q'))
      (run_alone (2 * n + 20 + fuel) (queue_entry Shutdown) q)
    = seq_fifo n Shutdown (abs_queue q)"
proof -
  have "run_alone (2 * n + 20 + fuel) (queue_entry Shutdown) q
      = run_alone (Suc (Suc (Suc (Suc n + Suc (Suc n + (14 + fuel)))))) (In_Close Shut_Store) q"
    by (rule arg_cong3 [where f = run_alone]) simp_all
  also have "\<dots> = run_alone (Suc (Suc n + Suc (Suc n + (14 + fuel)))) (In_Close (Shut_Wake_Consumers (Suc n)))
      (q\<lparr>shutdown_flag := True, closed_flag := True\<rparr>)"
    by (simp only: run_shutdown_start quiescent(2) [OF assms])
  also have "\<dots> = run_alone (Suc (Suc n + (14 + fuel))) (In_Close (Shut_Wake_Producers (Suc n)))
      (q\<lparr>shutdown_flag := True, closed_flag := True, filled_slots := filled_slots q + Suc n\<rparr>)"
    using quiescent(2) [OF assms] by (simp only: run_wake_consumers) simp
  finally show ?thesis by (simp only: run_wake_producers) (simp add: abs_queue_def)
qed

lemma run_looks:
  assumes "queue_inv_of n [] q" and "oper \<in> {Size, Is_Shutdown, Is_Closed}"
  shows "map_option (\<lambda>(v, q'). (v, abs_queue q')) (run_alone (20 + fuel) (queue_entry oper) q)
    = seq_fifo n oper (abs_queue q)"
  using quiescent [OF assms(1)] assms(2)
  by (auto simp: numeral_eq_Suc abs_queue_def queue_access)

text \<open>
  C20. Every operation, called by one thread while no other call is in progress, does what a
  sequential bounded queue does: same result, same contents and flags, and it blocks (on a full
  open queue or an empty open queue) exactly when the reference has no result.  \<open>2n + 20\<close>
  steps are enough for a queue of capacity \<open>n\<close>: two wake loops of \<open>n + 1\<close> releases.
\<close>

theorem queue_alone_sequential:
  assumes "queue_inv_of n [] q"
  shows "map_option (\<lambda>(v, q'). (v, abs_queue q')) (run_alone (2 * n + 20 + fuel) (queue_entry oper) q)
    = seq_fifo n oper (abs_queue q)"
proof -
  have eq: "20 + (2 * n + fuel) = 2 * n + 20 + fuel" by simp
  show ?thesis
    using run_push [OF assms, of "2 * n + fuel"] run_pop [OF assms, of "2 * n + fuel"]
      run_close [OF assms] run_shutdown [OF assms] run_looks [OF assms, of oper "2 * n + fuel"]
    unfolding eq by (cases oper) auto
qed

text \<open>The sequential part of \<open>test_semaphore_queue\<close> in tests/test\_smoke.cpp.\<close>

fun run_calls :: "nat \<Rightarrow> 'a queue_op list \<Rightarrow> 'a sem_queue \<Rightarrow> 'a queue_ret option list" where
  "run_calls fuel [] q = []"
| "run_calls fuel (oper # opers) q =
     (case run_alone fuel (queue_entry oper) q of
        None \<Rightarrow> [None]
      | Some (v, q') \<Rightarrow> Some v # run_calls fuel opers q')"

definition queue_expectations :: "int queue_ret option list" where
  "queue_expectations =
     run_calls 24 [Push 1, Push 2, Pop, Pop, Shutdown, Is_Shutdown, Push 3, Pop] (sem_queue_ctor 2)"

text \<open>
  The sequential expectations of the smoke test on a queue of capacity 2 hold: two pushes
  succeed, two pops return the items in order, and after a shutdown the queue reports it and
  rejects a push and a pop.
\<close>

theorem queue_expectations_met:
  "queue_expectations = map Some [Pushed True, Pushed True, Popped (Some 1), Popped (Some 2),
     Void, Observed 1, Pushed False, Popped None]"
  by (simp add: queue_expectations_def numeral_eq_Suc queue_access sem_queue_ctor_def)

section \<open>Concrete runs\<close>

lemmas history_evals = history_step_def history_start_def client_start_def client_step.simps
  history_prog_def sem_queue_ctor_def queue_access

text \<open>Thread 0 pushes an item, thread 1 pops.\<close>

definition push_pop_ops :: "nat \<Rightarrow> int queue_ret list \<Rightarrow> int queue_op option" where
  "push_pop_ops i h = (if h \<noteq> [] then None else if i = 0 then Some (Push 7) else Some Pop)"

lemma push_pop_run:
  "exec (history_step push_pop_ops) (history_start 2 1) (replicate 12 (0, 0) @ replicate 7 (1, 0))
   = Some ([([Pushed True], None), ([], Some (In_Pop Pop_Take))],
       (\<lparr>mtx = True, items = [7], empty_slots = 0, filled_slots = 0, max_size = 1,
         closed_flag = False, shutdown_flag = False, log_in = [7], log_out = []\<rparr>, ()))"
  by (simp add: history_evals push_pop_ops_def numeral_eq_Suc)

lemmas push_pop_steps = exec_steps [OF push_pop_run]

lemmas push_pop_client = push_pop_steps [unfolded history_step_def history_start_def]

theorem queue_refines_fifo_witness:
  "steps (client_step (history_prog push_pop_ops) (\<lambda>i h r. h @ [r]) Asked (fifo_step 1))
    (client_start (replicate 2 []) ([], False, False) ())
    ([([Pushed True], None), ([], Some (Asked Pop))], (([7 :: int], False, False), ()))"
  using queue_refines_fifo [OF push_pop_client] by (simp add: fifo_of_def)

theorem queue_front_safe_witness:
  "\<exists>ts q. steps (history_step push_pop_ops) (history_start 2 1) (ts, (q, ()))
    \<and> snd (ts ! 1) = Some (In_Pop Pop_Take) \<and> items q \<noteq> []"
  using queue_front_safe [OF push_pop_client, of 1] push_pop_steps by fastforce

theorem queue_conserves_items_witness:
  "\<exists>ts q. steps (history_step push_pop_ops) (history_start 2 1) (ts, (q, ()))
    \<and> tmset got ts + mset (items q) = {#7#} \<and> tsum gave ts = 1"
  using queue_conserves_items [OF push_pop_steps] push_pop_steps by fastforce



text \<open>
  \<open>close\<close> wakes the consumers only: a push that waits for a slot when the queue is closed goes on
  waiting until a pop makes room, and with no pop in progress nobody can take a step.
\<close>

definition push_close_ops :: "nat \<Rightarrow> int queue_ret list \<Rightarrow> int queue_op option" where
  "push_close_ops i h = (if i = 1 then (if h = [] then Some (Push 8) else None)
     else if h = [] then Some (Push 7) else if length h = 1 then Some Close else None)"

theorem closed_queue_blocks_push:
  "\<exists>ts q. steps (history_step push_close_ops) (history_start 2 1) (ts, (q, ()))
    \<and> stuck (history_step push_close_ops) (ts, (q, ()))
    \<and> snd (ts ! 1) = Some (In_Push (Push_Acquire 8)) \<and> closed_flag q \<and> items q = [7]"
proof -
  let ?ts = "[([Pushed True, Void], None), ([], Some (In_Push (Push_Acquire 8)))]"
  let ?q = "\<lparr>mtx = False, items = [7], empty_slots = 0, filled_slots = 3, max_size = 1,
      closed_flag = True, shutdown_flag = False, log_in = [7], log_out = []\<rparr> :: int sem_queue"
  have "exec (history_step push_close_ops) (history_start 2 1)
      (replicate 12 (0, 0) @ replicate 3 (1, 0) @ replicate 5 (0, 0)) = Some (?ts, (?q, ()))"
    by (simp add: history_evals push_close_ops_def numeral_eq_Suc)
  then have "steps (history_step push_close_ops) (history_start 2 1) (?ts, (?q, ()))" by (rule exec_steps)
  moreover have "stuck (history_step push_close_ops) (?ts, (?q, ()))"
    by (simp add: stuck_def history_evals push_close_ops_def upt_rec)
  ultimately show ?thesis by (intro exI conjI) (assumption, simp_all)
qed

text \<open>A push after a close.\<close>

definition close_push_ops :: "nat \<Rightarrow> int queue_ret list \<Rightarrow> int queue_op option" where
  "close_push_ops i h = (if h = [] then Some Close else if length h = 1 then Some (Push 7) else None)"

lemma close_push_run:
  "exec (history_step close_push_ops) (history_start 1 0) (replicate 7 (0, 0))
   = Some ([([Void, Pushed False], None)],
       (\<lparr>mtx = False, items = [], empty_slots = 0, filled_slots = 1, max_size = 0,
         closed_flag = True, shutdown_flag = False, log_in = [], log_out = []\<rparr>, ()))"
  by (simp add: history_evals close_push_ops_def numeral_eq_Suc)

theorem queue_refusals_witness:
  "\<exists>ts q. steps (history_step close_push_ops) (history_start 1 0) (ts, (q, ()))
    \<and> list_ex refusal (fst (ts ! 0)) \<and> closed_flag q"
  using queue_refusals [OF exec_steps [OF close_push_run], of 0] exec_steps [OF close_push_run]
  by fastforce

theorem queue_alone_sequential_witness:
  "map_option (\<lambda>(v, q'). (v, abs_queue q')) (run_alone 24 (queue_entry (Push (5::int))) (sem_queue_ctor 2))
    = Some (Pushed True, ([5], False, False))"
proof -
  have "queue_inv_of 2 [] (sem_queue_ctor 2)"
    using queue_inv_start [of "[]" 2] by (simp add: sem_queue_ctor_def)
  from queue_alone_sequential [OF this, of 0 "Push (5::int)"] show ?thesis
    by (simp add: abs_queue_def sem_queue_ctor_def)
qed

text \<open>Thread 0 closes the queue, thread 1 then pops.\<close>

definition close_pop_ops :: "nat \<Rightarrow> int queue_ret list \<Rightarrow> int queue_op option" where
  "close_pop_ops i h = (if h \<noteq> [] then None else if i = 0 then Some Close else Some Pop)"

lemma close_pop_run:
  "exec (history_step close_pop_ops) (history_start 2 0) (replicate 4 (0, 0) @ replicate 6 (1, 0))
   = Some ([([Void], None), ([Popped None], None)],
       (\<lparr>mtx = False, items = [], empty_slots = 0, filled_slots = 1, max_size = 0,
         closed_flag = True, shutdown_flag = False, log_in = [], log_out = []\<rparr>, ()))"
  by (simp add: history_evals close_pop_ops_def numeral_eq_Suc)

theorem failed_pop_is_final_witness:
  "\<exists>ts q. steps (history_step close_pop_ops) (history_start 2 0) (ts, (q, ()))
    \<and> Popped None \<in> set (fst (ts ! 1)) \<and> items q = []"
  using failed_pop_is_final [OF exec_steps [OF close_pop_run], of 1] exec_steps [OF close_pop_run]
  by fastforce

end
