(* ===== verification/Semaphore_Session.thy ===== *)
theory Semaphore_Session
  imports Semaphore_Spec Fairness
begin

text \<open>
  The sessions that use the semaphore queue: one iteration of the benchmarks
  \<open>ProducerConsumer_SPSC_Semaphore\<close> and \<open>ProducerConsumer_MPMC_Semaphore\<close> of
  src/bench\_pc\_semaphore.cpp, and the single producer, single consumer session of
  tests/test\_smoke.cpp.  Thread 0 is the main thread; the producers follow, then the consumers.
  Every session with at least one producer, one consumer and one slot is proved to finish
  with all items produced, consumed and counted.
\<close>

section \<open>The programs\<close>

datatype variant = MPMC | SPSC | Smoke

record session =
  variant :: variant
  capacity :: nat
  producers :: nat
  consumers :: nat
  per_producer :: nat

definition spsc_session :: "nat \<Rightarrow> session" where
  "spsc_session queue_capacity = \<lparr>variant = SPSC, capacity = queue_capacity, producers = 1,
     consumers = 1, per_producer = 10000\<rparr>"

definition mpmc_session :: "nat \<Rightarrow> session" where
  "mpmc_session num_threads = \<lparr>variant = MPMC, capacity = 50, producers = num_threads div 2,
     consumers = num_threads - num_threads div 2, per_producer = 1000\<rparr>"

definition smoke_session :: session where
  "smoke_session = \<lparr>variant = Smoke, capacity = 4, producers = 1, consumers = 1, per_producer = 100\<rparr>"

datatype boss_pc =
    Boss_Spawn nat
  | Boss_Join_Producers nat
  | Boss_Close
  | Boss_Join_Consumers nat
  | Boss_Shutdown
  | Boss_Done

datatype producer_pc =
    Producer_Unborn
  | Producer_Loop nat
  | Producer_Record nat
  | Producer_Close
  | Producer_Done

datatype consumer_pc =
    Consumer_Unborn
  | Consumer_Pop
  | Consumer_Count
  | Consumer_Record
  | Consumer_Done

datatype session_pc =
    Boss boss_pc
  | Producer nat producer_pc
  | Consumer nat consumer_pc

text \<open>The shared variables of a session besides the queue.\<close>

record tallies =
  items_consumed :: uint64
  producer_tracker :: variance_tracker
  consumer_tracker :: variance_tracker

text \<open>\<open>static_cast<int>(producer_id * items_per_producer + j)\<close>.\<close>

definition item_of :: "session \<Rightarrow> nat \<Rightarrow> nat \<Rightarrow> 32 word" where
  "item_of s producer_id j = of_nat (producer_id * per_producer s + j)"

fun started :: "session_pc \<Rightarrow> nat \<Rightarrow> bool" where
  "started (Boss (Boss_Spawn k)) j = (j < k)"
| "started p j = True"

fun boss_prog :: "session \<Rightarrow> boss_pc \<Rightarrow> session_pc list \<Rightarrow> (32 word queue_op + boss_pc) option" where
  "boss_prog s (Boss_Spawn k) ps =
     Some (Inr (if k < producers s + consumers s then Boss_Spawn (Suc k) else Boss_Join_Producers 0))"
| "boss_prog s (Boss_Join_Producers k) ps =
     (if k < producers s
      then if ps ! Suc k = Producer k Producer_Done then Some (Inr (Boss_Join_Producers (Suc k))) else None
      else Some (Inr (if variant s = MPMC then Boss_Close else Boss_Join_Consumers 0)))"
| "boss_prog s Boss_Close ps = Some (Inl Close)"
| "boss_prog s (Boss_Join_Consumers k) ps =
     (if k < consumers s
      then if ps ! Suc (producers s + k) = Consumer k Consumer_Done
           then Some (Inr (Boss_Join_Consumers (Suc k))) else None
      else Some (Inr (if variant s = Smoke then Boss_Done else Boss_Shutdown)))"
| "boss_prog s Boss_Shutdown ps = Some (Inl Shutdown)"
| "boss_prog s Boss_Done ps = None"

fun producer_prog :: "session \<Rightarrow> nat \<Rightarrow> producer_pc \<Rightarrow> session_pc list \<Rightarrow> tallies
  \<Rightarrow> (32 word queue_op + producer_pc \<times> tallies) option" where
  "producer_prog s pid Producer_Unborn ps c =
     (if started (ps ! 0) pid then Some (Inr (Producer_Loop 0, c)) else None)"
| "producer_prog s pid (Producer_Loop j) ps c =
     Some (if j < per_producer s then Inl (Push (item_of s pid j))
           else Inr (if variant s = MPMC then Producer_Done else Producer_Close, c))"
| "producer_prog s pid (Producer_Record j) ps c =
     Some (Inr (Producer_Loop (Suc j), c\<lparr>producer_tracker := record_operation pid (producer_tracker c)\<rparr>))"
| "producer_prog s pid Producer_Close ps c = Some (Inl Close)"
| "producer_prog s pid Producer_Done ps c = None"

fun consumer_prog :: "session \<Rightarrow> nat \<Rightarrow> consumer_pc \<Rightarrow> session_pc list \<Rightarrow> tallies
  \<Rightarrow> (32 word queue_op + consumer_pc \<times> tallies) option" where
  "consumer_prog s cid Consumer_Unborn ps c =
     (if started (ps ! 0) (producers s + cid) then Some (Inr (Consumer_Pop, c)) else None)"
| "consumer_prog s cid Consumer_Pop ps c = Some (Inl Pop)"
| "consumer_prog s cid Consumer_Count ps c =
     Some (Inr (if variant s = MPMC then Consumer_Record else Consumer_Pop,
       c\<lparr>items_consumed := items_consumed c + 1\<rparr>))"
| "consumer_prog s cid Consumer_Record ps c =
     Some (Inr (Consumer_Pop, c\<lparr>consumer_tracker := record_operation cid (consumer_tracker c)\<rparr>))"
| "consumer_prog s cid Consumer_Done ps c = None"

definition session_prog :: "session \<Rightarrow> nat \<Rightarrow> session_pc list \<Rightarrow> tallies
  \<Rightarrow> (32 word queue_op + session_pc \<times> tallies) option" where
  "session_prog s i ps c =
     (case ps ! i of
        Boss b \<Rightarrow> map_option (map_sum id (\<lambda>b'. (Boss b', c))) (boss_prog s b ps)
      | Producer pid p \<Rightarrow> map_option (map_sum id (map_prod (Producer pid) id)) (producer_prog s pid p ps c)
      | Consumer cid p \<Rightarrow> map_option (map_sum id (map_prod (Consumer cid) id)) (consumer_prog s cid p ps c))"

text \<open>
  After a call.  A producer whose push is refused leaves its loop; in the smoke test it then
  returns without closing the queue.
\<close>

fun session_after :: "session \<Rightarrow> nat \<Rightarrow> session_pc \<Rightarrow> 32 word queue_ret \<Rightarrow> session_pc" where
  "session_after s i (Boss b) r =
     Boss (if b = Boss_Close then Boss_Join_Consumers 0 else Boss_Done)"
| "session_after s i (Producer pid p) r =
     Producer pid (case p of
        Producer_Loop j \<Rightarrow>
          if r = Pushed True then if variant s = MPMC then Producer_Record j else Producer_Loop (Suc j)
          else if variant s = SPSC then Producer_Close else Producer_Done
      | _ \<Rightarrow> Producer_Done)"
| "session_after s i (Consumer cid p) r =
     Consumer cid (if r = Popped None then Consumer_Done else Consumer_Count)"

definition session_step :: "session
  \<Rightarrow> (session_pc \<times> 32 word queue_pc option, 32 word sem_queue \<times> tallies) stepper" where
  "session_step s = client_step (session_prog s) (session_after s) queue_entry queue_step"

definition session_start :: "session
  \<Rightarrow> (session_pc \<times> 32 word queue_pc option, 32 word sem_queue \<times> tallies) conf" where
  "session_start s = client_start
     (Boss (Boss_Spawn 0) # map (\<lambda>i. Producer i Producer_Unborn) [0..<producers s]
       @ map (\<lambda>i. Consumer i Consumer_Unborn) [0..<consumers s])
     (sem_queue_ctor (capacity s))
     \<lparr>items_consumed = 0, producer_tracker = variance_tracker_ctor (producers s),
      consumer_tracker = variance_tracker_ctor (consumers s)\<rparr>"

text \<open>The end of a session, as it should be.\<close>

definition first_items :: "session \<Rightarrow> nat \<Rightarrow> nat \<Rightarrow> 32 word multiset" where
  "first_items s pid n = mset (map (item_of s pid) [0..<n])"

definition all_items :: "session \<Rightarrow> 32 word multiset" where
  "all_items s = sum_list (map (\<lambda>pid. first_items s pid (per_producer s)) [0..<producers s])"

definition session_done :: "session
  \<Rightarrow> (session_pc \<times> 32 word queue_pc option, 32 word sem_queue \<times> tallies) conf \<Rightarrow> bool" where
  "session_done s conf = (case conf of (ts, (q, c)) \<Rightarrow>
     ts = map (\<lambda>p. (p, None)) (Boss Boss_Done # map (\<lambda>i. Producer i Producer_Done) [0..<producers s]
       @ map (\<lambda>i. Consumer i Consumer_Done) [0..<consumers s]) \<and>
     items q = [] \<and> mset (log_out q) = all_items s \<and>
     items_consumed c = of_nat (producers s * per_producer s) \<and>
     (variant s = MPMC \<longrightarrow>
       thread_counts (producer_tracker c) = replicate (producers s) (of_nat (per_producer s)) \<and>
       sum_list (thread_counts (consumer_tracker c)) = of_nat (producers s * per_producer s)))"

section \<open>The invariant\<close>

type_synonym session_local = "session_pc \<times> 32 word queue_pc option"

text \<open>The role of a thread is its position.\<close>

fun role_at :: "session \<Rightarrow> nat \<Rightarrow> session_pc \<Rightarrow> bool" where
  "role_at s i (Boss b) = (i = 0)"
| "role_at s i (Producer pid p) = (i = Suc pid \<and> pid < producers s)"
| "role_at s i (Consumer cid p) = (i = Suc (producers s + cid) \<and> cid < consumers s)"

text \<open>Which call a thread can be in, and the bounds of its loop.\<close>

fun closing :: "'a queue_pc \<Rightarrow> bool" where
  "closing (In_Close k) = (case k of Close_Store \<Rightarrow> True | Close_Wake n \<Rightarrow> True | _ \<Rightarrow> False)"
| "closing _ = False"

fun shutting :: "'a queue_pc \<Rightarrow> bool" where
  "shutting (In_Close k) = (case k of Close_Store \<Rightarrow> False | Close_Wake n \<Rightarrow> False | _ \<Rightarrow> True)"
| "shutting _ = False"

fun pushing :: "'a \<Rightarrow> 'a queue_pc \<Rightarrow> bool" where
  "pushing x (In_Push k) = (case k of Push_Shut1 y \<Rightarrow> y = x | Push_Closed1 y \<Rightarrow> y = x
     | Push_Acquire y \<Rightarrow> y = x | Push_Shut2 y \<Rightarrow> y = x | Push_Closed2 y \<Rightarrow> y = x
     | Push_Lock y \<Rightarrow> y = x | Push_Shut3 y \<Rightarrow> y = x | Push_Closed3 y \<Rightarrow> y = x
     | Push_Enqueue y \<Rightarrow> y = x | _ \<Rightarrow> True)"
| "pushing x _ = False"

fun popping :: "'a queue_pc \<Rightarrow> bool" where
  "popping (In_Pop k) = True"
| "popping _ = False"

fun boss_ok :: "session \<Rightarrow> boss_pc \<Rightarrow> 32 word queue_pc option \<Rightarrow> bool" where
  "boss_ok s (Boss_Join_Producers k) q = (q = None \<and> k \<le> producers s)"
| "boss_ok s Boss_Close q = (variant s = MPMC \<and> (case q of None \<Rightarrow> True | Some k \<Rightarrow> closing k))"
| "boss_ok s (Boss_Join_Consumers k) q = (q = None \<and> k \<le> consumers s)"
| "boss_ok s Boss_Shutdown q = (case q of None \<Rightarrow> True | Some k \<Rightarrow> shutting k)"
| "boss_ok s _ q = (q = None)"

fun producer_ok :: "session \<Rightarrow> nat \<Rightarrow> producer_pc \<Rightarrow> 32 word queue_pc option \<Rightarrow> bool" where
  "producer_ok s pid (Producer_Loop j) q = (case q of None \<Rightarrow> j \<le> per_producer s
     | Some k \<Rightarrow> j < per_producer s \<and> pushing (item_of s pid j) k)"
| "producer_ok s pid (Producer_Record j) q = (q = None \<and> variant s = MPMC \<and> j < per_producer s)"
| "producer_ok s pid Producer_Close q =
     (variant s \<noteq> MPMC \<and> (case q of None \<Rightarrow> True | Some k \<Rightarrow> closing k))"
| "producer_ok s pid _ q = (q = None)"

fun consumer_ok :: "session \<Rightarrow> consumer_pc \<Rightarrow> 32 word queue_pc option \<Rightarrow> bool" where
  "consumer_ok s Consumer_Pop q = (case q of None \<Rightarrow> True | Some k \<Rightarrow> popping k)"
| "consumer_ok s Consumer_Record q = (q = None \<and> variant s = MPMC)"
| "consumer_ok s _ q = (q = None)"

fun local_ok :: "session \<Rightarrow> session_local \<Rightarrow> bool" where
  "local_ok s (Boss b, q) = boss_ok s b q"
| "local_ok s (Producer pid p, q) = producer_ok s pid p q"
| "local_ok s (Consumer cid p, q) = consumer_ok s p q"

text \<open>How many producers and consumers the main thread has joined; whether it is past the close.\<close>

fun joined_producers :: "session \<Rightarrow> boss_pc \<Rightarrow> nat" where
  "joined_producers s (Boss_Spawn k) = 0"
| "joined_producers s (Boss_Join_Producers k) = k"
| "joined_producers s b = producers s"

fun joined_consumers :: "session \<Rightarrow> boss_pc \<Rightarrow> nat" where
  "joined_consumers s (Boss_Join_Consumers k) = k"
| "joined_consumers s Boss_Shutdown = consumers s"
| "joined_consumers s Boss_Done = consumers s"
| "joined_consumers s b = 0"

fun past_close :: "boss_pc \<Rightarrow> bool" where
  "past_close (Boss_Join_Consumers k) = True"
| "past_close Boss_Shutdown = True"
| "past_close Boss_Done = True"
| "past_close _ = False"

text \<open>A producer that may still push.\<close>

fun producing :: "session_local \<Rightarrow> bool" where
  "producing (Producer pid p, q) = (p \<noteq> Producer_Close \<and> p \<noteq> Producer_Done)"
| "producing _ = False"

text \<open>A consumer that has seen the queue closed and empty.\<close>

fun drained :: "session_local \<Rightarrow> bool" where
  "drained (Consumer cid p, q) = (p = Consumer_Done \<or> q = Some (In_Pop Pop_Shut2)
     \<or> q = Some (In_Pop Pop_Closed2) \<or> q = Some (In_Pop Pop_Back))"
| "drained _ = False"

text \<open>The items a producer has enqueued so far, and what its tracker must show.\<close>

fun sent_count :: "session \<Rightarrow> session_local \<Rightarrow> nat" where
  "sent_count s (Producer pid p, q) = (case p of
     Producer_Unborn \<Rightarrow> 0 | Producer_Loop j \<Rightarrow> j + case_option 0 entered q
   | Producer_Record j \<Rightarrow> Suc j | Producer_Close \<Rightarrow> per_producer s | Producer_Done \<Rightarrow> per_producer s)"
| "sent_count s _ = 0"

fun sent :: "session \<Rightarrow> session_local \<Rightarrow> 32 word multiset" where
  "sent s (Producer pid p, q) = first_items s pid (sent_count s (Producer pid p, q))"
| "sent s _ = {#}"

fun recorded :: "session \<Rightarrow> session_pc \<Rightarrow> nat" where
  "recorded s (Producer pid p) = (case p of
     Producer_Unborn \<Rightarrow> 0 | Producer_Loop j \<Rightarrow> j | Producer_Record j \<Rightarrow> j | _ \<Rightarrow> per_producer s)"
| "recorded s _ = 0"

text \<open>An item that a consumer has taken and not yet counted, or not yet recorded.\<close>

fun uncounted :: "session_local \<Rightarrow> nat" where
  "uncounted (Consumer cid p, q) = (if p = Consumer_Count then 1 else 0)
     + case_option 0 (\<lambda>k. size (carried k)) q"
| "uncounted _ = 0"

fun unrecorded :: "session_local \<Rightarrow> nat" where
  "unrecorded (Consumer cid p, q) = (if p = Consumer_Count \<or> p = Consumer_Record then 1 else 0)
     + case_option 0 (\<lambda>k. size (carried k)) q"
| "unrecorded _ = 0"

definition tally_inv :: "session \<Rightarrow> session_local list \<Rightarrow> 32 word sem_queue \<Rightarrow> tallies \<Rightarrow> bool" where
  "tally_inv s ts q c \<longleftrightarrow>
     mset (log_in q) = tmset (sent s) ts \<and>
     items_consumed c + of_nat (tsum uncounted ts) = of_nat (length (log_out q)) \<and>
     length (thread_counts (producer_tracker c)) = producers s \<and>
     length (thread_counts (consumer_tracker c)) = consumers s \<and>
     (variant s = MPMC \<longrightarrow>
       (\<forall>pid < producers s. thread_counts (producer_tracker c) ! pid
          = of_nat (recorded s (fst (ts ! Suc pid)))) \<and>
       sum_list (thread_counts (consumer_tracker c)) + of_nat (tsum unrecorded ts)
         = of_nat (length (log_out q)))"

definition phase_inv :: "session \<Rightarrow> session_local list \<Rightarrow> 32 word sem_queue \<Rightarrow> bool" where
  "phase_inv s ts q \<longleftrightarrow>
     (\<exists>b kb. ts ! 0 = (Boss b, kb) \<and>
       (\<forall>j < joined_producers s b. ts ! Suc j = (Producer j Producer_Done, None)) \<and>
       (\<forall>j < joined_consumers s b. ts ! Suc (producers s + j) = (Consumer j Consumer_Done, None)) \<and>
       (past_close b \<longrightarrow> closed_flag q)) \<and>
     (closed_flag q \<or> shutdown_flag q \<longrightarrow> list_all (\<lambda>t. \<not> producing t) ts) \<and>
     list_all (\<lambda>t. drained t \<longrightarrow> items q = [] \<and> (closed_flag q \<or> shutdown_flag q)) ts \<and>
     (variant s \<noteq> MPMC \<longrightarrow> (\<forall>pid q'. (Producer pid Producer_Done, q') \<in> set ts \<longrightarrow> closed_flag q))"

definition session_inv :: "session
  \<Rightarrow> (session_pc \<times> 32 word queue_pc option, 32 word sem_queue \<times> tallies) conf \<Rightarrow> bool" where
  "session_inv s conf = (case conf of (ts, (q, c)) \<Rightarrow>
     length ts = Suc (producers s + consumers s) \<and>
     queue_inv_of (capacity s) (map snd ts) q \<and>
     (\<forall>i < length ts. role_at s i (fst (ts ! i))) \<and>
     list_all (local_ok s) ts \<and>
     phase_inv s ts q \<and> tally_inv s ts q c)"

definition session_ok :: "session \<Rightarrow> bool" where
  "session_ok s \<longleftrightarrow> 0 < capacity s \<and> 0 < producers s \<and> 0 < consumers s
     \<and> (variant s \<noteq> MPMC \<longrightarrow> producers s = 1)"

section \<open>What the steps of each role do\<close>

lemma push_call:
  assumes "pushing x k" "(r, q') \<in> set (queue_step i k q)" "queue_assert q k"
  shows "closed_flag q' = closed_flag q" "shutdown_flag q' = shutdown_flag q"
    "log_out q' = log_out q"
    "mset (log_in q') + replicate_mset (entered k) x
      = mset (log_in q) + replicate_mset (case_sum entered accepted r) x"
    "case r of Inl k' \<Rightarrow> pushing x k'
      | Inr v \<Rightarrow> v = Pushed True \<or> v = Pushed False \<and> (closed_flag q \<or> shutdown_flag q)"
proof -
  obtain p where k: "k = In_Push p" using assms(1) by (cases k) auto
  have "closed_flag q' = closed_flag q \<and> shutdown_flag q' = shutdown_flag q \<and> log_out q' = log_out q
    \<and> mset (log_in q') + replicate_mset (entered k) x
      = mset (log_in q) + replicate_mset (case_sum entered accepted r) x
    \<and> (case r of Inl k' \<Rightarrow> pushing x k'
      | Inr v \<Rightarrow> v = Pushed True \<or> v = Pushed False \<and> (closed_flag q \<or> shutdown_flag q))"
    using assms k by (cases p) (auto simp: queue_access split: if_splits)
  then show "closed_flag q' = closed_flag q" "shutdown_flag q' = shutdown_flag q"
    "log_out q' = log_out q"
    "mset (log_in q') + replicate_mset (entered k) x
      = mset (log_in q) + replicate_mset (case_sum entered accepted r) x"
    "case r of Inl k' \<Rightarrow> pushing x k'
      | Inr v \<Rightarrow> v = Pushed True \<or> v = Pushed False \<and> (closed_flag q \<or> shutdown_flag q)"
    by simp_all
qed

abbreviation waking :: "'a queue_pc \<Rightarrow> bool" where
  "waking k \<equiv> k = In_Pop Pop_Shut2 \<or> k = In_Pop Pop_Closed2 \<or> k = In_Pop Pop_Back"

lemma pop_call:
  assumes "popping k" "(r, q') \<in> set (queue_step i k q)" "queue_assert q k"
    and "waking k \<Longrightarrow> items q = []"
  shows "closed_flag q' = closed_flag q" "shutdown_flag q' = shutdown_flag q" "log_in q' = log_in q"
    "items q = [] \<Longrightarrow> items q' = []"
    "length (log_out q') + size (carried k)
      = length (log_out q) + (case r of Inl k' \<Rightarrow> size (carried k') | Inr v \<Rightarrow> of_bool (v \<noteq> Popped None))"
    "case r of Inl k' \<Rightarrow> popping k' \<and> (waking k' \<longrightarrow> items q' = [] \<and> closed_flag q)
      | Inr v \<Rightarrow> (\<exists>x. v = Popped (Some x))
          \<or> v = Popped None \<and> items q' = [] \<and> (closed_flag q \<or> shutdown_flag q)"
proof -
  obtain p where k: "k = In_Pop p" using assms(1) by (cases k) auto
  have "closed_flag q' = closed_flag q \<and> shutdown_flag q' = shutdown_flag q \<and> log_in q' = log_in q
    \<and> (items q = [] \<longrightarrow> items q' = [])
    \<and> length (log_out q') + size (carried k)
      = length (log_out q) + (case r of Inl k' \<Rightarrow> size (carried k') | Inr v \<Rightarrow> of_bool (v \<noteq> Popped None))
    \<and> (case r of Inl k' \<Rightarrow> popping k' \<and> (waking k' \<longrightarrow> items q' = [] \<and> closed_flag q)
      | Inr v \<Rightarrow> (\<exists>x. v = Popped (Some x))
          \<or> v = Popped None \<and> items q' = [] \<and> (closed_flag q \<or> shutdown_flag q))"
    using assms k by (cases p) (auto simp: queue_access split: if_splits)
  then show "closed_flag q' = closed_flag q" "shutdown_flag q' = shutdown_flag q" "log_in q' = log_in q"
    "items q = [] \<Longrightarrow> items q' = []"
    "length (log_out q') + size (carried k)
      = length (log_out q) + (case r of Inl k' \<Rightarrow> size (carried k') | Inr v \<Rightarrow> of_bool (v \<noteq> Popped None))"
    "case r of Inl k' \<Rightarrow> popping k' \<and> (waking k' \<longrightarrow> items q' = [] \<and> closed_flag q)
      | Inr v \<Rightarrow> (\<exists>x. v = Popped (Some x))
          \<or> v = Popped None \<and> items q' = [] \<and> (closed_flag q \<or> shutdown_flag q)"
    by simp_all
qed

lemma close_call:
  assumes "closing k \<or> shutting k" "(r, q') \<in> set (queue_step i k q)" "queue_assert q k"
  shows "closed_flag q \<longrightarrow> closed_flag q'" "shutdown_flag q \<longrightarrow> shutdown_flag q'"
    "log_in q' = log_in q" "log_out q' = log_out q" "items q' = items q"
    "case r of Inl k' \<Rightarrow> (closing k \<longrightarrow> closing k') \<and> (shutting k \<longrightarrow> shutting k') | Inr v \<Rightarrow> closed_flag q'"
proof -
  obtain p where k: "k = In_Close p" using assms(1) by (cases k) auto
  have "(closed_flag q \<longrightarrow> closed_flag q') \<and> (shutdown_flag q \<longrightarrow> shutdown_flag q')
    \<and> log_in q' = log_in q \<and> log_out q' = log_out q \<and> items q' = items q
    \<and> (case r of Inl k' \<Rightarrow> (closing k \<longrightarrow> closing k') \<and> (shutting k \<longrightarrow> shutting k') | Inr v \<Rightarrow> closed_flag q')"
    using assms k by (cases "(p, q)" rule: close_step.cases) (auto simp: queue_access)
  then show "closed_flag q \<longrightarrow> closed_flag q'" "shutdown_flag q \<longrightarrow> shutdown_flag q'"
    "log_in q' = log_in q" "log_out q' = log_out q" "items q' = items q"
    "case r of Inl k' \<Rightarrow> (closing k \<longrightarrow> closing k') \<and> (shutting k \<longrightarrow> shutting k') | Inr v \<Rightarrow> closed_flag q'"
    by simp_all
qed

section \<open>Every step keeps the invariant\<close>

lemma phase_worker:
  assumes phase: "phase_inv s ts q" and i: "i < length ts" "i \<noteq> 0"
    and busy: "\<And>j. ts ! i \<noteq> (Producer j Producer_Done, None)"
      "\<And>j. ts ! i \<noteq> (Consumer j Consumer_Done, None)"
    and flags: "closed_flag q \<longrightarrow> closed_flag q'" "shutdown_flag q \<longrightarrow> shutdown_flag q'"
    and producing: "producing l \<Longrightarrow> producing (ts ! i)"
    and closes: "closed_flag q' \<or> shutdown_flag q' \<Longrightarrow> \<not> closed_flag q \<and> \<not> shutdown_flag q
      \<Longrightarrow> list_all (\<lambda>t. \<not> producing t) (ts[i := l])"
    and drains: "drained l \<Longrightarrow> items q' = [] \<and> (closed_flag q' \<or> shutdown_flag q')"
    and stays: "items q = [] \<Longrightarrow> closed_flag q \<or> shutdown_flag q \<Longrightarrow> items q' = []"
    and ended: "\<And>pid k. variant s \<noteq> MPMC \<Longrightarrow> l = (Producer pid Producer_Done, k) \<Longrightarrow> closed_flag q'"
  shows "phase_inv s (ts[i := l]) q'"
proof -
  from phase obtain b kb where b: "ts ! 0 = (Boss b, kb)"
    "\<forall>j < joined_producers s b. ts ! Suc j = (Producer j Producer_Done, None)"
    "\<forall>j < joined_consumers s b. ts ! Suc (producers s + j) = (Consumer j Consumer_Done, None)"
    "past_close b \<longrightarrow> closed_flag q"
    and rest: "closed_flag q \<or> shutdown_flag q \<longrightarrow> list_all (\<lambda>t. \<not> producing t) ts"
      "list_all (\<lambda>t. drained t \<longrightarrow> items q = [] \<and> (closed_flag q \<or> shutdown_flag q)) ts"
      "variant s \<noteq> MPMC \<longrightarrow> (\<forall>pid q'. (Producer pid Producer_Done, q') \<in> set ts \<longrightarrow> closed_flag q)"
    by (auto simp: phase_inv_def)
  have "ts[i := l] ! 0 = (Boss b, kb)" using b(1) i by simp
  moreover have "\<forall>j < joined_producers s b. ts[i := l] ! Suc j = (Producer j Producer_Done, None)"
    using b(2) busy(1) by (metis nth_list_update_neq)
  moreover have "\<forall>j < joined_consumers s b. ts[i := l] ! Suc (producers s + j)
      = (Consumer j Consumer_Done, None)"
    using b(3) busy(2) by (metis nth_list_update_neq)
  moreover have "past_close b \<longrightarrow> closed_flag q'" using b(4) flags by blast
  moreover have "list_all (\<lambda>t. \<not> producing t) (ts[i := l])" if "closed_flag q' \<or> shutdown_flag q'"
  proof (cases "closed_flag q \<or> shutdown_flag q")
    case True
    with rest(1) i producing show ?thesis by (auto simp: list_all_length nth_list_update)
  next
    case False
    with that closes show ?thesis by blast
  qed
  moreover have "list_all (\<lambda>t. drained t \<longrightarrow> items q' = [] \<and> (closed_flag q' \<or> shutdown_flag q')) (ts[i := l])"
    using rest(2) flags stays drains by (intro list_all_update) (auto simp: list_all_iff)
  moreover have "closed_flag q'"
    if "variant s \<noteq> MPMC" "(Producer pid Producer_Done, k) \<in> set (ts[i := l])" for pid k
  proof -
    from that(2) have "l = (Producer pid Producer_Done, k) \<or> (Producer pid Producer_Done, k) \<in> set ts"
      using set_update_subset_insert [of ts i l] by blast
    then show ?thesis using ended rest(3) flags that(1) by blast
  qed
  ultimately show ?thesis by (auto simp: phase_inv_def)
qed

lemma tally_frame:
  assumes tally: "tally_inv s ts q c" and i: "i < length ts"
    and sent: "mset (log_in q') + sent s (ts ! i) = mset (log_in q) + sent s l"
    and consumed: "items_consumed c' = items_consumed c + of_nat d"
      "d + uncounted l + length (log_out q) = uncounted (ts ! i) + length (log_out q')"
    and lengths: "length (thread_counts (producer_tracker c')) = length (thread_counts (producer_tracker c))"
      "length (thread_counts (consumer_tracker c')) = length (thread_counts (consumer_tracker c))"
    and produced: "variant s = MPMC \<Longrightarrow>
      producer_tracker c' = producer_tracker c \<and> recorded s (fst l) = recorded s (fst (ts ! i))
      \<or> (\<exists>pid < producers s. i = Suc pid \<and> producer_tracker c' = record_operation pid (producer_tracker c)
          \<and> recorded s (fst l) = Suc (recorded s (fst (ts ! i))))"
    and summed: "sum_list (thread_counts (consumer_tracker c'))
        = sum_list (thread_counts (consumer_tracker c)) + of_nat e"
      "variant s = MPMC \<Longrightarrow>
        e + unrecorded l + length (log_out q) = unrecorded (ts ! i) + length (log_out q')"
  shows "tally_inv s (ts[i := l]) q' c'"
proof -
  have "mset (log_in q') = tmset (sent s) (ts[i := l])"
    using tally sent tmset_update [OF i, of "sent s" l]
    unfolding tally_inv_def by (metis add_right_cancel)
  moreover have now: "items_consumed c + of_nat (tsum uncounted ts) = of_nat (length (log_out q))"
    using tally by (simp add: tally_inv_def)
  have "d + tsum uncounted (ts[i := l]) + length (log_out q) = tsum uncounted ts + length (log_out q')"
    using tsum_update [OF i, of uncounted l] consumed(2) by linarith
  then have "of_nat d + of_nat (tsum uncounted (ts[i := l])) + of_nat (length (log_out q))
      = (of_nat (tsum uncounted ts) + of_nat (length (log_out q')) :: uint64)"
    by (simp only: of_nat_add [symmetric])
  then have "items_consumed c' + of_nat (tsum uncounted (ts[i := l])) = of_nat (length (log_out q'))"
    unfolding consumed(1) by (rule balance [OF now])
  moreover have "thread_counts (producer_tracker c') ! pid = of_nat (recorded s (fst (ts[i := l] ! Suc pid)))"
    if v: "variant s = MPMC" and pid: "pid < producers s" for pid
  proof -
    have old: "thread_counts (producer_tracker c) ! pid = of_nat (recorded s (fst (ts ! Suc pid)))"
      "pid < length (thread_counts (producer_tracker c))"
      using tally v pid by (simp_all add: tally_inv_def)
    show ?thesis
    proof (cases "i = Suc pid")
      case True
      then show ?thesis
        using produced [OF v] old i by (auto simp: record_operation_same)
    next
      case False
      then show ?thesis using produced [OF v] old by (elim disjE exE conjE) simp_all
    qed
  qed
  moreover have "sum_list (thread_counts (consumer_tracker c')) + of_nat (tsum unrecorded (ts[i := l]))
      = of_nat (length (log_out q'))" if v: "variant s = MPMC"
  proof -
    have now: "sum_list (thread_counts (consumer_tracker c)) + of_nat (tsum unrecorded ts)
        = of_nat (length (log_out q))" using tally v by (simp add: tally_inv_def)
    have "e + tsum unrecorded (ts[i := l]) + length (log_out q) = tsum unrecorded ts + length (log_out q')"
      using tsum_update [OF i, of unrecorded l] summed(2) [OF v] by linarith
    then have "of_nat e + of_nat (tsum unrecorded (ts[i := l])) + of_nat (length (log_out q))
        = (of_nat (tsum unrecorded ts) + of_nat (length (log_out q')) :: uint64)"
      by (simp only: of_nat_add [symmetric])
    then show ?thesis
      unfolding summed(1) by (rule balance [OF now])
  qed
  ultimately show ?thesis
    using tally lengths by (simp add: tally_inv_def)
qed

lemma session_invE:
  assumes "session_inv s (ts, (q, c))"
  obtains "length ts = Suc (producers s + consumers s)" "queue_inv_of (capacity s) (map snd ts) q"
    "\<And>i. i < length ts \<Longrightarrow> role_at s i (fst (ts ! i))" "list_all (local_ok s) ts"
    "phase_inv s ts q" "tally_inv s ts q c"
  using assms by (auto simp: session_inv_def)

lemma session_local: "session_inv s (ts, (q, c)) \<Longrightarrow> i < length ts \<Longrightarrow> local_ok s (ts ! i)"
  by (auto elim!: session_invE simp: list_all_length)

lemma session_assert:
  assumes "session_inv s (ts, (q, c))" "i < length ts" "ts ! i = (p, Some k)"
  shows "queue_assert q k"
proof -
  have "list_all (case_option True (queue_assert q)) (map snd ts)"
    using assms(1) by (auto elim!: session_invE simp: queue_inv_def)
  then have "case_option True (queue_assert q) (map snd ts ! i)"
    using assms(2) by (simp add: list_all_length)
  then show ?thesis using assms(2,3) by simp
qed

lemma session_frame:
  assumes inv: "session_inv s (ts, (q, c))" and i: "i < length ts"
    and st: "(l, (q', c')) \<in> set (session_step s i ts (q, c))"
    and "role_at s i (fst l)" "local_ok s l" "phase_inv s (ts[i := l]) q'" "tally_inv s (ts[i := l]) q' c'"
  shows "session_inv s (ts[i := l], (q', c'))"
proof -
  have "queue_inv_of (capacity s) (map snd (ts[i := l])) q'"
    using sem_queue.object_client_step [OF _ i st [unfolded session_step_def]] inv
    by (blast elim: session_invE)
  moreover have "role_at s j (fst (ts[i := l] ! j))" if "j < length ts" for j
    using assms(4) inv that by (cases "j = i") (auto elim: session_invE)
  moreover have "list_all (local_ok s) (ts[i := l])"
    using assms(5) inv by (auto elim: session_invE intro: list_all_update)
  moreover have "length (ts[i := l]) = Suc (producers s + consumers s)"
    using inv by (auto elim: session_invE)
  ultimately show ?thesis using assms(6,7) by (simp add: session_inv_def)
qed

lemma all_producers_idle:
  assumes inv: "session_inv s (ts, (q, c))"
    and joined: "\<And>j. j < producers s \<Longrightarrow> ts ! Suc j = (Producer j Producer_Done, None)"
  shows "list_all (\<lambda>t. \<not> producing t) ts"
proof -
  have "\<not> producing (ts ! i)" if "i < length ts" for i
  proof -
    have role: "role_at s i (fst (ts ! i))" using inv that by (auto elim: session_invE)
    show ?thesis
    proof (cases "ts ! i")
      case (Pair p k)
      then show ?thesis
        using role joined by (cases p) auto
    qed
  qed
  then show ?thesis by (simp add: list_all_length)
qed

lemma session_prog_boss:
  assumes "ps ! i = Boss b"
  shows "session_prog s i ps c = Some (Inl oper) \<longleftrightarrow> boss_prog s b ps = Some (Inl oper)"
    and "session_prog s i ps c = Some (Inr (p', c')) \<longleftrightarrow>
      (\<exists>b'. boss_prog s b ps = Some (Inr b') \<and> p' = Boss b' \<and> c' = c)"
  using assms by (cases "boss_prog s b ps"; auto simp: session_prog_def map_sum_def split: sum.splits)+

lemma session_prog_producer:
  assumes "ps ! i = Producer pid p"
  shows "session_prog s i ps c = Some (Inl oper) \<longleftrightarrow> producer_prog s pid p ps c = Some (Inl oper)"
    and "session_prog s i ps c = Some (Inr (p', c')) \<longleftrightarrow>
      (\<exists>b'. producer_prog s pid p ps c = Some (Inr (b', c')) \<and> p' = Producer pid b')"
  using assms
  by (cases "producer_prog s pid p ps c"; auto simp: session_prog_def map_sum_def split: sum.splits)+

lemma session_prog_consumer:
  assumes "ps ! i = Consumer cid p"
  shows "session_prog s i ps c = Some (Inl oper) \<longleftrightarrow> consumer_prog s cid p ps c = Some (Inl oper)"
    and "session_prog s i ps c = Some (Inr (p', c')) \<longleftrightarrow>
      (\<exists>b'. consumer_prog s cid p ps c = Some (Inr (b', c')) \<and> p' = Consumer cid b')"
  using assms
  by (cases "consumer_prog s cid p ps c"; auto simp: session_prog_def map_sum_def split: sum.splits)+

text \<open>The main thread.\<close>

lemma boss_tally:
  assumes "tally_inv s ts q c" "0 < length ts" "ts ! 0 = (Boss b, kb)"
    and "log_in q' = log_in q" "log_out q' = log_out q"
  shows "tally_inv s (ts[0 := (Boss b', kb')]) q' c"
  using assms by (intro tally_frame [where d = 0 and e = 0]) auto

lemma phase_boss:
  assumes phase: "phase_inv s ts q" and len: "0 < length ts" and b: "ts ! 0 = (Boss b, kb)"
    and flags: "closed_flag q \<longrightarrow> closed_flag q'" "shutdown_flag q \<longrightarrow> shutdown_flag q'"
    and items: "items q' = items q"
    and joined: "\<And>j. j < joined_producers s b' \<Longrightarrow> ts ! Suc j = (Producer j Producer_Done, None)"
      "\<And>j. j < joined_consumers s b' \<Longrightarrow> ts ! Suc (producers s + j) = (Consumer j Consumer_Done, None)"
    and past: "past_close b' \<Longrightarrow> closed_flag q'"
    and idle: "closed_flag q' \<or> shutdown_flag q' \<Longrightarrow> list_all (\<lambda>t. \<not> producing t) ts"
  shows "phase_inv s (ts[0 := (Boss b', kb')]) q'"
proof -
  have "ts[0 := (Boss b', kb')] ! 0 = (Boss b', kb')" using len by simp
  moreover have "list_all (\<lambda>t. \<not> producing t) (ts[0 := (Boss b', kb')])"
    if "closed_flag q' \<or> shutdown_flag q'"
    using idle [OF that] by (intro list_all_update) auto
  moreover have "list_all (\<lambda>t. drained t \<longrightarrow> items q' = [] \<and> (closed_flag q' \<or> shutdown_flag q'))
      (ts[0 := (Boss b', kb')])"
    using phase flags items by (intro list_all_update) (auto simp: phase_inv_def list_all_iff)
  moreover have "closed_flag q'"
    if "variant s \<noteq> MPMC" "(Producer pid Producer_Done, k) \<in> set (ts[0 := (Boss b', kb')])" for pid k
  proof -
    have "(Producer pid Producer_Done, k) \<in> set ts"
      using that(2) set_update_subset_insert [of ts 0 "(Boss b', kb')"] by auto
    then show ?thesis using phase flags that(1) by (auto simp: phase_inv_def)
  qed
  ultimately show ?thesis using joined past by (auto simp: phase_inv_def)
qed

lemma session_done_local:
  assumes inv: "session_inv s (ts, (q, c))" and i: "i < length ts"
  shows "fst (ts ! i) = Producer pid Producer_Done \<Longrightarrow> ts ! i = (Producer pid Producer_Done, None)"
    and "fst (ts ! i) = Consumer pid Consumer_Done \<Longrightarrow> ts ! i = (Consumer pid Consumer_Done, None)"
proof -
  have "local_ok s (ts ! i)" using inv i by (auto elim: session_invE simp: list_all_length)
  then show "fst (ts ! i) = Producer pid Producer_Done \<Longrightarrow> ts ! i = (Producer pid Producer_Done, None)"
    and "fst (ts ! i) = Consumer pid Consumer_Done \<Longrightarrow> ts ! i = (Consumer pid Consumer_Done, None)"
    by (cases "ts ! i"; simp)+
qed

lemma boss_local:
  assumes inv: "session_inv s (ts, (q, c))" and ok: "session_ok s" and b: "ts ! 0 = (Boss b, None)"
    and b': "boss_prog s b (map fst ts) = Some (Inr b')"
  shows "boss_ok s b' None"
    and "j < joined_producers s b' \<Longrightarrow> ts ! Suc j = (Producer j Producer_Done, None)"
    and "j < joined_consumers s b' \<Longrightarrow> ts ! Suc (producers s + j) = (Consumer j Consumer_Done, None)"
    and "past_close b' \<Longrightarrow> closed_flag q"
proof -
  have len: "length ts = Suc (producers s + consumers s)" "0 < length ts" and phase: "phase_inv s ts q"
    using inv by (auto elim: session_invE)
  have lok: "boss_ok s b None" using session_local [OF inv len(2)] b by simp
  from phase b have joined: "\<And>j. j < joined_producers s b \<Longrightarrow> ts ! Suc j = (Producer j Producer_Done, None)"
    "\<And>j. j < joined_consumers s b \<Longrightarrow> ts ! Suc (producers s + j) = (Consumer j Consumer_Done, None)"
    and past: "past_close b \<Longrightarrow> closed_flag q"
    and ended: "\<And>pid q'. variant s \<noteq> MPMC \<Longrightarrow> (Producer pid Producer_Done, q') \<in> set ts \<Longrightarrow> closed_flag q"
    by (auto simp: phase_inv_def)
  have nth: "map fst ts ! j = fst (ts ! j)" if "j < length ts" for j using that by simp
  show "boss_ok s b' None" using b' lok by (cases b) (auto split: if_splits)
  show "ts ! Suc j = (Producer j Producer_Done, None)" if "j < joined_producers s b'"
  proof (cases "j < joined_producers s b")
    case True
    then show ?thesis by (rule joined)
  next
    case False
    with that b' lok have "j < producers s" "map fst ts ! Suc j = Producer j Producer_Done"
      by (cases b; auto split: if_splits simp: less_Suc_eq)+
    then show ?thesis using session_done_local [OF inv, of "Suc j"] len nth [of "Suc j"] by simp
  qed
  show "ts ! Suc (producers s + j) = (Consumer j Consumer_Done, None)" if "j < joined_consumers s b'"
  proof (cases "j < joined_consumers s b")
    case True
    then show ?thesis by (rule joined)
  next
    case False
    with that b' lok have "j < consumers s" "map fst ts ! Suc (producers s + j) = Consumer j Consumer_Done"
      by (cases b; auto split: if_splits simp: less_Suc_eq)+
    then show ?thesis
      using session_done_local [OF inv, of "Suc (producers s + j)"] len nth [of "Suc (producers s + j)"]
      by simp
  qed
  show "closed_flag q" if "past_close b'"
  proof (cases "past_close b")
    case True
    then show ?thesis by (rule past)
  next
    case False
    with that b' have v: "variant s \<noteq> MPMC" "\<exists>k. b = Boss_Join_Producers k \<and> \<not> k < producers s"
      by (cases b; auto split: if_splits)+
    then have "0 < joined_producers s b" using ok by (auto simp: session_ok_def)
    then have "ts ! Suc 0 = (Producer 0 Producer_Done, None)" by (rule joined)
    moreover have "Suc 0 < length ts" using len ok by (simp add: session_ok_def)
    ultimately have "(Producer 0 Producer_Done, None) \<in> set ts" by (metis nth_mem)
    with v(1) show ?thesis by (rule ended)
  qed
qed

lemma boss_keeps:
  assumes inv: "session_inv s (ts, (q, c))" and ok: "session_ok s" and b: "ts ! 0 = (Boss b, kb)"
    and st: "(l, (q', c')) \<in> set (session_step s 0 ts (q, c))"
  shows "session_inv s (ts[0 := l], (q', c'))"
proof -
  have len: "length ts = Suc (producers s + consumers s)" "0 < length ts"
    using inv by (auto elim: session_invE)
  have phase: "phase_inv s ts q" and tally: "tally_inv s ts q c"
    using inv by (auto elim: session_invE)
  have lok: "boss_ok s b kb" using session_local [OF inv len(2)] b by simp
  from phase b have joined: "\<And>j. j < joined_producers s b \<Longrightarrow> ts ! Suc j = (Producer j Producer_Done, None)"
    "\<And>j. j < joined_consumers s b \<Longrightarrow> ts ! Suc (producers s + j) = (Consumer j Consumer_Done, None)"
    and past: "past_close b \<Longrightarrow> closed_flag q"
    and idle: "closed_flag q \<or> shutdown_flag q \<Longrightarrow> list_all (\<lambda>t. \<not> producing t) ts"
    and ended: "\<And>pid q'. variant s \<noteq> MPMC \<Longrightarrow> (Producer pid Producer_Done, q') \<in> set ts \<Longrightarrow> closed_flag q"
    by (auto simp: phase_inv_def)
  have all_idle: "list_all (\<lambda>t. \<not> producing t) ts" if "joined_producers s b = producers s"
    using all_producers_idle [OF inv] joined(1) that by simp
  have goal: "session_inv s (ts[0 := l], (q', c'))"
    if l: "l = (Boss b', kb')" "boss_ok s b' kb'" and logs: "log_in q' = log_in q" "log_out q' = log_out q"
      and "c' = c" "closed_flag q \<longrightarrow> closed_flag q'" "shutdown_flag q \<longrightarrow> shutdown_flag q'" "items q' = items q"
      and "\<And>j. j < joined_producers s b' \<Longrightarrow> ts ! Suc j = (Producer j Producer_Done, None)"
      and "\<And>j. j < joined_consumers s b' \<Longrightarrow> ts ! Suc (producers s + j) = (Consumer j Consumer_Done, None)"
      and "past_close b' \<Longrightarrow> closed_flag q'"
      and "closed_flag q' \<or> shutdown_flag q' \<Longrightarrow> list_all (\<lambda>t. \<not> producing t) ts"
    for b' kb'
    using session_frame [OF inv len(2) st] phase_boss [OF phase len(2) b] boss_tally [OF tally len(2) b] that
    by simp
  from st have st': "(l, (q', c')) \<in> set (client_step (session_prog s) (session_after s) queue_entry
      queue_step 0 ts (q, c))" by (simp add: session_step_def)
  have ps0: "map fst ts ! 0 = Boss b" using b len(2) by simp
  from st' show ?thesis
  proof (cases rule: client_step_cases)
    case (call p oper)
    then have "boss_prog s b (map fst ts) = Some (Inl oper)" "kb = None" "l = (Boss b, Some (queue_entry oper))"
      using b by (auto simp: session_prog_boss [OF ps0])
    moreover from this have "boss_ok s b (Some (queue_entry oper))"
      using lok by (cases b) (auto split: if_splits)
    ultimately show ?thesis using goal joined past idle call by blast
  next
    case (local p p' c'')
    then obtain b' where b': "boss_prog s b (map fst ts) = Some (Inr b')" "kb = None"
      "l = (Boss b', None)" "c' = c" "q' = q"
      using b by (auto simp: session_prog_boss [OF ps0])
    have "ts ! 0 = (Boss b, None)" using b b'(2) by simp
    note at = boss_local [OF inv ok this b'(1)]
    show ?thesis using goal [of b' None] b' at idle by simp
  next
    case (within p k k' g')
    then have k: "kb = Some k" "l = (Boss b, Some k')" "q' = g'" "c' = c" using b by auto
    then have kc: "closing k \<or> shutting k" "joined_producers s b = producers s"
      using lok by (cases b; auto split: option.splits)+
    have "queue_assert q k" using session_assert [OF inv len(2)] b k(1) by blast
    note cl = close_call [OF kc(1) within(2) this]
    have "boss_ok s b (Some k')" using lok cl(6) k(1) by (cases b) auto
    then show ?thesis
      using goal [of b "Some k'"] k cl joined past all_idle [OF kc(2)] by simp
  next
    case (return p k v g')
    then have k: "kb = Some k" "l = (session_after s 0 (Boss b) v, None)" "q' = g'" "c' = c" using b by auto
    then have kc: "closing k \<or> shutting k" "joined_producers s b = producers s"
      and bb: "b = Boss_Close \<or> b = Boss_Shutdown"
      using lok by (cases b; auto split: option.splits)+
    have "queue_assert q k" using session_assert [OF inv len(2)] b k(1) by blast
    note cl = close_call [OF kc(1) return(2) this]
    show ?thesis
      using goal [of "if b = Boss_Close then Boss_Join_Consumers 0 else Boss_Done" None] k cl joined
        all_idle [OF kc(2)] bb by auto
  qed
qed

text \<open>A producer.\<close>

lemma first_items_0 [simp]: "first_items s pid 0 = {#}"
  by (simp add: first_items_def)

lemma first_items_Suc [simp]:
  "first_items s pid (Suc n) = add_mset (item_of s pid n) (first_items s pid n)"
  by (simp add: first_items_def)

lemma sent_loop:
  "sent s (Producer pid (Producer_Loop j), Some k)
    = first_items s pid j + replicate_mset (entered k) (item_of s pid j)"
proof -
  have "entered k \<le> 1" by (cases k) (auto split: push_pc.splits)
  then consider "entered k = 0" | "entered k = 1" by linarith
  then show ?thesis by cases simp_all
qed

lemma sole_producer:
  assumes inv: "session_inv s (ts, (q, c))" and ok: "session_ok s" "variant s \<noteq> MPMC"
    and i: "i < length ts" "fst (ts ! i) = Producer pid p" and l: "\<not> producing l"
  shows "list_all (\<lambda>t. \<not> producing t) (ts[i := l])"
proof -
  have "\<not> producing (ts[i := l] ! j)" if j: "j < length ts" for j
  proof (cases "j = i")
    case True
    with l i(1) show ?thesis by simp
  next
    case False
    have one: "producers s = 1" using ok by (simp add: session_ok_def)
    have "role_at s i (fst (ts ! i))" "role_at s j (fst (ts ! j))"
      using inv i(1) j by (auto elim: session_invE)
    with False one i(2) show ?thesis by (cases "ts ! j"; cases "fst (ts ! j)") auto
  qed
  then show ?thesis by (simp add: list_all_length)
qed

lemma producer_frame:
  assumes inv: "session_inv s (ts, (q, c))" and i: "i < length ts" and p: "ts ! i = (Producer pid p, kb)"
    and st: "(l, (q', c')) \<in> set (session_step s i ts (q, c))"
    and l: "l = (Producer pid p', kb')" "producer_ok s pid p' kb'"
    and busy: "p \<noteq> Producer_Done"
    and flags: "closed_flag q \<longrightarrow> closed_flag q'" "shutdown_flag q \<longrightarrow> shutdown_flag q'"
    and prod: "producing l \<Longrightarrow> producing (ts ! i)"
    and closes: "closed_flag q' \<or> shutdown_flag q' \<Longrightarrow> \<not> closed_flag q \<and> \<not> shutdown_flag q
        \<Longrightarrow> list_all (\<lambda>t. \<not> producing t) (ts[i := l])"
    and stays: "items q = [] \<Longrightarrow> closed_flag q \<or> shutdown_flag q \<Longrightarrow> items q' = []"
    and ended: "variant s \<noteq> MPMC \<Longrightarrow> p' = Producer_Done \<Longrightarrow> closed_flag q'"
    and sent: "mset (log_in q') + sent s (ts ! i) = mset (log_in q) + sent s l"
    and out: "log_out q' = log_out q"
    and c: "items_consumed c' = items_consumed c" "consumer_tracker c' = consumer_tracker c"
        "length (thread_counts (producer_tracker c')) = length (thread_counts (producer_tracker c))"
    and produced: "variant s = MPMC \<Longrightarrow> producer_tracker c' = producer_tracker c \<and> recorded s (Producer pid p') = recorded s (Producer pid p)
        \<or> producer_tracker c' = record_operation pid (producer_tracker c)
          \<and> recorded s (Producer pid p') = Suc (recorded s (Producer pid p))"
  shows "session_inv s (ts[i := l], (q', c'))"
proof -
  have phase: "phase_inv s ts q" and tally: "tally_inv s ts q c"
    using inv by (auto elim: session_invE)
  have role: "i = Suc pid" "pid < producers s"
    using inv i p by (auto elim!: session_invE dest!: spec [of _ i])
  show ?thesis
  proof (rule session_frame [OF inv i st])
    show "role_at s i (fst l)" "local_ok s l" using l role by simp_all
    show "phase_inv s (ts[i := l]) q'"
      using p l busy role ended
      by (intro phase_worker [OF phase i _ _ _ flags prod closes _ stays]) simp_all
    show "tally_inv s (ts[i := l]) q' c'"
      using p l role out c produced
      by (intro tally_frame [OF tally i sent, where d = 0 and e = 0]) auto
  qed
qed

lemma producer_keeps:
  assumes inv: "session_inv s (ts, (q, c))" and ok: "session_ok s" and i: "i < length ts"
    and p: "ts ! i = (Producer pid p, kb)"
    and st: "(l, (q', c')) \<in> set (session_step s i ts (q, c))"
  shows "session_inv s (ts[i := l], (q', c'))"
proof -
  have phase: "phase_inv s ts q" and tally: "tally_inv s ts q c"
    using inv by (auto elim: session_invE)
  have role: "i = Suc pid" "pid < producers s"
    using inv i p by (auto elim!: session_invE dest!: spec [of _ i])
  have lok: "producer_ok s pid p kb" using session_local [OF inv i] p by simp
  have open_: "\<not> closed_flag q \<and> \<not> shutdown_flag q" if "producing (ts ! i)"
    using phase i that by (auto simp: phase_inv_def list_all_length)
  have st': "(l, (q', c')) \<in> set (client_step (session_prog s) (session_after s) queue_entry
      queue_step i ts (q, c))" using st by (simp add: session_step_def)
  have psi: "map fst ts ! i = Producer pid p" using p i by simp
  note goal = producer_frame [OF inv i p st]
  from st' show ?thesis
  proof (cases rule: client_step_cases)
    case (call p0 oper)
    then have *: "producer_prog s pid p (map fst ts) c = Some (Inl oper)" "kb = None"
      "l = (Producer pid p, Some (queue_entry oper))" "q' = q" "c' = c"
      using p by (auto simp: session_prog_producer [OF psi])
    then show ?thesis
      using goal [OF *(3)] lok p open_ by (cases p) (auto split: if_splits)
  next
    case (local p0 p' c'')
    then obtain p1 where *: "producer_prog s pid p (map fst ts) c = Some (Inr (p1, c'))" "kb = None"
      "l = (Producer pid p1, None)" "q' = q"
      using p by (auto simp: session_prog_producer [OF psi])
    then show ?thesis
      using goal [OF *(3)] lok p open_ by (cases p) (auto split: if_splits)
  next
    case (within p0 k k' g')
    then have *: "kb = Some k" "l = (Producer pid p, Some k')" "q' = g'" "c' = c" using p by auto
    have qa: "queue_assert q k" using session_assert [OF inv i] p *(1) by blast
    show ?thesis
    proof (cases p)
      case (Producer_Loop j)
      then have pk: "pushing (item_of s pid j) k" "j < per_producer s" using lok *(1) by auto
      note pc = push_call [OF pk(1) within(2) qa]
      show ?thesis
        using goal [OF *(2)] Producer_Loop pc pk * p open_ by (simp add: sent_loop del: sent.simps)
    next
      case Producer_Close
      then have ck: "closing k" "variant s \<noteq> MPMC" using lok *(1) by auto
      note cl = close_call [OF disjI1 [OF ck(1)] within(2) qa]
      show ?thesis
        using goal [OF *(2)] Producer_Close cl ck * p sole_producer [OF inv ok ck(2) i, of pid p l]
        by simp
    qed (use lok *(1) in simp_all)
  next
    case (return p0 k v g')
    then have *: "kb = Some k" "l = (session_after s i (Producer pid p) v, None)" "q' = g'" "c' = c"
      using p by auto
    have qa: "queue_assert q k" using session_assert [OF inv i] p *(1) by blast
    show ?thesis
    proof (cases p)
      case (Producer_Loop j)
      then have pk: "pushing (item_of s pid j) k" "j < per_producer s" using lok *(1) by auto
      note pc = push_call [OF pk(1) return(2) qa]
      have v: "v = Pushed True" using pc(5) open_ p Producer_Loop by simp
      have "mset (log_in q') + sent s (ts ! i) = mset (log_in q) + first_items s pid (Suc j)"
        using pc(4) v * p Producer_Loop sent_loop [of s pid j k]
        by (simp del: sent.simps add: union_assoc [symmetric] ac_simps)
      note this [unfolded p *(1) Producer_Loop]
      then show ?thesis
        using goal [where p' = "Producer_Record j" and kb' = None] goal [where p' = "Producer_Loop (Suc j)" and kb' = None]
          Producer_Loop pc pk * p open_ v
        by (cases "variant s = MPMC") (simp_all del: first_items_Suc)
    next
      case Producer_Close
      then have ck: "closing k" "variant s \<noteq> MPMC" using lok *(1) by auto
      note cl = close_call [OF disjI1 [OF ck(1)] return(2) qa]
      show ?thesis
        using goal [where p' = Producer_Done and kb' = None] Producer_Close cl ck * p
          sole_producer [OF inv ok ck(2) i, of pid p l]
        by simp
    qed (use lok *(1) in simp_all)
  qed
qed

text \<open>A consumer.\<close>

lemma consumer_frame:
  assumes inv: "session_inv s (ts, (q, c))" and i: "i < length ts" and p: "ts ! i = (Consumer cid p, kb)"
    and st: "(l, (q', c')) \<in> set (session_step s i ts (q, c))"
    and l: "l = (Consumer cid p', kb')" "consumer_ok s p' kb'"
    and busy: "p \<noteq> Consumer_Done"
    and flags: "closed_flag q' = closed_flag q" "shutdown_flag q' = shutdown_flag q"
    and drains: "drained l \<Longrightarrow> items q' = [] \<and> (closed_flag q' \<or> shutdown_flag q')"
    and stays: "items q = [] \<Longrightarrow> items q' = []"
    and logs: "log_in q' = log_in q"
    and consumed: "items_consumed c' = items_consumed c + of_nat d"
        "d + uncounted l + length (log_out q) = uncounted (ts ! i) + length (log_out q')"
    and c: "producer_tracker c' = producer_tracker c"
        "length (thread_counts (consumer_tracker c')) = length (thread_counts (consumer_tracker c))"
    and summed: "sum_list (thread_counts (consumer_tracker c'))
          = sum_list (thread_counts (consumer_tracker c)) + of_nat e"
        "variant s = MPMC \<Longrightarrow>
          e + unrecorded l + length (log_out q) = unrecorded (ts ! i) + length (log_out q')"
  shows "session_inv s (ts[i := l], (q', c'))"
proof -
  have phase: "phase_inv s ts q" and tally: "tally_inv s ts q c"
    using inv by (auto elim: session_invE)
  have role: "i = Suc (producers s + cid)" "cid < consumers s"
    using inv i p by (auto elim!: session_invE dest!: spec [of _ i])
  show ?thesis
  proof (rule session_frame [OF inv i st])
    show "role_at s i (fst l)" "local_ok s l" using l role by simp_all
    show "phase_inv s (ts[i := l]) q'"
      using p l busy role flags stays
      by (intro phase_worker [OF phase i _ _ _ _ _ _ _ drains]) simp_all
    show "tally_inv s (ts[i := l]) q' c'"
      using p l role c logs
      by (intro tally_frame [OF tally i _ consumed _ _ _ summed]) simp_all
  qed
qed

lemma consumer_keeps:
  assumes inv: "session_inv s (ts, (q, c))" and i: "i < length ts"
    and p: "ts ! i = (Consumer cid p, kb)"
    and st: "(l, (q', c')) \<in> set (session_step s i ts (q, c))"
  shows "session_inv s (ts[i := l], (q', c'))"
proof -
  have phase: "phase_inv s ts q" and tally: "tally_inv s ts q c"
    using inv by (auto elim: session_invE)
  have role: "i = Suc (producers s + cid)" "cid < consumers s"
    using inv i p by (auto elim!: session_invE dest!: spec [of _ i])
  have lok: "consumer_ok s p kb" using session_local [OF inv i] p by simp
  have dry: "items q = [] \<and> (closed_flag q \<or> shutdown_flag q)" if "drained (ts ! i)"
    using phase i that by (auto simp: phase_inv_def list_all_length)
  have cl: "cid < length (thread_counts (consumer_tracker c))"
    using tally role by (simp add: tally_inv_def)
  have st': "(l, (q', c')) \<in> set (client_step (session_prog s) (session_after s) queue_entry
      queue_step i ts (q, c))" using st by (simp add: session_step_def)
  have psi: "map fst ts ! i = Consumer cid p" using p i by simp
  note goal = consumer_frame [OF inv i p st]
  from st' show ?thesis
  proof (cases rule: client_step_cases)
    case (call p0 oper)
    then have *: "consumer_prog s cid p (map fst ts) c = Some (Inl oper)" "kb = None"
      "l = (Consumer cid p, Some (queue_entry oper))" "q' = q" "c' = c"
      using p by (auto simp: session_prog_consumer [OF psi])
    then show ?thesis
      using goal [OF *(3), where d = 0 and e = 0] lok p by (cases p) (auto split: if_splits)
  next
    case (local p0 p' c'')
    then obtain p1 where *: "consumer_prog s cid p (map fst ts) c = Some (Inr (p1, c'))" "kb = None"
      "l = (Consumer cid p1, None)" "q' = q"
      using p by (auto simp: session_prog_consumer [OF psi])
    have rec: "sum_list (thread_counts (record_operation cid (consumer_tracker c)))
        = sum_list (thread_counts (consumer_tracker c)) + 1"
      using sum_list_bump [OF cl] cl by (simp add: record_operation_def)
    show ?thesis
      using goal [OF *(3), where d = "of_bool (p = Consumer_Count)" and e = "of_bool (p = Consumer_Record)"] * lok p rec
      by (cases p) (auto split: if_splits)
  next
    case (within p0 k k' g')
    then have *: "kb = Some k" "l = (Consumer cid p, Some k')" "q' = g'" "c' = c" using p by auto
    then have pop: "p = Consumer_Pop" "popping k" using lok by (cases p; simp)+
    have qa: "queue_assert q k" using session_assert [OF inv i] p *(1) by blast
    have "items q = []" if "waking k" using dry p *(1) that by simp
    note pc = pop_call [OF pop(2) within(2) qa this]
    show ?thesis
      using goal [OF *(2), where d = 0 and e = 0] pop pc * p by auto
  next
    case (return p0 k v g')
    then have *: "kb = Some k" "l = (session_after s i (Consumer cid p) v, None)" "q' = g'" "c' = c"
      using p by auto
    then have pop: "p = Consumer_Pop" "popping k" using lok by (cases p; simp)+
    have qa: "queue_assert q k" using session_assert [OF inv i] p *(1) by blast
    have "items q = []" if "waking k" using dry p *(1) that by simp
    note pc = pop_call [OF pop(2) return(2) qa this]
    show ?thesis
      using goal [where p' = "if v = Popped None then Consumer_Done else Consumer_Count" and kb' = None and d = 0 and e = 0] pop pc * p
      by (cases "v = Popped None") auto
  qed
qed

lemma session_keeps:
  assumes inv: "session_inv s (ts, (q, c))" and ok: "session_ok s" and i: "i < length ts"
    and st: "(l, (q', c')) \<in> set (session_step s i ts (q, c))"
  shows "session_inv s (ts[i := l], (q', c'))"
proof -
  have role: "role_at s i (fst (ts ! i))" using inv i by (auto elim: session_invE)
  obtain p kb where p: "ts ! i = (p, kb)" by force
  show ?thesis
  proof (cases p)
    case (Boss b)
    with role p have "i = 0" by simp
    with boss_keeps [OF inv ok] p Boss st show ?thesis by blast
  next
    case (Producer pid p')
    with producer_keeps [OF inv ok i] p st show ?thesis by blast
  next
    case (Consumer cid p')
    with consumer_keeps [OF inv i] p st show ?thesis by blast
  qed
qed

section \<open>The start and the end\<close>

lemma start_threads:
  assumes "j < Suc (producers s + consumers s)"
  shows "fst (session_start s) ! j = (if j = 0 then (Boss (Boss_Spawn 0), None)
    else if j \<le> producers s then (Producer (j - 1) Producer_Unborn, None)
    else (Consumer (j - 1 - producers s) Consumer_Unborn, None))"
  using assms by (auto simp: session_start_def client_start_def nth_append nth_Cons split: nat.splits)

lemma session_start_inv: "session_inv s (session_start s)"
proof -
  let ?ts = "fst (session_start s)"
  have len: "length ?ts = Suc (producers s + consumers s)"
    by (simp add: session_start_def client_start_def)
  note nth = start_threads [of _ s]
  have all: "list_all P ?ts"
    if "P (Boss (Boss_Spawn 0), None)" "\<And>j. P (Producer j Producer_Unborn, None)"
      "\<And>j. P (Consumer j Consumer_Unborn, None)" for P
    using that len nth by (auto simp: list_all_length)
  have none: "list_all (\<lambda>k. k = None) (map snd ?ts)"
    using all [of "\<lambda>t. snd t = None"] by (simp add: list.pred_map comp_def)
  have "tmset (sent s) ?ts = {#}"
    using all [of "\<lambda>t. sent s t = {#}"] by (intro tmset_empty) (auto simp: list_all_iff)
  moreover have "tsum uncounted ?ts = 0" "tsum unrecorded ?ts = 0"
    using all [of "\<lambda>t. uncounted t = 0"] all [of "\<lambda>t. unrecorded t = 0"]
    by (auto simp: tsum_eq_0_iff list_all_iff)
  moreover have "recorded s (fst (?ts ! Suc pid)) = 0" if "pid < producers s" for pid
    using that nth [of "Suc pid"] by simp
  ultimately have "tally_inv s ?ts (fst (snd (session_start s))) (snd (snd (session_start s)))"
    by (simp add: tally_inv_def session_start_def client_start_def sem_queue_ctor_def
        variance_tracker_ctor_def sum_list_replicate)
  moreover have "phase_inv s ?ts (fst (snd (session_start s)))"
    using nth [of 0] len all [of "\<lambda>t. \<forall>pid q'. t \<noteq> (Producer pid Producer_Done, q')"] all [of "\<lambda>t. \<not> drained t"]
    by (auto simp: phase_inv_def session_start_def client_start_def sem_queue_ctor_def list_all_iff)
  moreover have "queue_inv_of (capacity s) (map snd ?ts) (fst (snd (session_start s)))"
    using queue_inv_start [OF none, of "capacity s"]
    by (simp add: session_start_def client_start_def sem_queue_ctor_def)
  moreover have "list_all (local_ok s) ?ts" by (rule all) simp_all
  moreover have "role_at s i (fst (?ts ! i))" if "i < length ?ts" for i
    using that nth [of i] len by auto
  ultimately show ?thesis
    using len by (cases "session_start s"; cases "snd (session_start s)") (simp add: session_inv_def)
qed

lemma length_first_items: "size (first_items s pid n) = n"
  by (simp add: first_items_def)

lemma size_all_items: "size (all_items s) = producers s * per_producer s"
proof -
  have "size (sum_list (map (\<lambda>pid. first_items s pid (per_producer s)) ps)) = length ps * per_producer s"
    for ps by (induction ps) (simp_all add: length_first_items)
  then show ?thesis by (simp add: all_items_def)
qed

lemma drained_empty: "phase_inv s ts q \<Longrightarrow> i < length ts \<Longrightarrow> drained (ts ! i) \<Longrightarrow> items q = []"
  by (auto simp: phase_inv_def list_all_length)

lemma session_end:
  assumes inv: "session_inv s (ts, (q, c))" and ok: "session_ok s" and b: "ts ! 0 = (Boss Boss_Done, kb)"
  shows "session_done s (ts, (q, c))"
proof -
  have len: "length ts = Suc (producers s + consumers s)" and phase: "phase_inv s ts q"
    and tally: "tally_inv s ts q c" and qi: "queue_inv (map snd ts) q"
    using inv by (auto elim: session_invE)
  have "boss_ok s Boss_Done kb" using session_local [OF inv, of 0] b len by simp
  then have "kb = None" by simp
  from phase b have ps: "\<And>j. j < producers s \<Longrightarrow> ts ! Suc j = (Producer j Producer_Done, None)"
    and cs: "\<And>j. j < consumers s \<Longrightarrow> ts ! Suc (producers s + j) = (Consumer j Consumer_Done, None)"
    by (auto simp: phase_inv_def)
  let ?final = "map (\<lambda>p. (p, None)) (Boss Boss_Done # map (\<lambda>i. Producer i Producer_Done) [0..<producers s]
       @ map (\<lambda>i. Consumer i Consumer_Done) [0..<consumers s])"
  have ts: "ts = ?final"
  proof (rule nth_equalityI)
    fix i
    assume "i < length ts"
    then consider "i = 0" | j where "i = Suc j" "j < producers s"
      | j where "i = Suc (producers s + j)" "j < consumers s"
      using len by (metis add_diff_inverse_nat less_Suc_eq_0_disj nat_add_left_cancel_less not_less)
    then show "ts ! i = ?final ! i"
      by cases (use b \<open>kb = None\<close> ps cs in \<open>auto simp: nth_append\<close>)
  qed (simp add: len)
  have "0 < consumers s" using ok by (simp add: session_ok_def)
  then have "drained (ts ! Suc (producers s + 0))" using cs [of 0] by simp
  then have empty: "items q = []"
    using drained_empty [OF phase, of "Suc (producers s + 0)"] len \<open>0 < consumers s\<close> by simp
  have "tmset (sent s) ts = all_items s"
    by (subst ts) (simp add: tmset_def all_items_def comp_def)
  moreover have "log_in q = log_out q" using qi empty by (simp add: queue_inv_def)
  ultimately have out: "mset (log_out q) = all_items s"
    using tally by (simp add: tally_inv_def)
  then have n: "length (log_out q) = producers s * per_producer s"
    by (metis size_mset size_all_items)
  have "tsum uncounted ts = 0" "tsum unrecorded ts = 0"
    by (subst ts; simp add: tsum_eq_0_iff)+
  moreover have "thread_counts (producer_tracker c) = replicate (producers s) (of_nat (per_producer s))"
    if "variant s = MPMC"
    using tally that ps by (intro nth_equalityI) (auto simp: tally_inv_def)
  ultimately show ?thesis
    using ts empty out n tally by (simp add: session_done_def tally_inv_def)
qed

section \<open>Progress\<close>

lemma session_step_stuck:
  assumes "session_step s i ts (q, c) = []" "ts ! i = (p, kb)"
  shows "kb = None \<Longrightarrow> session_prog s i (map fst ts) c = None"
    and "kb = Some k \<Longrightarrow> queue_step i k q = []"
  using assms by (auto simp: session_step_def client_step.simps split: option.splits sum.splits)

lemma stuck_waits:
  assumes inv: "session_inv s (ts, (q, c))" and ok: "session_ok s"
    and stuck: "\<And>i. i < length ts \<Longrightarrow> session_step s i ts (q, c) = []"
    and "i < length ts" "ts ! i = (p, Some k)"
  shows "(waits_for_slot k \<and> items q \<noteq> []) \<or> (waits_for_item k \<and> items q = [] \<and> \<not> closed_flag q)"
proof -
  have qi: "queue_inv (map snd ts) q" "max_size q = capacity s" using inv by (auto elim: session_invE)
  have pos: "0 < capacity s" using ok by (simp add: session_ok_def)
  have "queue_step j k' q = []" if "j < length (map snd ts)" "map snd ts ! j = Some k'" for j k'
    using session_step_stuck(2) [OF stuck] that by (metis length_map nth_map prod.collapse)
  then show ?thesis using all_blocked [OF qi(1), of i k] assms(4,5) qi(2) pos by auto
qed

lemma producer_stuck:
  assumes inv: "session_inv s (ts, (q, c))" and ok: "session_ok s"
    and stuck: "\<And>i. i < length ts \<Longrightarrow> session_step s i ts (q, c) = []"
    and started: "started (map fst ts ! 0) j" and j: "j < producers s"
  shows "ts ! Suc j = (Producer j Producer_Done, None) \<or> items q \<noteq> []"
proof -
  have len: "length ts = Suc (producers s + consumers s)" using inv by (auto elim: session_invE)
  note waits = stuck_waits [OF inv ok stuck]
  obtain p kk where p: "ts ! Suc j = (Producer j p, kk)"
    using inv j len by (elim session_invE) (cases "ts ! Suc j"; cases "fst (ts ! Suc j)";
      fastforce dest!: spec [of _ "Suc j"])
  have lp: "producer_ok s j p kk" using session_local [OF inv, of "Suc j"] p j len by simp
  show ?thesis
  proof (cases kk)
    case None
    have "session_prog s (Suc j) (map fst ts) c = None"
      using session_step_stuck(1) [OF stuck p None] j len by simp
    then have "producer_prog s j p (map fst ts) c = None"
      using p j len by (auto simp: session_prog_def)
    then have "p = Producer_Done" using started by (cases p) auto
    with p None show ?thesis by simp
  next
    case (Some k)
    then have "\<not> waits_for_item k" using lp by (cases p; cases k) auto
    then show ?thesis using waits [of "Suc j"] p Some j len by auto
  qed
qed

lemma consumer_stuck:
  assumes inv: "session_inv s (ts, (q, c))" and ok: "session_ok s"
    and stuck: "\<And>i. i < length ts \<Longrightarrow> session_step s i ts (q, c) = []"
    and started: "started (map fst ts ! 0) (producers s + j)" and j: "j < consumers s"
  shows "ts ! Suc (producers s + j) = (Consumer j Consumer_Done, None) \<or> items q = [] \<and> \<not> closed_flag q"
proof -
  have len: "length ts = Suc (producers s + consumers s)" using inv by (auto elim: session_invE)
  note waits = stuck_waits [OF inv ok stuck]
  let ?i = "Suc (producers s + j)"
  obtain p kk where p: "ts ! ?i = (Consumer j p, kk)"
    using inv j len by (elim session_invE) (cases "ts ! ?i"; cases "fst (ts ! ?i)";
      fastforce dest!: spec [of _ ?i])
  have lp: "consumer_ok s p kk" using session_local [OF inv, of ?i] p j len by simp
  show ?thesis
  proof (cases kk)
    case None
    have "session_prog s ?i (map fst ts) c = None"
      using session_step_stuck(1) [OF stuck p None] j len by simp
    then have "consumer_prog s j p (map fst ts) c = None"
      using p j len by (auto simp: session_prog_def)
    then have "p = Consumer_Done" using started by (cases p) auto
    with p None show ?thesis by simp
  next
    case (Some k)
    then have "\<not> waits_for_slot k" using lp by (cases p; cases k) auto
    then show ?thesis using waits [of ?i] p Some j len by auto
  qed
qed

lemma session_stuck:
  assumes inv: "session_inv s (ts, (q, c))" and ok: "session_ok s"
    and stuck: "\<And>i. i < length ts \<Longrightarrow> session_step s i ts (q, c) = []"
  shows "session_done s (ts, (q, c))"
proof -
  have len: "length ts = Suc (producers s + consumers s)" and phase: "phase_inv s ts q"
    using inv by (auto elim: session_invE)
  have pos: "0 < capacity s" "0 < producers s" "0 < consumers s" using ok by (simp_all add: session_ok_def)
  note waits = stuck_waits [OF inv ok stuck]
  obtain b kb where b: "ts ! 0 = (Boss b, kb)" using phase by (auto simp: phase_inv_def)
  have lb: "boss_ok s b kb" using session_local [OF inv, of 0] b len by simp
  have "kb = None"
  proof (rule ccontr)
    assume "kb \<noteq> None"
    then obtain k where k: "kb = Some k" by blast
    then have "closing k \<or> shutting k" using lb by (cases b) auto
    then have "\<not> waits_for_slot k \<and> \<not> waits_for_item k" by (cases k) auto
    then show False using waits [of 0] b k len by auto
  qed
  have b0: "boss_prog s b (map fst ts) = None"
    using session_step_stuck(1) [OF stuck b \<open>kb = None\<close>] b len
    by (cases "boss_prog s b (map fst ts)") (auto simp: session_prog_def)
  have started: "started (map fst ts ! 0) j" for j using b b0 len by (cases b) (auto split: if_splits)
  note producer = producer_stuck [OF inv ok stuck started]
  note consumer = consumer_stuck [OF inv ok stuck started]
  have "b = Boss_Done"
  proof (cases b)
    case (Boss_Join_Producers k)
    then have k: "k < producers s" "ts ! Suc k \<noteq> (Producer k Producer_Done, None)"
      using b0 len by (auto split: if_splits)
    then have full: "items q \<noteq> []" using producer by blast
    then have "ts ! Suc (producers s + 0) = (Consumer 0 Consumer_Done, None)" using consumer pos(3) by blast
    then have "drained (ts ! Suc (producers s + 0))" by simp
    then have "items q = []"
      using drained_empty [OF phase, of "Suc (producers s + 0)"] len pos(3) by simp
    with full show ?thesis by simp
  next
    case (Boss_Join_Consumers k)
    then have k: "k < consumers s" "ts ! Suc (producers s + k) \<noteq> (Consumer k Consumer_Done, None)"
      using b0 len by (auto split: if_splits)
    moreover have "closed_flag q" using phase b Boss_Join_Consumers by (auto simp: phase_inv_def)
    ultimately show ?thesis using consumer by blast
  qed (use b0 in auto)
  with session_end [OF inv ok] b show ?thesis by blast
qed

section \<open>Termination\<close>

text \<open>
  The steps left: every program counter has a rank below that of its predecessors.  A consumer
  that takes an item may call \<open>pop\<close> again, which the total of items not yet taken pays for.
\<close>

fun push_rank :: "'a push_pc \<Rightarrow> nat" where
  "push_rank (Push_Shut1 x) = 13" | "push_rank (Push_Closed1 x) = 12" | "push_rank (Push_Acquire x) = 11"
| "push_rank (Push_Shut2 x) = 10" | "push_rank (Push_Closed2 x) = 9" | "push_rank Push_Back = 3"
| "push_rank (Push_Lock x) = 8" | "push_rank (Push_Shut3 x) = 7" | "push_rank (Push_Closed3 x) = 6"
| "push_rank Push_Abort = 4" | "push_rank Push_Abort_Unlock = 3" | "push_rank (Push_Enqueue x) = 5"
| "push_rank Push_Unlock = 4" | "push_rank Push_Release = 3"

fun pop_rank :: "'a pop_pc \<Rightarrow> nat" where
  "pop_rank Pop_Lock1 = 13" | "pop_rank Pop_Empty1 = 12" | "pop_rank Pop_Shut1 = 11"
| "pop_rank Pop_Closed1 = 10" | "pop_rank Pop_Drained = 2" | "pop_rank Pop_Unlock1 = 9"
| "pop_rank Pop_Acquire = 8" | "pop_rank Pop_Lock2 = 7" | "pop_rank Pop_Empty2 = 6"
| "pop_rank Pop_Take = 5" | "pop_rank (Pop_Give x) = 21" | "pop_rank (Pop_Unlock_Taken x) = 20"
| "pop_rank Pop_Unlock2 = 5" | "pop_rank Pop_Shut2 = 4" | "pop_rank Pop_Closed2 = 3" | "pop_rank Pop_Back = 2"

fun close_rank :: "nat \<Rightarrow> close_pc \<Rightarrow> nat" where
  "close_rank m Close_Store = m + 3" | "close_rank m (Close_Wake n) = n + 1"
| "close_rank m Shut_Store = 2 * m + 9" | "close_rank m Shut_Close = 2 * m + 8"
| "close_rank m (Shut_Wake_Consumers n) = n + m + 5" | "close_rank m (Shut_Wake_Producers n) = n + 1"

fun call_rank :: "nat \<Rightarrow> 'a queue_pc \<Rightarrow> nat" where
  "call_rank m (In_Push k) = push_rank k"
| "call_rank m (In_Pop k) = pop_rank k"
| "call_rank m (In_Close k) = close_rank m k"
| "call_rank m (In_Look k) = 0"

lemma call_rank_within:
  assumes "(Inl k', q') \<in> set (queue_step i k q)" "queue_assert q k"
    and "popping k \<or> closing k \<or> shutting k \<or> pushing x k"
  shows "call_rank (max_size q) k' < call_rank (max_size q) k \<and> log_out q' = log_out q
    \<or> k = In_Pop Pop_Take \<and> call_rank (max_size q) k' = 21 \<and> length (log_out q') = Suc (length (log_out q))"
proof (cases k)
  case (In_Push p)
  with assms(1) show ?thesis by (cases p) (auto simp: queue_access split: if_splits)
next
  case (In_Pop p)
  with assms(1,2) show ?thesis by (cases p) (auto simp: queue_access split: if_splits)
next
  case (In_Close p)
  with assms(1) show ?thesis by (cases "(p, q)" rule: close_step.cases) (auto simp: queue_access)
next
  case (In_Look p)
  with assms(3) show ?thesis by simp
qed

lemma call_rank_return:
  assumes "(Inr v, q') \<in> set (queue_step i k q)"
  shows "log_out q' = log_out q" "(\<exists>x. v = Popped (Some x)) \<Longrightarrow> call_rank m k = 20"
proof -
  have "log_out q' = log_out q \<and> ((\<exists>x. v = Popped (Some x)) \<longrightarrow> call_rank m k = 20)"
  proof (cases k)
    case (In_Push p)
    with assms show ?thesis by (cases p) (auto simp: queue_access split: if_splits)
  next
    case (In_Pop p)
    with assms show ?thesis by (cases p) (auto simp: queue_access split: if_splits)
  next
    case (In_Close p)
    with assms show ?thesis by (cases "(p, q)" rule: close_step.cases) (auto simp: queue_access)
  next
    case (In_Look p)
    with assms show ?thesis by (cases p) (auto simp: queue_access split: if_splits)
  qed
  then show "log_out q' = log_out q" "(\<exists>x. v = Popped (Some x)) \<Longrightarrow> call_rank m k = 20" by simp_all
qed

fun boss_rank :: "session \<Rightarrow> boss_pc \<Rightarrow> nat" where
  "boss_rank s (Boss_Spawn k) = (producers s + consumers s - k) + producers s + consumers s + 3 * capacity s + 24"
| "boss_rank s (Boss_Join_Producers k) = (producers s - k) + consumers s + 3 * capacity s + 22"
| "boss_rank s Boss_Close = consumers s + 3 * capacity s + 20"
| "boss_rank s (Boss_Join_Consumers k) = (consumers s - k) + 2 * capacity s + 14"
| "boss_rank s Boss_Shutdown = 2 * capacity s + 12"
| "boss_rank s Boss_Done = 0"

fun producer_rank :: "session \<Rightarrow> producer_pc \<Rightarrow> nat" where
  "producer_rank s Producer_Unborn = per_producer s * 17 + capacity s + 9"
| "producer_rank s (Producer_Loop j) = (per_producer s - j) * 17 + capacity s + 8"
| "producer_rank s (Producer_Record j) = (per_producer s - Suc j) * 17 + capacity s + 9"
| "producer_rank s Producer_Close = capacity s + 6"
| "producer_rank s Producer_Done = 0"

fun consumer_rank :: "consumer_pc \<Rightarrow> nat" where
  "consumer_rank Consumer_Unborn = 18"
| "consumer_rank Consumer_Pop = 17"
| "consumer_rank Consumer_Count = 20"
| "consumer_rank Consumer_Record = 19"
| "consumer_rank Consumer_Done = 0"

fun session_rank1 :: "session \<Rightarrow> session_local \<Rightarrow> nat" where
  "session_rank1 s (Boss b, None) = boss_rank s b"
| "session_rank1 s (Boss b, Some k) = call_rank (capacity s) k + 1
     + (if b = Boss_Close then consumers s + 2 * capacity s + 14 else 0)"
| "session_rank1 s (Producer pid p, None) = producer_rank s p"
| "session_rank1 s (Producer pid p, Some k) = call_rank (capacity s) k + 1
     + (case p of Producer_Loop j \<Rightarrow> (per_producer s - Suc j) * 17 + capacity s + 9 | _ \<Rightarrow> 0)"
| "session_rank1 s (Consumer cid p, None) = consumer_rank p"
| "session_rank1 s (Consumer cid p, Some k) = call_rank (capacity s) k + 1"

definition session_rank :: "session
  \<Rightarrow> (session_pc \<times> 32 word queue_pc option, 32 word sem_queue \<times> tallies) conf \<Rightarrow> nat" where
  "session_rank s conf = (case conf of (ts, (q, c)) \<Rightarrow>
     tsum (session_rank1 s) ts + 18 * (producers s * per_producer s - length (log_out q)))"

lemma session_log_bound:
  assumes inv: "session_inv s (ts, (q, c))"
  shows "length (log_in q) \<le> producers s * per_producer s"
proof -
  have len: "length ts = Suc (producers s + consumers s)" and tally: "tally_inv s ts q c"
    using inv by (auto elim: session_invE)
  have w: "size (sent s (ts ! i)) \<le> (if 0 < i \<and> i \<le> producers s then per_producer s else 0)"
    if i: "i < length ts" for i
  proof -
    have lok: "local_ok s (ts ! i)" "role_at s i (fst (ts ! i))"
      using session_local [OF inv i] inv i by (auto elim: session_invE)
    obtain p kb where p: "ts ! i = (p, kb)" by force
    show ?thesis
    proof (cases p)
      case (Producer pid pp)
      then have "sent_count s (ts ! i) \<le> per_producer s"
        using lok p by (cases pp; cases kb; cases "the kb")
          (auto split: push_pc.splits)
      then show ?thesis using p Producer lok by (simp add: length_first_items)
    qed (use p in simp_all)
  qed
  have "length (log_in q) = size (tmset (sent s) ts)"
    using tally by (metis size_mset tally_inv_def)
  also have "\<dots> = (\<Sum>i<length ts. size (sent s (ts ! i)))"
    by (induction ts rule: rev_induct) (simp_all add: nth_append)
  also have "\<dots> \<le> (\<Sum>i<length ts. if 0 < i \<and> i \<le> producers s then per_producer s else 0)"
    using w by (intro sum_mono) simp
  also have "\<dots> = producers s * per_producer s"
  proof -
    have "{i. i < length ts \<and> 0 < i \<and> i \<le> producers s} = {1..producers s}" using len by auto
    then show ?thesis by (simp add: sum.If_cases Int_def lessThan_def conj_commute)
  qed
  finally show ?thesis .
qed

lemma local_call:
  assumes "local_ok s (p, Some k)"
  shows "\<exists>x. popping k \<or> closing k \<or> shutting k \<or> pushing x k"
proof (cases p)
  case (Boss b)
  with assms show ?thesis by (cases b) auto
next
  case (Producer pid pp)
  with assms show ?thesis by (cases pp) auto
next
  case (Consumer cid pp)
  with assms show ?thesis by (cases pp) auto
qed

lemma call_rank_mono:
  "call_rank (capacity s) k' < call_rank (capacity s) k
    \<Longrightarrow> session_rank1 s (p, Some k') < session_rank1 s (p, Some k)"
  by (cases p) auto

lemma session_call_rank:
  assumes "session_prog s i ps c = Some (Inl oper)" "ps ! i = p" "local_ok s (p, None)"
  shows "session_rank1 s (p, Some (queue_entry oper)) < session_rank1 s (p, None)"
proof (cases p)
  case (Boss b)
  with assms show ?thesis
    by (cases b) (auto simp: session_prog_boss(1) [of ps i b] split: if_splits)
next
  case (Producer pid pp)
  with assms show ?thesis
    by (cases pp) (auto simp: session_prog_producer(1) [of ps i pid pp] split: if_splits)
next
  case (Consumer cid pp)
  with assms show ?thesis
    by (cases pp) (auto simp: session_prog_consumer(1) [of ps i cid pp] split: if_splits)
qed

lemma session_local_rank:
  assumes "session_prog s i ps c = Some (Inr (p', c'))" "ps ! i = p" "local_ok s (p, None)"
  shows "session_rank1 s (p', None) < session_rank1 s (p, None)"
proof (cases p)
  case (Boss b)
  with assms show ?thesis
    by (cases b) (auto simp: session_prog_boss(2) [of ps i b] split: if_splits)
next
  case (Producer pid pp)
  with assms show ?thesis
    by (cases pp) (auto simp: session_prog_producer(2) [of ps i pid pp] split: if_splits)
next
  case (Consumer cid pp)
  with assms show ?thesis
    by (cases pp) (auto simp: session_prog_consumer(2) [of ps i cid pp] split: if_splits)
qed

lemma session_return_rank:
  assumes "(Inr v, q') \<in> set (queue_step i k q)" "local_ok s (p, Some k)"
  shows "session_rank1 s (session_after s i p v, None) < session_rank1 s (p, Some k)"
proof (cases p)
  case (Boss b)
  with assms(2) show ?thesis by (cases b) auto
next
  case (Producer pid pp)
  with assms(2) show ?thesis by (cases pp) auto
next
  case (Consumer cid pp)
  with assms(2) have "popping k" "pp = Consumer_Pop" by (cases pp; simp)+
  then obtain kp where k: "k = In_Pop kp" by (cases k) auto
  have "(\<exists>x. v = Popped (Some x)) \<or> v = Popped None"
    using assms(1) k by (auto simp: map_sum_def split: sum.splits option.splits)
  then show ?thesis
    using call_rank_return(2) [OF assms(1), of "capacity s"] Consumer by auto
qed

lemma session_step_rank:
  assumes inv: "session_inv s (ts, (q, c))" and i: "i < length ts"
    and st: "(l, (q', c')) \<in> set (session_step s i ts (q, c))"
  shows "session_rank1 s l < session_rank1 s (ts ! i) \<and> log_out q' = log_out q
    \<or> session_rank1 s l < session_rank1 s (ts ! i) + 18 \<and> length (log_out q') = Suc (length (log_out q))"
proof -
  have lok: "local_ok s (ts ! i)" by (rule session_local [OF inv i])
  have m: "max_size q = capacity s" using inv by (auto elim: session_invE)
  from st have "(l, (q', c')) \<in> set (client_step (session_prog s) (session_after s) queue_entry
      queue_step i ts (q, c))" by (simp add: session_step_def)
  then show ?thesis
  proof (cases rule: client_step_cases)
    case (call p oper)
    then show ?thesis using session_call_rank [of s i "map fst ts" c oper p] lok i by simp
  next
    case (local p p' c'')
    then show ?thesis using session_local_rank [of s i "map fst ts" c p' c'' p] lok i by simp
  next
    case (within p k k' g')
    then obtain x where "popping k \<or> closing k \<or> shutting k \<or> pushing x k" using local_call lok by metis
    from call_rank_within [OF within(2) session_assert [OF inv i within(1)] this]
    show ?thesis
      using within m call_rank_mono [of s k' k p] by (cases p) auto
  next
    case (return p k v g')
    then show ?thesis
      using session_return_rank [OF return(2)] lok call_rank_return(1) [OF return(2)] by simp
  qed
qed

lemma session_decrease:
  assumes inv: "session_inv s (ts, (q, c))" and ok: "session_ok s" and i: "i < length ts"
    and st: "(l, (q', c')) \<in> set (session_step s i ts (q, c))"
  shows "session_rank s (ts[i := l], (q', c')) < session_rank s (ts, (q, c))"
proof -
  have inv': "session_inv s (ts[i := l], (q', c'))" by (rule session_keeps [OF inv ok i st])
  have "length (log_out q') \<le> length (log_in q')"
    using inv' by (auto elim!: session_invE simp: queue_inv_def)
  also have "\<dots> \<le> producers s * per_producer s" by (rule session_log_bound [OF inv'])
  finally show ?thesis
    using session_step_rank [OF inv i st] tsum_update [OF i, of "session_rank1 s" l]
    by (auto simp: session_rank_def)
qed

lemma session_progress:
  assumes inv: "session_inv s (ts, (q, c))" and ok: "session_ok s" and nf: "\<not> session_done s (ts, (q, c))"
  shows "\<exists>conf. move (session_step s) (ts, (q, c)) conf"
proof -
  obtain i where i: "i < length ts" "session_step s i ts (q, c) \<noteq> []"
    using session_stuck [OF inv ok] nf by blast
  then obtain l q' c' where st: "(l, (q', c')) \<in> set (session_step s i ts (q, c))"
    by (metis list.set_intros(1) neq_Nil_conv surj_pair)
  have "istep (session_step s) (ts, (q, c)) (ts[i := l], (q', c'))" using i(1) st by (rule istepI)
  moreover have "(ts[i := l], (q', c')) \<noteq> (ts, (q, c))"
    using session_decrease [OF inv ok i(1) st] by auto
  ultimately show ?thesis unfolding move_def by blast
qed

text \<open>Sessions of acceptable parameters are interleavings that always finish.\<close>

lemma spsc_ok: "session_ok (spsc_session (Suc n))"
  by (simp add: session_ok_def spsc_session_def)

lemma mpmc_ok: "session_ok (mpmc_session (Suc (Suc n)))"
  by (simp add: session_ok_def mpmc_session_def)

lemma smoke_ok: "session_ok smoke_session"
  by (simp add: session_ok_def smoke_session_def)

lemma session_live:
  assumes ok: "session_ok s"
  shows "live_interleaving (session_step s) (session_start s) (session_inv s) (session_done s) (session_rank s)"
proof
  show "session_inv s (session_start s)" by (rule session_start_inv)
next
  fix ts g i l g'
  assume "session_inv s (ts, g)" "i < length ts" "(l, g') \<in> set (session_step s i ts g)"
  then show "session_inv s (ts[i := l], g')"
    using session_keeps ok by (cases g; cases g') blast
next
  fix conf
  assume "session_inv s conf" "\<not> session_done s conf"
  then show "\<exists>c'. move (session_step s) conf c'"
    using session_progress ok by (cases conf; cases "snd conf") auto
next
  fix ts g i l g'
  assume "session_inv s (ts, g)" "i < length ts" "(l, g') \<in> set (session_step s i ts g)"
  then show "session_rank s (ts[i := l], g') < session_rank s (ts, g)"
    using session_decrease ok by (cases g; cases g') blast
qed

interpretation spsc: live_interleaving "session_step (spsc_session (Suc n))"
  "session_start (spsc_session (Suc n))" "session_inv (spsc_session (Suc n))"
  "session_done (spsc_session (Suc n))" "session_rank (spsc_session (Suc n))" for n
  by (rule session_live [OF spsc_ok])

interpretation mpmc: live_interleaving "session_step (mpmc_session (Suc (Suc n)))"
  "session_start (mpmc_session (Suc (Suc n)))" "session_inv (mpmc_session (Suc (Suc n)))"
  "session_done (mpmc_session (Suc (Suc n)))" "session_rank (mpmc_session (Suc (Suc n)))" for n
  by (rule session_live [OF mpmc_ok])

interpretation smoke_q: live_interleaving "session_step smoke_session"
  "session_start smoke_session" "session_inv smoke_session"
  "session_done smoke_session" "session_rank smoke_session"
  by (rule session_live [OF smoke_ok])

lemma session_start_rank:
  "session_rank s (session_start s) = 2 * (producers s + consumers s) + 3 * capacity s + 24
    + producers s * (35 * per_producer s + capacity s + 9) + 18 * consumers s"
proof -
  have "tsum (session_rank1 s) (map (\<lambda>i. (Producer i Producer_Unborn, None)) ps)
      = length ps * (17 * per_producer s + capacity s + 9)"
    "tsum (session_rank1 s) (map (\<lambda>i. (Consumer i Consumer_Unborn, None)) ps) = length ps * 18"
    for ps by (induction ps) (simp_all add: algebra_simps)
  then show ?thesis
    by (simp add: session_rank_def session_start_def client_start_def sem_queue_ctor_def comp_def
        algebra_simps)
qed

section \<open>The sessions always finish\<close>

lemma mpmc_session_ends:
  "finishes (session_step (mpmc_session (Suc (Suc n)))) (session_start (mpmc_session (Suc (Suc n))))
     (session_done (mpmc_session (Suc (Suc n)))) (35077 * (Suc (Suc n)) + 174)"
proof (rule mpmc.always_finishes)
  let ?s = "mpmc_session (Suc (Suc n))"
  have "producers ?s + consumers ?s = Suc (Suc n)" "producers ?s \<le> Suc (Suc n)"
    "consumers ?s \<le> Suc (Suc n)" "capacity ?s = 50" "per_producer ?s = 1000"
    by (simp_all add: mpmc_session_def)
  then show "session_rank ?s (session_start ?s) \<le> 35077 * (Suc (Suc n)) + 174"
    by (simp add: session_start_rank algebra_simps)
qed

text \<open>
  C2. ProducerConsumer\_MPMC\_Semaphore: for every number of threads from two on, every run of
  one benchmark iteration ends, within the stated number of steps, and it ends with all
  threads joined, the queue empty, exactly the produced items consumed, the consumed counter
  equal to their number, every producer's tracker at its quota and the consumers' trackers
  adding up to the total.  There is no deadlock, no lost wake-up and no lost item in any
  interleaving.
\<close>

theorem mpmc_session_finishes:
  "finishes (session_step (mpmc_session (Suc (Suc n)))) (session_start (mpmc_session (Suc (Suc n))))
     (session_done (mpmc_session (Suc (Suc n)))) (35077 * (Suc (Suc n)) + 174)"
  by (rule mpmc_session_ends)

text \<open>
  ProducerConsumer\_SPSC\_Semaphore: the same for the single producer, which closes the
  queue itself, and every capacity of at least one.
\<close>

theorem spsc_session_finishes:
  "finishes (session_step (spsc_session (Suc n))) (session_start (spsc_session (Suc n)))
     (session_done (spsc_session (Suc n))) (350059 + 4 * Suc n)"
  by (rule spsc.always_finishes) (simp add: session_start_rank spsc_session_def)

text \<open>
  The single producer, single consumer session of the smoke test drains its 100 items.
\<close>

theorem smoke_session_finishes:
  "finishes (session_step smoke_session) (session_start smoke_session)
     (session_done smoke_session) 3575"
  by (rule smoke_q.always_finishes) (simp add: session_start_rank smoke_session_def)

lemma producer_fairness_done:
  assumes "session_done (mpmc_session n) (ts, (q, c))" and "n \<le> 2 ^ 40"
  shows "coefficient_of_variation (producer_tracker c) = 0"
proof -
  have "thread_counts (producer_tracker c) = replicate (n div 2) 1000"
    using assms(1) by (simp add: session_done_def mpmc_session_def)
  then show ?thesis
    using binary64.equal_counts_cv [of "n div 2" 1000] assms(2)
    by (simp add: coefficient_of_variation_def get_counts_eq)
qed

text \<open>
  The counter \<open>producer_fairness\<close> of the MPMC benchmark measures nothing: every producer
  records its fixed quota before the session ends, so in every run the coefficient of
  variation that the benchmark reports is exactly 0.
\<close>

theorem producer_fairness_zero:
  assumes "steps (session_step (mpmc_session n)) (session_start (mpmc_session n)) (ts, (q, c))"
    and "session_done (mpmc_session n) (ts, (q, c))" and "n \<le> 2 ^ 40"
  shows "coefficient_of_variation (producer_tracker c) = 0"
  using assms(2,3) by (rule producer_fairness_done)

theorem producer_fairness_zero_witness:
  "\<exists>ts q c. steps (session_step (mpmc_session 2)) (session_start (mpmc_session 2)) (ts, (q, c))
    \<and> session_done (mpmc_session 2) (ts, (q, c))
    \<and> coefficient_of_variation (producer_tracker c) = 0"
proof -
  obtain ts q c where "steps (session_step (mpmc_session 2)) (session_start (mpmc_session 2)) (ts, (q, c))"
    "session_done (mpmc_session 2) (ts, (q, c))"
    using mpmc.final_reachable [of 0, OF rtranclp.rtrancl_refl] by (auto simp: numeral_2_eq_2)
  then show ?thesis using producer_fairness_zero [of 2 ts q c] by auto
qed

end
