(* ===== verification/Barrier.thy ===== *)
theory Barrier
  imports Clients
begin

text \<open>
  Barriers: the hand-written \<open>ManualBarrier\<close> of src/bench\_barrier.cpp (a mutex, a condition
  variable and a generation counter) and \<open>std::barrier\<close> as the standard specifies it.  The
  locale \<open>phase_barrier\<close> is the contract that both provide: a call goes from \<open>Before\<close> to
  \<open>Arrived\<close> to \<open>Released\<close>, and all the arrived calls are released together when the expected
  number of threads has arrived.  \<open>live_barrier\<close> adds that the calls make progress.
\<close>

section \<open>ManualBarrier\<close>

type_synonym size_t = "64 word"

record manual_barrier =
  bar_mtx :: bool
  bar_waiters :: "nat list"
  bar_count :: size_t
  bar_waiting :: size_t
  bar_generation :: size_t

definition manual_ctor :: "nat \<Rightarrow> manual_barrier" where
  "manual_ctor n = \<lparr>bar_mtx = False, bar_waiters = [], bar_count = of_nat n, bar_waiting = 0,
     bar_generation = 0\<rparr>"

text \<open>
  The program counters of \<open>arrive_and_wait\<close>; the argument is \<open>current_gen\<close>.  \<open>cv_.wait\<close> with a
  predicate is the loop Test, Wait, Blocked, Relock: waiting releases the mutex and registers
  the thread in one step, and a thread is woken when a notification removes it from the
  waiters, or, if \<open>spurious\<close> wake-ups are allowed, at any time.
\<close>

datatype arrive_pc =
    Arr_Lock
  | Arr_Read
  | Arr_Count size_t
  | Arr_Reset
  | Arr_Bump
  | Arr_Notify
  | Arr_Test size_t
  | Arr_Wait size_t
  | Arr_Blocked size_t
  | Arr_Relock size_t
  | Arr_Unlock

fun manual_step :: "bool \<Rightarrow> nat \<Rightarrow> arrive_pc \<Rightarrow> manual_barrier
  \<Rightarrow> ((arrive_pc + unit) \<times> manual_barrier) list" where
  "manual_step spurious i Arr_Lock b = (if bar_mtx b then [] else [(Inl Arr_Read, b\<lparr>bar_mtx := True\<rparr>)])"
| "manual_step spurious i Arr_Read b = [(Inl (Arr_Count (bar_generation b)), b)]"
| "manual_step spurious i (Arr_Count g) b =
     [(Inl (if bar_waiting b + 1 = bar_count b then Arr_Reset else Arr_Test g),
       b\<lparr>bar_waiting := bar_waiting b + 1\<rparr>)]"
| "manual_step spurious i Arr_Reset b = [(Inl Arr_Bump, b\<lparr>bar_waiting := 0\<rparr>)]"
| "manual_step spurious i Arr_Bump b = [(Inl Arr_Notify, b\<lparr>bar_generation := bar_generation b + 1\<rparr>)]"
| "manual_step spurious i Arr_Notify b = [(Inl Arr_Unlock, b\<lparr>bar_waiters := []\<rparr>)]"
| "manual_step spurious i (Arr_Test g) b =
     [(Inl (if g < bar_generation b then Arr_Unlock else Arr_Wait g), b)]"
| "manual_step spurious i (Arr_Wait g) b =
     [(Inl (Arr_Blocked g), b\<lparr>bar_mtx := False, bar_waiters := bar_waiters b @ [i]\<rparr>)]"
| "manual_step spurious i (Arr_Blocked g) b =
     (if i \<in> set (bar_waiters b)
      then if spurious then [(Inl (Arr_Relock g), b\<lparr>bar_waiters := removeAll i (bar_waiters b)\<rparr>)] else []
      else [(Inl (Arr_Relock g), b)])"
| "manual_step spurious i (Arr_Relock g) b =
     (if bar_mtx b then [] else [(Inl (Arr_Test g), b\<lparr>bar_mtx := True\<rparr>)])"
| "manual_step spurious i Arr_Unlock b = [(Inr (), b\<lparr>bar_mtx := False\<rparr>)]"

section \<open>std::barrier\<close>

text \<open>
  The barrier of the standard library: the last of the expected threads to arrive runs the
  completion function and starts the next phase, the others wait for it.
\<close>

record std_barrier =
  expected :: nat
  arrivals :: nat
  phase_no :: nat
  completions :: nat

definition std_barrier_ctor :: "nat \<Rightarrow> std_barrier" where
  "std_barrier_ctor n = \<lparr>expected = n, arrivals = 0, phase_no = 0, completions = 0\<rparr>"

datatype std_pc =
    Std_Arrive
  | Std_Wait nat
  | Std_Leave

fun std_step :: "nat \<Rightarrow> std_pc \<Rightarrow> std_barrier \<Rightarrow> ((std_pc + unit) \<times> std_barrier) list" where
  "std_step i Std_Arrive b =
     [if Suc (arrivals b) = expected b
      then (Inl Std_Leave, b\<lparr>arrivals := 0, phase_no := Suc (phase_no b), completions := Suc (completions b)\<rparr>)
      else (Inl (Std_Wait (phase_no b)), b\<lparr>arrivals := Suc (arrivals b)\<rparr>)]"
| "std_step i (Std_Wait p) b = (if phase_no b \<noteq> p then [(Inl Std_Leave, b)] else [])"
| "std_step i Std_Leave b = [(Inr (), b)]"

section \<open>The contract\<close>

datatype view = Before | Arrived | Released

abbreviation arr :: "('k \<Rightarrow> view) \<Rightarrow> 'k option \<Rightarrow> nat" where
  "arr v \<equiv> case_option 0 (\<lambda>k. of_bool (v k = Arrived))"

text \<open>
  \<open>n\<close> is the expected number of threads, \<open>gen\<close> the number of completed phases (below \<open>limit\<close>)
  and \<open>view\<close> what a call has done.  A step either changes nobody's view but possibly that of
  its thread from \<open>Before\<close> to \<open>Arrived\<close>; or it is the last arrival, with \<open>n - 1\<close> others
  arrived, and releases all; and only a released call returns.  When no call can take a step,
  all are arrived, and fewer than \<open>n\<close>.
\<close>

locale phase_barrier =
  fixes bstep :: "nat \<Rightarrow> 'k \<Rightarrow> 'g \<Rightarrow> (('k + unit) \<times> 'g) list"
    and bentry :: 'k
    and binv :: "nat \<Rightarrow> 'k option list \<Rightarrow> 'g \<Rightarrow> bool"
    and bstart :: "nat \<Rightarrow> 'g"
    and gen :: "'g \<Rightarrow> nat"
    and view :: "'g \<Rightarrow> 'k \<Rightarrow> view"
    and limit :: nat
  assumes bar_start: "0 < n \<Longrightarrow> n < limit \<Longrightarrow> list_all (\<lambda>q. q = None) qs
      \<Longrightarrow> binv n qs (bstart n) \<and> gen (bstart n) = 0"
    and bar_call: "binv n qs g \<Longrightarrow> i < length qs \<Longrightarrow> qs ! i = None
      \<Longrightarrow> binv n (qs[i := Some bentry]) g \<and> view g bentry = Before"
    and bar_keeps: "binv n qs g \<Longrightarrow> Suc (gen g) < limit \<Longrightarrow> i < length qs \<Longrightarrow> qs ! i = Some k
      \<Longrightarrow> (r, g') \<in> set (bstep i k g)
      \<Longrightarrow> binv n (qs[i := (case r of Inl k' \<Rightarrow> Some k' | Inr _ \<Rightarrow> None)]) g'"
    and bar_step: "binv n qs g \<Longrightarrow> Suc (gen g) < limit \<Longrightarrow> i < length qs \<Longrightarrow> qs ! i = Some k
      \<Longrightarrow> (Inl k', g') \<in> set (bstep i k g)
      \<Longrightarrow> gen g' = gen g \<and> (view g' k' = view g k \<or> view g k = Before \<and> view g' k' = Arrived)
        \<or> gen g' = Suc (gen g) \<and> view g k \<noteq> Released \<and> view g' k' = Released
          \<and> n \<le> Suc (tsum (arr (view g)) (qs[i := None]))"
    and bar_return: "binv n qs g \<Longrightarrow> i < length qs \<Longrightarrow> qs ! i = Some k
      \<Longrightarrow> (Inr v, g') \<in> set (bstep i k g) \<Longrightarrow> gen g' = gen g \<and> view g k = Released"
    and bar_others: "binv n qs g \<Longrightarrow> Suc (gen g) < limit \<Longrightarrow> i < length qs \<Longrightarrow> qs ! i = Some k
      \<Longrightarrow> (r, g') \<in> set (bstep i k g) \<Longrightarrow> j < length qs \<Longrightarrow> j \<noteq> i \<Longrightarrow> qs ! j = Some k2
      \<Longrightarrow> view g' k2 = (if gen g' \<noteq> gen g \<and> view g k2 = Arrived then Released else view g k2)"
    and bar_blocked: "binv n qs g \<Longrightarrow> (\<And>j p. j < length qs \<Longrightarrow> qs ! j = Some p \<Longrightarrow> bstep j p g = [])
      \<Longrightarrow> tsum (arr (view g)) qs < n
        \<and> list_all (case_option True (\<lambda>k. view g k = Arrived)) qs"

text \<open>Progress: every step of a call decreases its rank and raises no other.\<close>

locale live_barrier = phase_barrier +
  fixes brank :: "'g \<Rightarrow> 'k \<Rightarrow> nat"
  assumes bar_rank: "binv n qs g \<Longrightarrow> Suc (gen g) < limit \<Longrightarrow> i < length qs \<Longrightarrow> qs ! i = Some k
      \<Longrightarrow> (Inl k', g') \<in> set (bstep i k g) \<Longrightarrow> brank g' k' < brank g k"
    and bar_rank_others: "binv n qs g \<Longrightarrow> Suc (gen g) < limit \<Longrightarrow> i < length qs \<Longrightarrow> qs ! i = Some k
      \<Longrightarrow> (r, g') \<in> set (bstep i k g) \<Longrightarrow> j < length qs \<Longrightarrow> j \<noteq> i \<Longrightarrow> qs ! j = Some k2
      \<Longrightarrow> brank g' k2 \<le> brank g k2"
    and bar_rank_bound: "brank g bentry \<le> 12"

section \<open>std::barrier provides the contract\<close>

fun std_view :: "std_barrier \<Rightarrow> std_pc \<Rightarrow> view" where
  "std_view b Std_Arrive = Before"
| "std_view b (Std_Wait p) = (if p = phase_no b then Arrived else Released)"
| "std_view b Std_Leave = Released"

fun std_ok :: "std_barrier \<Rightarrow> std_pc \<Rightarrow> bool" where
  "std_ok b (Std_Wait p) = (p \<le> phase_no b)"
| "std_ok b _ = True"

definition std_inv :: "nat \<Rightarrow> std_pc option list \<Rightarrow> std_barrier \<Rightarrow> bool" where
  "std_inv n qs b \<longleftrightarrow> 0 < n \<and> expected b = n \<and> arrivals b < n
     \<and> arrivals b = tsum (arr (std_view b)) qs \<and> list_all (case_option True (std_ok b)) qs
     \<and> completions b = phase_no b"

fun std_rank :: "std_barrier \<Rightarrow> std_pc \<Rightarrow> nat" where
  "std_rank b Std_Arrive = 3"
| "std_rank b (Std_Wait p) = 2"
| "std_rank b Std_Leave = 1"

lemma std_step_others:
  assumes "std_ok b k2" "(r, b') \<in> set (std_step i k b)"
  shows "std_view b' k2 = (if phase_no b' \<noteq> phase_no b \<and> std_view b k2 = Arrived then Released
    else std_view b k2) \<and> std_ok b' k2"
  using assms by (cases k; cases k2) (auto split: if_splits)

lemma std_view_before [simp]: "std_view b k = Before \<longleftrightarrow> k = Std_Arrive"
  by (cases k) auto

lemma std_keeps:
  assumes inv: "std_inv n qs b" and i: "i < length qs" and k: "qs ! i = Some k"
    and st: "(r, b') \<in> set (std_step i k b)"
  shows "std_inv n (qs[i := (case r of Inl k' \<Rightarrow> Some k' | Inr _ \<Rightarrow> None)]) b'"
    and "phase_no b' \<noteq> phase_no b \<Longrightarrow> n \<le> Suc (tsum (arr (std_view b)) (qs[i := None]))"
proof -
  let ?x = "case r of Inl k' \<Rightarrow> Some k' | Inr _ \<Rightarrow> None"
  have oks: "std_ok b k2" if "j < length qs" "qs ! j = Some k2" for j k2
    using inv that by (auto simp: std_inv_def list_all_length split: option.splits dest!: spec [of _ j])
  note others = std_step_others [OF oks st]
  have ok': "list_all (case_option True (std_ok b')) (qs[i := ?x])"
  proof (rule list_all_update)
    show "list_all (case_option True (std_ok b')) qs"
      using others by (auto simp: list_all_length split: option.splits)
    show "case_option True (std_ok b') ?x"
      using st oks [OF i k] by (cases k) (auto split: if_splits)
  qed
  have none: "tsum (arr (std_view b)) (qs[i := None]) + of_bool (std_view b k = Arrived) = arrivals b"
    using inv tsum_update [OF i, of "arr (std_view b)" None] k by (simp add: std_inv_def)
  have same: "tsum (arr (std_view b')) (qs[i := ?x]) + of_bool (std_view b k = Arrived)
      = arrivals b + arr (std_view b') ?x" if "phase_no b' = phase_no b"
  proof -
    have "arr (std_view b') (qs ! j) = arr (std_view b) (qs ! j)" if "j < length qs" for j
      using others [OF that] \<open>phase_no b' = phase_no b\<close> by (auto split: option.splits)
    then show ?thesis
      using tsum_update_cong [OF i, of "arr (std_view b')" "arr (std_view b)" ?x] inv k
      by (simp add: std_inv_def)
  qed
  have trip: "tsum (arr (std_view b')) (qs[i := ?x]) = 0"
    if "phase_no b' \<noteq> phase_no b" "arr (std_view b') ?x = 0"
  proof -
    have "arr (std_view b') (qs[i := ?x] ! j) = 0" if "j < length qs" for j
    proof (cases "j = i")
      case True
      with \<open>arr (std_view b') ?x = 0\<close> i show ?thesis by simp
    next
      case False
      with others [OF that] \<open>phase_no b' \<noteq> phase_no b\<close> show ?thesis by (auto split: option.splits)
    qed
    then show ?thesis by (auto simp: tsum_eq_0_iff in_set_conv_nth)
  qed
  show "std_inv n (qs[i := ?x]) b'"
    using inv st same trip ok' by (cases k) (auto simp: std_inv_def split: if_splits)
  show "n \<le> Suc (tsum (arr (std_view b)) (qs[i := None]))" if "phase_no b' \<noteq> phase_no b"
    using inv st none that by (cases k) (auto simp: std_inv_def split: if_splits)
qed

interpretation std_bar: live_barrier std_step Std_Arrive std_inv std_barrier_ctor phase_no std_view
  limit std_rank for limit
proof unfold_locales
  fix n :: nat and qs :: "std_pc option list"
  assume n: "0 < n" and none: "list_all (\<lambda>q. q = None) qs"
  then have "tsum (arr (std_view (std_barrier_ctor n))) qs = 0"
    by (auto simp: tsum_eq_0_iff list_all_iff)
  with n none show "std_inv n qs (std_barrier_ctor n) \<and> phase_no (std_barrier_ctor n) = 0"
    by (auto simp: std_inv_def std_barrier_ctor_def list_all_iff)
next
  fix n qs b i
  assume inv: "std_inv n qs b" and i: "i < length qs" and "qs ! i = None"
  then have "tsum (arr (std_view b)) (qs[i := Some Std_Arrive]) = tsum (arr (std_view b)) qs"
    using tsum_update [OF i, of "arr (std_view b)" "Some Std_Arrive"] by simp
  with inv show "std_inv n (qs[i := Some Std_Arrive]) b \<and> std_view b Std_Arrive = Before"
    by (simp add: std_inv_def list_all_update)
next
  fix n qs b i k and r :: "std_pc + unit" and b'
  assume "std_inv n qs b" "i < length qs" "qs ! i = Some k" "(r, b') \<in> set (std_step i k b)"
  then show "std_inv n (qs[i := (case r of Inl k' \<Rightarrow> Some k' | Inr _ \<Rightarrow> None)]) b'" by (rule std_keeps)
next
  fix n qs b i k k' b'
  assume inv: "std_inv n qs b" and i: "i < length qs" "qs ! i = Some k"
    and st: "(Inl k', b') \<in> set (std_step i k b)"
  have "std_ok b k" using inv i by (auto simp: std_inv_def list_all_length split: option.splits)
  then show "phase_no b' = phase_no b \<and> (std_view b' k' = std_view b k \<or> std_view b k = Before \<and> std_view b' k' = Arrived)
      \<or> phase_no b' = Suc (phase_no b) \<and> std_view b k \<noteq> Released \<and> std_view b' k' = Released
        \<and> n \<le> Suc (tsum (arr (std_view b)) (qs[i := None]))"
    using st std_keeps(2) [OF inv i st] by (cases k) (auto split: if_splits)
next
  fix n qs b i k v b'
  assume "(Inr v, b') \<in> set (std_step i k b)"
  then show "phase_no b' = phase_no b \<and> std_view b k = Released" by (cases k) (auto split: if_splits)
next
  fix n qs b i k and r :: "std_pc + unit" and b' j k2
  assume inv: "std_inv n qs b" and st: "(r, b') \<in> set (std_step i k b)" and j: "j < length qs" "qs ! j = Some k2"
  then have "std_ok b k2" by (auto simp: std_inv_def list_all_length split: option.splits)
  then show "std_view b' k2 = (if phase_no b' \<noteq> phase_no b \<and> std_view b k2 = Arrived then Released else std_view b k2)"
    using std_step_others st by blast
next
  fix n qs b
  assume inv: "std_inv n qs b" and blocked: "\<And>j p. j < length qs \<Longrightarrow> qs ! j = Some p \<Longrightarrow> std_step j p b = []"
  have "std_view b p = Arrived" if "j < length qs" "qs ! j = Some p" for j p
    using blocked [OF that] by (cases p) (auto split: if_splits)
  with inv show "tsum (arr (std_view b)) qs < n
      \<and> list_all (case_option True (\<lambda>k. std_view b k = Arrived)) qs"
    by (auto simp: std_inv_def list_all_length split: option.splits)
next
  fix n qs b i k k' b'
  assume "(Inl k', b') \<in> set (std_step i k b)"
  then show "std_rank b' k' < std_rank b k" by (cases k) (auto split: if_splits)
next
  fix n qs b i k and r :: "std_pc + unit" and b' j k2
  assume "(r, b') \<in> set (std_step i k b)"
  then show "std_rank b' k2 \<le> std_rank b k2" by (cases k2) auto
qed simp

section \<open>ManualBarrier provides the contract\<close>

fun bar_holds :: "arrive_pc \<Rightarrow> nat" where
  "bar_holds Arr_Lock = 0"
| "bar_holds (Arr_Blocked g) = 0"
| "bar_holds (Arr_Relock g) = 0"
| "bar_holds _ = 1"

fun manual_view :: "manual_barrier \<Rightarrow> arrive_pc \<Rightarrow> view" where
  "manual_view b (Arr_Test g) = (if g = bar_generation b then Arrived else Released)"
| "manual_view b (Arr_Wait g) = (if g = bar_generation b then Arrived else Released)"
| "manual_view b (Arr_Blocked g) = (if g = bar_generation b then Arrived else Released)"
| "manual_view b (Arr_Relock g) = (if g = bar_generation b then Arrived else Released)"
| "manual_view b Arr_Reset = Arrived"
| "manual_view b Arr_Bump = Arrived"
| "manual_view b Arr_Notify = Released"
| "manual_view b Arr_Unlock = Released"
| "manual_view b _ = Before"

text \<open>The last thread before it resets the count, before it bumps the generation, before it notifies.\<close>

abbreviation at :: "'k \<Rightarrow> 'k option \<Rightarrow> nat" where
  "at k0 \<equiv> case_option 0 (\<lambda>k. of_bool (k = k0))"

fun manual_ok :: "bool \<Rightarrow> manual_barrier \<Rightarrow> nat \<Rightarrow> nat \<Rightarrow> arrive_pc \<Rightarrow> bool" where
  "manual_ok sp b notifying i (Arr_Count g) = (g = bar_generation b)"
| "manual_ok sp b notifying i (Arr_Test g) = (g \<le> bar_generation b)"
| "manual_ok sp b notifying i (Arr_Wait g) = (g = bar_generation b)"
| "manual_ok sp b notifying i (Arr_Blocked g) = (g \<le> bar_generation b
     \<and> (i \<in> set (bar_waiters b) \<longrightarrow> g = bar_generation b \<or> 0 < notifying)
     \<and> (i \<notin> set (bar_waiters b) \<longrightarrow> sp \<or> g < bar_generation b)
     \<and> (0 < notifying \<longrightarrow> g < bar_generation b))"
| "manual_ok sp b notifying i (Arr_Relock g) = (g \<le> bar_generation b \<and> (sp \<or> g < bar_generation b))"
| "manual_ok sp b notifying i _ = True"

text \<open>
  The counts: the mutex has one holder; \<open>waiting\<close> is the number of arrived threads, until the
  last of them, which alone can make it the expected number, has reset it.
\<close>

definition manual_counts :: "nat \<Rightarrow> nat \<Rightarrow> nat \<Rightarrow> nat \<Rightarrow> nat \<Rightarrow> manual_barrier \<Rightarrow> bool" where
  "manual_counts n m a reset bump b \<longleftrightarrow>
     0 < n \<and> n < 2 ^ 64 \<and> bar_count b = of_nat n \<and> m = of_bool (bar_mtx b) \<and>
     (if bump = 0 then unat (bar_waiting b) = a else bar_waiting b = 0 \<and> a = n) \<and>
     (if reset = 0 \<and> bump = 0 then a < n else a = n)"

definition manual_inv :: "bool \<Rightarrow> nat \<Rightarrow> arrive_pc option list \<Rightarrow> manual_barrier \<Rightarrow> bool" where
  "manual_inv sp n qs b \<longleftrightarrow>
     manual_counts n (tsum (case_option 0 bar_holds) qs) (tsum (arr (manual_view b)) qs)
       (tsum (at Arr_Reset) qs) (tsum (at Arr_Bump) qs) b \<and>
     (\<forall>i < length qs. case_option True (manual_ok sp b (tsum (at Arr_Notify) qs) i) (qs ! i))"

lemma generation_bump: "Suc (unat g) < 2 ^ 64 \<Longrightarrow> unat (g + 1) = Suc (unat g)" for g :: size_t
  by (simp add: unat_word_ariths)

lemma waiting_bump:
  fixes w :: size_t
  assumes "unat w < n" "n < 2 ^ 64"
  shows "unat (w + 1) = Suc (unat w)" "w + 1 = of_nat n \<longleftrightarrow> Suc (unat w) = n"
proof -
  show 1: "unat (w + 1) = Suc (unat w)" using assms by (intro generation_bump) simp
  have "unat (of_nat n :: size_t) = n" using assms(2) by (simp add: unat_of_nat)
  then show "w + 1 = of_nat n \<longleftrightarrow> Suc (unat w) = n" using 1 by (metis word_unat_eq_iff)
qed

text \<open>The counts after a step, from its thread's share of them.\<close>

lemma manual_step_counts:
  assumes "manual_counts n m a reset bump b" "Suc (unat (bar_generation b)) < 2 ^ 64"
    and "(r, b') \<in> set (manual_step sp i k b)" "manual_ok sp b notifying i k"
    and "bar_holds k \<le> m" "of_bool (manual_view b k = Arrived) \<le> a"
    and "of_bool (k = Arr_Reset) \<le> reset" "of_bool (k = Arr_Bump) \<le> bump" "reset + bump + bar_holds k \<le> m + of_bool (k = Arr_Reset \<or> k = Arr_Bump)"
    and "m' + bar_holds k = m + case_sum bar_holds (\<lambda>_. 0) r"
    and "if k = Arr_Bump then a' = 0
      else a' + of_bool (manual_view b k = Arrived) = a + case_sum (\<lambda>k'. of_bool (manual_view b' k' = Arrived)) (\<lambda>_. 0) r"
    and "reset' + of_bool (k = Arr_Reset) = reset + case_sum (\<lambda>k'. of_bool (k' = Arr_Reset)) (\<lambda>_. 0) r"
    and "bump' + of_bool (k = Arr_Bump) = bump + case_sum (\<lambda>k'. of_bool (k' = Arr_Bump)) (\<lambda>_. 0) r"
  shows "manual_counts n m' a' reset' bump' b'"
proof (cases k)
  case (Arr_Count g)
  then have m: "bar_mtx b" "m = 1" "reset = 0" "bump = 0"
    using assms(1,5,9) by (cases "bar_mtx b"; simp add: manual_counts_def)+
  then have w: "unat (bar_waiting b) = a" "a < n" "n < 2 ^ 64" "bar_count b = of_nat n" "0 < n"
    using assms(1) by (simp_all add: manual_counts_def)
  note wb = waiting_bump [of "bar_waiting b" n]
  show ?thesis
    using assms(3,4,10-13) Arr_Count m w wb
    by (cases "Suc a = n") (auto simp: manual_counts_def split: if_splits)
qed (use assms in \<open>cases "bar_mtx b"; auto simp: manual_counts_def split: if_splits\<close>)+

text \<open>What the steps do to the other threads: they keep their assertions, and their views move together.\<close>

lemma manual_step_others:
  assumes st: "(r, b') \<in> set (manual_step sp i k b)" and ok: "manual_ok sp b notifying j k2"
    and gen: "Suc (unat (bar_generation b)) < 2 ^ 64" and "j \<noteq> i"
    and excl: "bar_holds k + bar_holds k2 \<le> 1"
    and noti: "notifying' + of_bool (k = Arr_Notify) = notifying + case_sum (\<lambda>k'. of_bool (k' = Arr_Notify)) (\<lambda>_. 0) r"
    and last: "of_bool (k = Arr_Notify) \<le> notifying"
  shows "manual_ok sp b' notifying' j k2"
    and "manual_view b' k2 = (if bar_generation b' \<noteq> bar_generation b \<and> manual_view b k2 = Arrived
      then Released else manual_view b k2)"
proof -
  have up: "bar_generation b < bar_generation b + 1"
    using generation_bump [OF gen] by (simp add: word_less_nat_alt)
  have up2: "g \<le> bar_generation b \<Longrightarrow> g < bar_generation b + 1" for g
    using up by simp
  have up3: "g \<le> bar_generation b \<Longrightarrow> g \<noteq> bar_generation b + 1" for g
    using up by auto
  show "manual_view b' k2 = (if bar_generation b' \<noteq> bar_generation b \<and> manual_view b k2 = Arrived
      then Released else manual_view b k2)"
    using st ok excl up3 by (cases k; cases k2) (auto split: if_splits)
  show "manual_ok sp b' notifying' j k2"
  proof (cases "k = Arr_Bump")
    case True
    then show ?thesis
      using st ok excl up2 noti by (cases k2) (auto intro: less_imp_le)
  next
    case False
    then have "bar_generation b' = bar_generation b" using st by (cases k) (auto split: if_splits)
    then show ?thesis
      using st ok excl noti \<open>j \<noteq> i\<close> False by (cases k; cases k2) (auto split: if_splits)
  qed
qed

lemma manual_step_own:
  assumes "(Inl k', b') \<in> set (manual_step sp i k b)" "manual_ok sp b notifying i k"
    and "bar_holds k + notifying \<le> 1 + of_bool (k = Arr_Notify)"
    and "notifying' + of_bool (k = Arr_Notify) = notifying + of_bool (k' = Arr_Notify)"
  shows "manual_ok sp b' notifying' i k'"
  using assms by (cases k) (auto split: if_splits)

text \<open>What a step does to the view of its own call and to the generation.\<close>

lemma manual_step_view:
  assumes st: "(Inl k', b') \<in> set (manual_step sp i k b)" and ok: "manual_ok sp b notifying i k"
    and gen: "Suc (unat (bar_generation b)) < 2 ^ 64"
  shows "if k = Arr_Bump then unat (bar_generation b') = Suc (unat (bar_generation b)) \<and> manual_view b' k' = Released
    else bar_generation b' = bar_generation b
      \<and> (manual_view b' k' = manual_view b k \<or> manual_view b k = Before \<and> manual_view b' k' = Arrived)"
  using assms generation_bump [OF gen] by (cases k) (auto split: if_splits)

lemma manual_return_view:
  "(Inr v, b') \<in> set (manual_step sp i k b) \<Longrightarrow> bar_generation b' = bar_generation b \<and> manual_view b k = Released"
  by (cases k) (auto split: if_splits)

lemma bar_holds_le: "bar_holds k \<le> 1"
  by (cases k) simp_all

lemma special_le: "at Arr_Reset q + at Arr_Bump q + at Arr_Notify q \<le> case_option 0 bar_holds q"
proof (cases q)
  case (Some k)
  then show ?thesis by (cases k) simp_all
qed simp

lemma others_special:
  assumes "i < length qs" "qs ! i = Some k"
  shows "tsum (at Arr_Reset) (qs[i := None]) + tsum (at Arr_Bump) (qs[i := None])
    + tsum (at Arr_Notify) (qs[i := None]) + bar_holds k \<le> tsum (case_option 0 bar_holds) qs"
proof -
  have "tsum (\<lambda>q. at Arr_Reset q + at Arr_Bump q + at Arr_Notify q) (qs[i := None])
      \<le> tsum (case_option 0 bar_holds) (qs[i := None])"
    by (rule tsum_mono) (rule special_le)
  then show ?thesis
    using tsum_update [OF assms(1), of "case_option 0 bar_holds" None] assms(2) by (simp add: tsum_add)
qed

text \<open>The number of calls that have arrived: none after the bump, else it changes by the stepping call.\<close>

lemma manual_arrivals:
  assumes i: "i < length qs" and k: "qs ! i = Some k" and st: "(r, b') \<in> set (manual_step sp i k b)"
    and views: "\<And>j k2. j < length qs \<Longrightarrow> j \<noteq> i \<Longrightarrow> qs ! j = Some k2 \<Longrightarrow>
      manual_view b' k2 = (if bar_generation b' \<noteq> bar_generation b \<and> manual_view b k2 = Arrived
        then Released else manual_view b k2)"
  shows "if k = Arr_Bump then tsum (arr (manual_view b')) (qs[i := still r]) = 0
    else tsum (arr (manual_view b')) (qs[i := still r]) + of_bool (manual_view b k = Arrived)
      = tsum (arr (manual_view b)) qs + case_sum (\<lambda>k'. of_bool (manual_view b' k' = Arrived)) (\<lambda>_. 0) r"
proof (cases "k = Arr_Bump")
  case True
  then have r: "r = Inl Arr_Notify" and "bar_generation b' \<noteq> bar_generation b" using st by auto
  then have "arr (manual_view b') (qs[i := still r] ! j) = 0" if "j < length qs" for j
    using views [OF that] i by (cases "j = i") (auto split: option.splits)
  then show ?thesis using True by (auto simp: tsum_eq_0_iff in_set_conv_nth)
next
  case False
  then have "bar_generation b' = bar_generation b" using st by (cases k) (auto split: if_splits)
  then have "arr (manual_view b') (qs ! j) = arr (manual_view b) (qs ! j)" if "j < length qs" "j \<noteq> i" for j
    using views [OF that] by (auto split: option.splits)
  then show ?thesis
    using tsum_update_cong [OF i, of "arr (manual_view b')" "arr (manual_view b)" "still r"] k False
    by (cases r) simp_all
qed

lemma manual_keeps:
  assumes inv: "manual_inv sp n qs b" and gen: "Suc (unat (bar_generation b)) < 2 ^ 64"
    and i: "i < length qs" and k: "qs ! i = Some k" and st: "(r, b') \<in> set (manual_step sp i k b)"
  shows "manual_inv sp n (qs[i := still r]) b'"
    and "k = Arr_Bump \<Longrightarrow> n \<le> Suc (tsum (arr (manual_view b)) (qs[i := None]))"
    and "\<And>j k2. j < length qs \<Longrightarrow> j \<noteq> i \<Longrightarrow> qs ! j = Some k2 \<Longrightarrow>
      manual_view b' k2 = (if bar_generation b' \<noteq> bar_generation b \<and> manual_view b k2 = Arrived
        then Released else manual_view b k2)"
proof -
  let ?x = "still r"
  have counts: "manual_counts n (tsum (case_option 0 bar_holds) qs) (tsum (arr (manual_view b)) qs)
       (tsum (at Arr_Reset) qs) (tsum (at Arr_Bump) qs) b"
    and oks: "\<And>j k2. j < length qs \<Longrightarrow> qs ! j = Some k2 \<Longrightarrow> manual_ok sp b (tsum (at Arr_Notify) qs) j k2"
    using inv by (auto simp: manual_inv_def dest!: spec)
  have held: "tsum (case_option 0 bar_holds) qs \<le> 1" using counts by (auto simp: manual_counts_def)
  have upd: "tsum (case_option 0 w) (qs[i := ?x]) + w k = tsum (case_option 0 w) qs + case_sum w (\<lambda>_. 0) r"
    for w using tsum_update [OF i, of "case_option 0 w" ?x] k by (cases r) simp_all
  have here: "w k \<le> tsum (case_option 0 w) qs" for w
    using tsum_member [OF i, of "case_option 0 w"] k by simp
  have none: "tsum (case_option 0 w) (qs[i := None]) + w k = tsum (case_option 0 w) qs" for w
    using tsum_update [OF i, of "case_option 0 w" None] k by simp
  have excl: "bar_holds k + bar_holds k2 \<le> 1" if "j < length qs" "j \<noteq> i" "qs ! j = Some k2" for j k2
    using tsum_two [OF i that(1), of "case_option 0 bar_holds"] that k held by simp
  have special: "tsum (at Arr_Reset) qs + tsum (at Arr_Bump) qs + bar_holds k
      \<le> tsum (case_option 0 bar_holds) qs + of_bool (k = Arr_Reset \<or> k = Arr_Bump)"
    using others_special [OF i k] none [of "\<lambda>k. of_bool (k = Arr_Reset)"] none [of "\<lambda>k. of_bool (k = Arr_Bump)"]
    by (cases k) simp_all
  have own: "bar_holds k + tsum (at Arr_Notify) qs \<le> 1 + of_bool (k = Arr_Notify)"
    using others_special [OF i k] none [of "\<lambda>k. of_bool (k = Arr_Notify)"] held by linarith
  have noti: "tsum (at Arr_Notify) (qs[i := ?x]) + of_bool (k = Arr_Notify)
      = tsum (at Arr_Notify) qs + case_sum (\<lambda>k'. of_bool (k' = Arr_Notify)) (\<lambda>_. 0) r"
    by (rule upd)
  note others = manual_step_others [OF st oks gen _ excl noti here]
  show views: "manual_view b' k2 = (if bar_generation b' \<noteq> bar_generation b \<and> manual_view b k2 = Arrived
        then Released else manual_view b k2)" if "j < length qs" "j \<noteq> i" "qs ! j = Some k2" for j k2
    using others(2) that by blast
  have "case_option True (manual_ok sp b' (tsum (at Arr_Notify) (qs[i := ?x])) j) (qs[i := ?x] ! j)"
    if j: "j < length qs" for j
    using manual_step_own [OF _ oks [OF i k] own] noti st i j others(1) by (cases "j = i"; cases r) (auto split: option.splits)
  moreover have "manual_counts n (tsum (case_option 0 bar_holds) (qs[i := ?x])) (tsum (arr (manual_view b')) (qs[i := ?x]))
       (tsum (at Arr_Reset) (qs[i := ?x])) (tsum (at Arr_Bump) (qs[i := ?x])) b'"
    using manual_arrivals [OF i k st views]
    by (rule manual_step_counts [OF counts gen st oks [OF i k] here here here here special upd _ upd upd])
  ultimately show "manual_inv sp n (qs[i := ?x]) b'" by (simp add: manual_inv_def)
  show "n \<le> Suc (tsum (arr (manual_view b)) (qs[i := None]))" if "k = Arr_Bump"
    using counts here [of "\<lambda>k. of_bool (k = Arr_Bump)"] none [of "\<lambda>k. of_bool (manual_view b k = Arrived)"] that
    by (auto simp: manual_counts_def split: if_splits)
qed

text \<open>The steps left in a call, without spurious wake-ups.\<close>

fun manual_rank :: "manual_barrier \<Rightarrow> arrive_pc \<Rightarrow> nat" where
  "manual_rank b Arr_Lock = 11"
| "manual_rank b Arr_Read = 10"
| "manual_rank b (Arr_Count g) = 9"
| "manual_rank b Arr_Reset = 8"
| "manual_rank b Arr_Bump = 7"
| "manual_rank b Arr_Notify = 6"
| "manual_rank b (Arr_Test g) = (if g = bar_generation b then 8 else 2)"
| "manual_rank b (Arr_Wait g) = 7"
| "manual_rank b (Arr_Blocked g) = (if g = bar_generation b then 6 else 4)"
| "manual_rank b (Arr_Relock g) = 3"
| "manual_rank b Arr_Unlock = 1"

lemma manual_inv_ok:
  "manual_inv sp n qs b \<Longrightarrow> i < length qs \<Longrightarrow> qs ! i = Some k
    \<Longrightarrow> manual_ok sp b (tsum (at Arr_Notify) qs) i k"
  by (auto simp: manual_inv_def dest!: spec)

lemma manual_rank_step:
  assumes "(Inl k', b') \<in> set (manual_step False i k b)" "manual_ok False b notifying i k"
    and "Suc (unat (bar_generation b)) < 2 ^ 64"
  shows "manual_rank b' k' < manual_rank b k"
  using assms by (cases k) (auto split: if_splits)

lemma manual_rank_view:
  assumes "manual_view b' k = (if bar_generation b' \<noteq> bar_generation b \<and> manual_view b k = Arrived
      then Released else manual_view b k)"
  shows "manual_rank b' k \<le> manual_rank b k"
  using assms by (cases k) (auto split: if_splits)

lemma manual_blocked:
  assumes inv: "manual_inv sp n qs b"
    and blocked: "\<And>j p. j < length qs \<Longrightarrow> qs ! j = Some p \<Longrightarrow> manual_step sp j p b = []"
  shows "tsum (arr (manual_view b)) qs < n
    \<and> list_all (case_option True (\<lambda>k. manual_view b k = Arrived)) qs"
proof -
  have free: "bar_holds p = 0" if "j < length qs" "qs ! j = Some p" for j p
    using blocked [OF that] by (cases p) auto
  have no: "tsum (case_option 0 w) qs = 0" if "\<And>k. bar_holds k = 0 \<Longrightarrow> w k = 0" for w
    using free that by (auto simp: tsum_eq_0_iff in_set_conv_nth split: option.splits)
  have m0: "tsum (case_option 0 bar_holds) qs = 0" by (rule no)
  have n0: "tsum (at Arr_Notify) qs = 0" by (rule no) auto
  have "tsum (at Arr_Reset) qs = 0" "tsum (at Arr_Bump) qs = 0" by (rule no; auto)+
  then have "tsum (arr (manual_view b)) qs < n" and unlocked: "\<not> bar_mtx b"
    using inv m0 by (auto simp: manual_inv_def manual_counts_def)
  moreover have "manual_view b p = Arrived" if "j < length qs" "qs ! j = Some p" for j p
    using blocked [OF that] manual_inv_ok [OF inv that] unlocked n0 by (cases p) (auto split: if_splits)
  ultimately show ?thesis by (auto simp: list_all_length split: option.splits)
qed

interpretation manual_bar: phase_barrier "manual_step sp" Arr_Lock "manual_inv sp" manual_ctor
  "\<lambda>b. unat (bar_generation b)" manual_view "2 ^ 64" for sp
proof unfold_locales
  fix n :: nat and qs :: "arrive_pc option list"
  assume "0 < n" "n < 2 ^ 64" and none: "list_all (\<lambda>q. q = None) qs"
  then have "tsum (case_option 0 w) qs = 0" for w :: "arrive_pc \<Rightarrow> nat"
    by (auto simp: tsum_eq_0_iff list_all_iff)
  then show "manual_inv sp n qs (manual_ctor n) \<and> unat (bar_generation (manual_ctor n)) = 0"
    using none \<open>0 < n\<close> \<open>n < 2 ^ 64\<close>
    by (auto simp: manual_inv_def manual_counts_def manual_ctor_def list_all_length split: option.splits)
next
  fix n qs b i
  assume inv: "manual_inv sp n qs b" and i: "i < length qs" and none: "qs ! i = None"
  have "tsum (case_option 0 w) (qs[i := Some Arr_Lock]) = tsum (case_option 0 w) qs" if "w Arr_Lock = 0" for w
    using tsum_update [OF i, of "case_option 0 w" "Some Arr_Lock"] none that by simp
  from this [of bar_holds] this [of "\<lambda>k. of_bool (manual_view b k = Arrived)"]
    this [of "\<lambda>k. of_bool (k = Arr_Reset)"] this [of "\<lambda>k. of_bool (k = Arr_Bump)"]
    this [of "\<lambda>k. of_bool (k = Arr_Notify)"]
  show "manual_inv sp n (qs[i := Some Arr_Lock]) b \<and> manual_view b Arr_Lock = Before"
    using inv i by (auto simp: manual_inv_def nth_list_update split: option.splits if_splits)
next
  fix n qs b i k and r :: "arrive_pc + unit" and b'
  assume "manual_inv sp n qs b" "Suc (unat (bar_generation b)) < 2 ^ 64" "i < length qs" "qs ! i = Some k"
    "(r, b') \<in> set (manual_step sp i k b)"
  then show "manual_inv sp n (qs[i := still r]) b'" by (rule manual_keeps)
next
  fix n qs b i k k' b'
  assume inv: "manual_inv sp n qs b" and gen: "Suc (unat (bar_generation b)) < 2 ^ 64"
    and i: "i < length qs" "qs ! i = Some k" and st: "(Inl k', b') \<in> set (manual_step sp i k b)"
  from manual_step_view [OF st manual_inv_ok [OF inv i] gen] manual_keeps(2) [OF inv gen i st]
  show "unat (bar_generation b') = unat (bar_generation b)
        \<and> (manual_view b' k' = manual_view b k \<or> manual_view b k = Before \<and> manual_view b' k' = Arrived)
      \<or> unat (bar_generation b') = Suc (unat (bar_generation b)) \<and> manual_view b k \<noteq> Released
        \<and> manual_view b' k' = Released \<and> n \<le> Suc (tsum (arr (manual_view b)) (qs[i := None]))"
    by (cases "k = Arr_Bump") auto
next
  fix n qs b i k v b'
  assume "(Inr v, b') \<in> set (manual_step sp i k b)"
  then show "unat (bar_generation b') = unat (bar_generation b) \<and> manual_view b k = Released"
    using manual_return_view by simp
next
  fix n qs b i k and r :: "arrive_pc + unit" and b' j k2
  assume "manual_inv sp n qs b" "Suc (unat (bar_generation b)) < 2 ^ 64" "i < length qs" "qs ! i = Some k"
    "(r, b') \<in> set (manual_step sp i k b)" "j < length qs" "j \<noteq> i" "qs ! j = Some k2"
  then show "manual_view b' k2 = (if unat (bar_generation b') \<noteq> unat (bar_generation b)
      \<and> manual_view b k2 = Arrived then Released else manual_view b k2)"
    unfolding word_unat_eq_iff [symmetric] by (rule manual_keeps(3))
next
  fix n qs b
  assume "manual_inv sp n qs b" "\<And>j p. j < length qs \<Longrightarrow> qs ! j = Some p \<Longrightarrow> manual_step sp j p b = []"
  then show "tsum (arr (manual_view b)) qs < n
      \<and> list_all (case_option True (\<lambda>k. manual_view b k = Arrived)) qs" by (rule manual_blocked)
qed

interpretation manual_live: live_barrier "manual_step False" Arr_Lock "manual_inv False" manual_ctor
  "\<lambda>b. unat (bar_generation b)" manual_view "2 ^ 64" manual_rank
proof unfold_locales
  fix n qs b i k k' b'
  assume "manual_inv False n qs b" "Suc (unat (bar_generation b)) < 2 ^ 64" "i < length qs" "qs ! i = Some k"
    "(Inl k', b') \<in> set (manual_step False i k b)"
  then show "manual_rank b' k' < manual_rank b k" using manual_rank_step manual_inv_ok by blast
next
  fix n qs b i k and r :: "arrive_pc + unit" and b' j k2
  assume "manual_inv False n qs b" "Suc (unat (bar_generation b)) < 2 ^ 64" "i < length qs" "qs ! i = Some k"
    "(r, b') \<in> set (manual_step False i k b)" "j < length qs" "j \<noteq> i" "qs ! j = Some k2"
  then show "manual_rank b' k2 \<le> manual_rank b k2"
    using manual_keeps(3) by (intro manual_rank_view) blast
qed simp

end
