(* ===== verification/Barrier_Bench.thy ===== *)
theory Barrier_Bench
  imports Barrier Fairness
begin

text \<open>
  The programs of src/bench\_barrier.cpp: a team of threads that alternate work and barrier
  calls.  The proofs are made once, for every provider of the barrier contract and every
  script of actions between the calls; the five benchmarks are instances.
\<close>

section \<open>A team of threads at a barrier\<close>

datatype host_pc =
    Host_Spawn nat
  | Host_Join nat
  | Host_Done

text \<open>\<open>Team_Run d j\<close>: \<open>d\<close> barrier calls have returned, and \<open>j\<close> actions of the current script.\<close>

datatype team_pc =
    Team_Unborn
  | Team_Run nat nat
  | Team_Done

datatype crew_pc =
    Host host_pc
  | Team nat team_pc

fun born :: "crew_pc \<Rightarrow> nat \<Rightarrow> bool" where
  "born (Host (Host_Spawn k)) j = (j < k)"
| "born p j = True"

fun team_prog :: "nat \<Rightarrow> nat \<Rightarrow> (nat \<Rightarrow> nat \<Rightarrow> ('c \<Rightarrow> 'c) list) \<Rightarrow> nat \<Rightarrow> crew_pc list \<Rightarrow> 'c
  \<Rightarrow> (unit + crew_pc \<times> 'c) option" where
  "team_prog n calls script i ps c =
     (case ps ! i of
        Host (Host_Spawn k) \<Rightarrow> Some (Inr (Host (if k < n then Host_Spawn (Suc k) else Host_Join 0), c))
      | Host (Host_Join k) \<Rightarrow>
          (if k < n then if ps ! Suc k = Team k Team_Done then Some (Inr (Host (Host_Join (Suc k)), c)) else None
           else Some (Inr (Host Host_Done, c)))
      | Host Host_Done \<Rightarrow> None
      | Team tid Team_Unborn \<Rightarrow>
          (if born (ps ! 0) tid then Some (Inr (Team tid (Team_Run 0 0), c)) else None)
      | Team tid (Team_Run d j) \<Rightarrow>
          (if j < length (script tid d) then Some (Inr (Team tid (Team_Run d (Suc j)), (script tid d ! j) c))
           else if d < calls then Some (Inl ())
           else Some (Inr (Team tid Team_Done, c)))
      | Team tid Team_Done \<Rightarrow> None)"

fun team_after :: "nat \<Rightarrow> crew_pc \<Rightarrow> unit \<Rightarrow> crew_pc" where
  "team_after i (Team tid (Team_Run d j)) r = Team tid (Team_Run (Suc d) 0)"
| "team_after i p r = p"

definition team_step :: "(nat \<Rightarrow> 'k \<Rightarrow> 'g \<Rightarrow> (('k + unit) \<times> 'g) list) \<Rightarrow> 'k \<Rightarrow> nat \<Rightarrow> nat
  \<Rightarrow> (nat \<Rightarrow> nat \<Rightarrow> ('c \<Rightarrow> 'c) list) \<Rightarrow> (crew_pc \<times> 'k option, 'g \<times> 'c) stepper" where
  "team_step bstep bentry n calls script =
     client_step (team_prog n calls script) team_after (\<lambda>_. bentry) bstep"

definition team_start :: "nat \<Rightarrow> 'g \<Rightarrow> 'c \<Rightarrow> (crew_pc \<times> 'k option, 'g \<times> 'c) conf" where
  "team_start n g c = client_start (Host (Host_Spawn 0) # map (\<lambda>i. Team i Team_Unborn) [0..<n]) g c"

definition team_end :: "nat \<Rightarrow> (crew_pc \<times> 'k option) list" where
  "team_end n = map (\<lambda>p. (p, None)) (Host Host_Done # map (\<lambda>i. Team i Team_Done) [0..<n])"

text \<open>How many barrier calls of a thread have returned.\<close>

fun passed :: "nat \<Rightarrow> crew_pc \<Rightarrow> nat" where
  "passed calls (Team tid (Team_Run d j)) = d"
| "passed calls (Team tid Team_Done) = calls"
| "passed calls p = 0"

text \<open>The same, counting a call in progress once it has arrived.\<close>

definition reached :: "('g \<Rightarrow> 'k \<Rightarrow> view) \<Rightarrow> nat \<Rightarrow> 'g \<Rightarrow> crew_pc \<times> 'k option \<Rightarrow> nat" where
  "reached view calls g t = passed calls (fst t) + case_option 0 (\<lambda>k. of_bool (view g k \<noteq> Before)) (snd t)"

section \<open>The invariant\<close>

fun crew_at :: "nat \<Rightarrow> nat \<Rightarrow> crew_pc \<Rightarrow> bool" where
  "crew_at n i (Host h) = (i = 0)"
| "crew_at n i (Team tid p) = (i = Suc tid \<and> tid < n)"

text \<open>The place of a thread in the current phase.\<close>

fun in_phase :: "('g \<Rightarrow> 'k \<Rightarrow> view) \<Rightarrow> ('g \<Rightarrow> nat) \<Rightarrow> nat \<Rightarrow> (nat \<Rightarrow> nat \<Rightarrow> ('c \<Rightarrow> 'c) list) \<Rightarrow> 'g
  \<Rightarrow> crew_pc \<times> 'k option \<Rightarrow> bool" where
  "in_phase view gen calls script g (Host h, k) = (k = None)"
| "in_phase view gen calls script g (Team tid Team_Unborn, k) = (k = None \<and> gen g = 0)"
| "in_phase view gen calls script g (Team tid (Team_Run d j), k) =
     (case k of None \<Rightarrow> d = gen g \<and> d \<le> calls \<and> j \<le> length (script tid d)
      | Some k \<Rightarrow> d < calls \<and> j = length (script tid d)
          \<and> (if view g k = Released then Suc d = gen g else d = gen g))"
| "in_phase view gen calls script g (Team tid Team_Done, k) = (k = None \<and> gen g = calls)"

fun joined_team :: "nat \<Rightarrow> host_pc \<Rightarrow> nat" where
  "joined_team n (Host_Spawn k) = 0"
| "joined_team n (Host_Join k) = k"
| "joined_team n Host_Done = n"

lemma team_prog_none:
  "team_prog n calls script i ps c = None \<Longrightarrow> ps ! i = Team tid p \<Longrightarrow> born (ps ! 0) tid
    \<Longrightarrow> p = Team_Done"
  by (cases p) (auto split: if_splits)

lemma in_phase_bound: "in_phase view gen calls script g (Team tid p, k) \<Longrightarrow> gen g \<le> calls"
  by (cases p) (auto split: option.splits if_splits)

text \<open>A list of weights at most 1 that all but one reach: at most one thread lacks it.\<close>

lemma tsum_all_but_one:
  assumes "\<And>t. w t \<le> 1" "length ts \<le> Suc (tsum w ts)" "i < length ts" "w (ts ! i) = 0"
    "j < length ts" "j \<noteq> i"
  shows "w (ts ! j) = 1"
proof (rule ccontr)
  assume "w (ts ! j) \<noteq> 1"
  then have 0: "w (ts ! j) = 0" using assms(1) [of "ts ! j"] by simp
  have "tsum (\<lambda>t. 1 - w t) ts + tsum w ts = tsum (\<lambda>t. 1) ts"
    unfolding tsum_add [symmetric] using assms(1) by (intro tsum_cong) simp
  moreover have "tsum (\<lambda>t. 1) ts = length ts" by simp
  moreover have "(1 - w (ts ! i)) + (1 - w (ts ! j)) \<le> tsum (\<lambda>t. 1 - w t) ts"
    using assms by (intro tsum_two) auto
  ultimately show False using assms(2,4) 0 by simp
qed

definition team_inv :: "(nat \<Rightarrow> 'k option list \<Rightarrow> 'g \<Rightarrow> bool) \<Rightarrow> ('g \<Rightarrow> 'k \<Rightarrow> view) \<Rightarrow> ('g \<Rightarrow> nat)
  \<Rightarrow> nat \<Rightarrow> nat \<Rightarrow> (nat \<Rightarrow> nat \<Rightarrow> ('c \<Rightarrow> 'c) list) \<Rightarrow> (crew_pc \<times> 'k option, 'g \<times> 'c) conf \<Rightarrow> bool" where
  "team_inv binv view gen n calls script conf = (case conf of (ts, (g, c)) \<Rightarrow>
     length ts = Suc n \<and> binv n (map snd ts) g \<and>
     (\<forall>i < length ts. crew_at n i (fst (ts ! i)) \<and> in_phase view gen calls script g (ts ! i)) \<and>
     (\<exists>h. fst (ts ! 0) = Host h \<and> joined_team n h \<le> n \<and>
       (\<forall>j < joined_team n h. ts ! Suc j = (Team j Team_Done, None))))"

lemma team_invE:
  assumes "team_inv binv view gen n calls script (ts, (g, c))"
  obtains h where "length ts = Suc n" "binv n (map snd ts) g"
    "\<And>i. i < length ts \<Longrightarrow> crew_at n i (fst (ts ! i))"
    "\<And>i. i < length ts \<Longrightarrow> in_phase view gen calls script g (ts ! i)"
    "ts ! 0 = (Host h, None)" "joined_team n h \<le> n"
    "\<And>j. j < joined_team n h \<Longrightarrow> ts ! Suc j = (Team j Team_Done, None)"
proof -
  from assms obtain h where "length ts = Suc n" "binv n (map snd ts) g"
    "\<forall>i < length ts. crew_at n i (fst (ts ! i)) \<and> in_phase view gen calls script g (ts ! i)"
    "fst (ts ! 0) = Host h" "joined_team n h \<le> n"
    "\<forall>j < joined_team n h. ts ! Suc j = (Team j Team_Done, None)"
    by (auto simp: team_inv_def)
  moreover from this have "in_phase view gen calls script g (ts ! 0)" by simp
  ultimately show ?thesis using that [of h] by (cases "ts ! 0") auto
qed

section \<open>Any barrier keeps a team in step\<close>

context phase_barrier begin

text \<open>A step of a call moves its thread along and takes the others with it.\<close>

lemma trip_others:
  assumes inv: "team_inv binv view gen n calls script (ts, (g, c))" and i: "i < length ts"
    and k: "ts ! i = (p, Some k)" and full: "n \<le> Suc (tsum (arr (view g)) ((map snd ts)[i := None]))"
    and j: "j < length ts" "j \<noteq> i" "j \<noteq> 0"
  obtains k2 where "snd (ts ! j) = Some k2" "view g k2 = Arrived"
proof -
  from inv obtain h where len: "length ts = Suc n" and 0: "ts ! 0 = (Host h, None)"
    by (auto elim: team_invE)
  have "i \<noteq> 0" using 0 k by (cases "i = 0") simp_all
  let ?qs = "(map snd ts)[i := None]"
  have "?qs ! 0 = None" using 0 len \<open>i \<noteq> 0\<close> by simp
  moreover have "?qs \<noteq> []" using len by auto
  ultimately obtain qs where qs: "?qs = None # qs" by (metis neq_Nil_conv nth_Cons_0)
  have nth: "qs ! m = ?qs ! Suc m" for m unfolding qs by simp
  have "length qs = n" using arg_cong [OF qs, of length] len by simp
  moreover have "n \<le> Suc (tsum (arr (view g)) qs)" using full unfolding qs by simp
  moreover have "qs ! (i - 1) = None" "qs ! (j - 1) = snd (ts ! j)"
    using i j \<open>i \<noteq> 0\<close> by (simp_all add: nth)
  ultimately have "arr (view g) (snd (ts ! j)) = 1"
    using tsum_all_but_one [of "arr (view g)" qs "i - 1" "j - 1"] len i j \<open>i \<noteq> 0\<close>
    by (auto split: option.splits)
  then show ?thesis
    using that by (cases "snd (ts ! j)"; cases "view g (the (snd (ts ! j)))") simp_all
qed

lemma crew_unique:
  assumes "crew_at n i (Team tid p)" "crew_at n j (Team tid p')"
  shows "i = j"
  using assms by simp

text \<open>The other threads stay in their phases when a call takes a step.\<close>

lemma team_others:
  assumes inv: "team_inv binv view gen n calls script (ts, (g, c))" and gen: "Suc (gen g) < limit"
    and i: "i < length ts" and k: "ts ! i = (Team tid (Team_Run d j), Some k)"
    and st: "(r, g') \<in> set (bstep i k g)" and m: "m < length ts" "m \<noteq> i"
  shows "in_phase view gen calls script g' (ts ! m)"
proof -
  from inv obtain h where *: "binv n (map snd ts) g" "in_phase view gen calls script g (ts ! m)" "ts ! 0 = (Host h, None)"
    using m by (auto elim: team_invE)
  have qi: "i < length (map snd ts)" "map snd ts ! i = Some k" using i k by simp_all
  obtain pm km where tm: "ts ! m = (pm, km)" by force
  have ph: "in_phase view gen calls script g (pm, km)" using *(2) tm by simp
  show ?thesis
  proof (cases "gen g' = gen g")
    case True
    have "view g' k2 = view g k2" if "km = Some k2" for k2
      using bar_others [OF *(1) gen qi st, of m k2] m tm that True by simp
    then show ?thesis
      using ph tm True by (cases pm; cases "case pm of Team t p \<Rightarrow> p | _ \<Rightarrow> Team_Done")
        (auto split: option.splits if_splits)
  next
    case False
    then obtain k' where r: "r = Inl k'" using bar_return [OF *(1) qi] st by (cases r) auto
    then have g': "gen g' = Suc (gen g)" and full: "n \<le> Suc (tsum (arr (view g)) ((map snd ts)[i := None]))"
      using bar_step [OF *(1) gen qi] st False by auto
    show ?thesis
    proof (cases "m = 0")
      case True
      with *(3) show ?thesis by simp
    next
      case False
      then obtain k2 where k2: "km = Some k2" "view g k2 = Arrived"
        using trip_others [OF inv i k full m] tm by auto
      then have "view g' k2 = Released"
        using bar_others [OF *(1) gen qi st, of m k2] m tm g' by simp
      then show ?thesis
        using ph tm k2 g' by (cases pm; cases "case pm of Team t p \<Rightarrow> p | _ \<Rightarrow> Team_Done") auto
    qed
  qed
qed

lemma team_call_step:
  assumes inv: "team_inv binv view gen n calls script (ts, (g, c))" and lim: "Suc calls < limit"
    and i: "i < length ts" and k: "ts ! i = (Team tid (Team_Run d j), Some k)"
    and st: "(r, g') \<in> set (bstep i k g)"
    and l: "l = (case r of Inl k' \<Rightarrow> (Team tid (Team_Run d j), Some k') | Inr v \<Rightarrow> (Team tid (Team_Run (Suc d) 0), None))"
  shows "team_inv binv view gen n calls script (ts[i := l], (g', c))"
proof -
  from inv obtain h where *: "length ts = Suc n" "binv n (map snd ts) g"
    "\<And>i. i < length ts \<Longrightarrow> crew_at n i (fst (ts ! i))"
    "\<And>i. i < length ts \<Longrightarrow> in_phase view gen calls script g (ts ! i)"
    "ts ! 0 = (Host h, None)" "joined_team n h \<le> n"
    "\<And>j. j < joined_team n h \<Longrightarrow> ts ! Suc j = (Team j Team_Done, None)"
    by (auto elim: team_invE)
  have pi: "d < calls" "j = length (script tid d)" "if view g k = Released then Suc d = gen g else d = gen g"
    using *(4) [OF i] k by simp_all
  have gen: "Suc (gen g) < limit" using pi lim by (auto split: if_splits)
  have qi: "i < length (map snd ts)" "map snd ts ! i = Some k" using i k by simp_all
  have snd_l: "snd l = (case r of Inl k' \<Rightarrow> Some k' | Inr _ \<Rightarrow> None)" using l by (cases r) simp_all
  have binv': "binv n (map snd (ts[i := l])) g'"
    using bar_keeps [OF *(2) gen qi st] snd_l by (simp add: map_update)
  have own: "in_phase view gen calls script g' l"
  proof (cases r)
    case (Inl k')
    from bar_step [OF *(2) gen qi, of k' g'] st Inl
    consider "gen g' = gen g" "view g' k' = view g k \<or> view g k = Before \<and> view g' k' = Arrived"
      | "gen g' = Suc (gen g)" "view g k \<noteq> Released" "view g' k' = Released" by auto
    then show ?thesis using l Inl pi by cases (auto split: if_splits)
  next
    case (Inr v)
    then show ?thesis using bar_return [OF *(2) qi] st l pi by auto
  qed
  have "i \<noteq> 0" using *(5) k by (cases "i = 0") simp_all
  have "crew_at n i (fst l)" using *(3) [OF i] k l by (cases r) simp_all
  moreover have "ts ! Suc m \<noteq> (Team m Team_Done, None)" if "Suc m = i" for m using k that by auto
  ultimately show ?thesis
    using * binv' team_others [OF inv gen i k st] own i \<open>i \<noteq> 0\<close>
    unfolding team_inv_def by (auto simp: nth_list_update)
qed

lemma team_local_step:
  assumes inv: "team_inv binv view gen n calls script (ts, (g, c))"
    and i: "i < length ts" and k: "ts ! i = (p, None)"
    and st: "team_prog n calls script i (map fst ts) c = Some (Inr (p', c'))"
  shows "team_inv binv view gen n calls script (ts[i := (p', None)], (g, c'))"
proof -
  from inv obtain h where *: "length ts = Suc n" "binv n (map snd ts) g"
    "\<And>i. i < length ts \<Longrightarrow> crew_at n i (fst (ts ! i))"
    "\<And>i. i < length ts \<Longrightarrow> in_phase view gen calls script g (ts ! i)"
    "ts ! 0 = (Host h, None)" "joined_team n h \<le> n"
    "\<And>j. j < joined_team n h \<Longrightarrow> ts ! Suc j = (Team j Team_Done, None)"
    by (auto elim: team_invE)
  have fst_i: "map fst ts ! i = p" using i k by simp
  have at_i: "crew_at n i p" "in_phase view gen calls script g (p, None)"
    using *(3,4) [OF i] k by simp_all
  have "map snd (ts[i := (p', None)]) = map snd ts"
    using i k by (metis list_update_id map_update snd_conv)
  with *(2) have binv': "binv n (map snd (ts[i := (p', None)])) g" by simp
  have own: "crew_at n i p' \<and> in_phase view gen calls script g (p', None)"
    using st at_i fst_i
    by (auto split: crew_pc.splits host_pc.splits team_pc.splits if_splits)
  have host: "\<exists>h'. fst (ts[i := (p', None)] ! 0) = Host h' \<and> joined_team n h' \<le> n
    \<and> (\<forall>j < joined_team n h'. ts[i := (p', None)] ! Suc j = (Team j Team_Done, None))"
  proof (cases "i = 0")
    case True
    then have p: "p = Host h" using *(5) k by simp
    have upd: "ts[i := (p', None)] ! 0 = (p', None)" "ts[i := (p', None)] ! Suc j = ts ! Suc j" for j
      using True *(1) by simp_all
    have done_k: "ts ! Suc j = (Team j Team_Done, None)" if "j < n" "map fst ts ! Suc j = Team j Team_Done" for j
      using *(4) [of "Suc j"] *(1) that by (cases "ts ! Suc j") simp
    show ?thesis
    proof (cases h)
      case (Host_Spawn k)
      with st fst_i p True show ?thesis unfolding upd by (auto split: if_splits)
    next
      case (Host_Join m)
      with st fst_i p True *(6,7) done_k [of m] show ?thesis
        unfolding upd by (auto split: if_splits simp: less_Suc_eq)
    next
      case Host_Done
      with st fst_i p True show ?thesis by simp
    qed
  next
    case False
    have "p \<noteq> Team j Team_Done" for j using st fst_i by auto
    then have "ts ! i \<noteq> (Team j Team_Done, None)" for j using k by simp
    then have "ts[i := (p', None)] ! Suc j = (Team j Team_Done, None)" if "j < joined_team n h" for j
      using *(7) [OF that] by (metis nth_list_update_neq)
    then show ?thesis using False *(5,6) by auto
  qed
  show ?thesis
    using * binv' own host i unfolding team_inv_def by (auto simp: nth_list_update)
qed

lemma team_enter_step:
  assumes inv: "team_inv binv view gen n calls script (ts, (g, c))"
    and i: "i < length ts" and k: "ts ! i = (p, None)"
    and st: "team_prog n calls script i (map fst ts) c = Some (Inl u)"
  shows "team_inv binv view gen n calls script (ts[i := (p, Some bentry)], (g, c))"
proof -
  from inv obtain h where *: "length ts = Suc n" "binv n (map snd ts) g"
    "\<And>i. i < length ts \<Longrightarrow> crew_at n i (fst (ts ! i))"
    "\<And>i. i < length ts \<Longrightarrow> in_phase view gen calls script g (ts ! i)"
    "ts ! 0 = (Host h, None)" "joined_team n h \<le> n"
    "\<And>j. j < joined_team n h \<Longrightarrow> ts ! Suc j = (Team j Team_Done, None)"
    by (auto elim: team_invE)
  have fst_i: "map fst ts ! i = p" using i k by simp
  have p: "\<exists>tid d. p = Team tid (Team_Run d (length (script tid d))) \<and> d < calls \<and> d = gen g"
    using st fst_i *(4) [OF i] k
    by (auto split: crew_pc.splits host_pc.splits team_pc.splits if_splits)
  have "binv n ((map snd ts)[i := Some bentry]) g \<and> view g bentry = Before"
    using bar_call [OF *(2)] i k by simp
  then have "binv n (map snd (ts[i := (p, Some bentry)])) g" "in_phase view gen calls script g (p, Some bentry)"
    using p by (auto simp: map_update)
  moreover have "i \<noteq> 0" using *(5) p k by (cases "i = 0") auto
  moreover have "ts ! i \<noteq> (Team j Team_Done, None)" for j using k p by auto
  then have "ts[i := (p, Some bentry)] ! Suc j = (Team j Team_Done, None)" if "j < joined_team n h" for j
    using *(7) [OF that] by (metis nth_list_update_neq)
  moreover have "crew_at n i p" using *(3) [OF i] k by simp
  ultimately show ?thesis
    using * i unfolding team_inv_def by (auto simp: nth_list_update)
qed

lemma team_keeps:
  assumes inv: "team_inv binv view gen n calls script (ts, (g, c))" and lim: "Suc calls < limit"
    and i: "i < length ts" and st: "(l, (g', c')) \<in> set (team_step bstep bentry n calls script i ts (g, c))"
  shows "team_inv binv view gen n calls script (ts[i := l], (g', c'))"
proof -
  have ph: "in_phase view gen calls script g (ts ! i)" using inv i by (auto elim: team_invE)
  have run: "\<exists>tid d j. p = Team tid (Team_Run d j)" if "ts ! i = (p, Some k)" for p k
    using ph that by (cases p; cases "case p of Team t q \<Rightarrow> q | _ \<Rightarrow> Team_Done") auto
  from st have "(l, (g', c')) \<in> set (client_step (team_prog n calls script) team_after (\<lambda>_. bentry) bstep i ts (g, c))"
    by (simp add: team_step_def)
  then show ?thesis
  proof (cases rule: client_step_cases)
    case (call p oper)
    then show ?thesis using team_enter_step [OF inv i] by simp
  next
    case (local p p' c'')
    then show ?thesis using team_local_step [OF inv i] by simp
  next
    case (within p k k' g'')
    with run obtain tid d j where "p = Team tid (Team_Run d j)" by blast
    then show ?thesis using within team_call_step [OF inv lim i, of tid d j k "Inl k'"] by simp
  next
    case (return p k v g'')
    with run obtain tid d j where "p = Team tid (Team_Run d j)" by blast
    then show ?thesis using return team_call_step [OF inv lim i, of tid d j k "Inr v"] by simp
  qed
qed

lemma team_start_inv:
  assumes "0 < n" "n < limit"
  shows "team_inv binv view gen n calls script (team_start n (bstart n) c0)"
proof -
  let ?ts = "map (\<lambda>p. (p, None)) (Host (Host_Spawn 0) # map (\<lambda>i. Team i Team_Unborn) [0..<n])
    :: (crew_pc \<times> 'k option) list"
  have "list_all (\<lambda>q. q = None) (map snd ?ts)" by (auto simp: list_all_iff)
  from bar_start [OF assms this] have "binv n (map snd ?ts) (bstart n)" "gen (bstart n) = 0" by simp_all
  moreover have "crew_at n i (fst (?ts ! i)) \<and> in_phase view gen calls script (bstart n) (?ts ! i)"
    if "i < length ?ts" for i
    using that \<open>gen (bstart n) = 0\<close> by (cases i) auto
  ultimately show ?thesis
    unfolding team_start_def client_start_def team_inv_def by simp
qed

lemma team_safe:
  assumes "0 < n" "n < limit" "Suc calls < limit"
  shows "interleaving (team_step bstep bentry n calls script) (team_start n (bstart n) c0)
    (team_inv binv view gen n calls script)"
proof
  show "team_inv binv view gen n calls script (team_start n (bstart n) c0)"
    using assms(1,2) by (rule team_start_inv)
next
  fix ts s i l s'
  assume "team_inv binv view gen n calls script (ts, s)" "i < length ts"
    "(l, s') \<in> set (team_step bstep bentry n calls script i ts s)"
  then show "team_inv binv view gen n calls script (ts[i := l], s')"
    using team_keeps [OF _ assms(3), of n script ts "fst s" "snd s" i l "fst s'" "snd s'"] by simp
qed

text \<open>The threads stay within a phase of each other, and none leaves a call that another has not reached.\<close>

lemma team_in_step:
  assumes inv: "team_inv binv view gen n calls script (ts, (g, c))"
    and i: "i < n" and j: "j < n"
  shows "passed calls (fst (ts ! Suc i)) \<le> reached view calls g (ts ! Suc j)"
proof -
  have len: "length ts = Suc n" using inv by (auto elim: team_invE)
  have low: "passed calls (fst (ts ! Suc m)) \<le> gen g" and high: "gen g \<le> reached view calls g (ts ! Suc m)"
    if "m < n" for m
  proof -
    have ph: "in_phase view gen calls script g (ts ! Suc m)" and cr: "crew_at n (Suc m) (fst (ts ! Suc m))"
      using inv that len by (auto elim: team_invE)
    obtain p k where t: "ts ! Suc m = (p, k)" by force
    with cr obtain q where p: "p = Team m q" by (cases p) auto
    show "passed calls (fst (ts ! Suc m)) \<le> gen g"
      using ph t p by (cases q) (auto split: option.splits if_splits)
    show "gen g \<le> reached view calls g (ts ! Suc m)"
      using ph t p by (cases q) (auto simp: reached_def split: option.splits if_splits)
  qed
  from low [OF i] high [OF j] show ?thesis by (rule order_trans)
qed

end

section \<open>Any live barrier lets a team finish\<close>

text \<open>The steps of a thread from its \<open>d\<close>th call on: its actions, and at most 14 steps for a call.\<close>

fun work_left :: "(nat \<Rightarrow> ('c \<Rightarrow> 'c) list) \<Rightarrow> nat \<Rightarrow> nat \<Rightarrow> nat" where
  "work_left acts d 0 = length (acts d) + 1"
| "work_left acts d (Suc m) = length (acts d) + 15 + work_left acts (Suc d) m"

fun team_rank1 :: "('g \<Rightarrow> 'k \<Rightarrow> nat) \<Rightarrow> nat \<Rightarrow> nat \<Rightarrow> (nat \<Rightarrow> nat \<Rightarrow> ('c \<Rightarrow> 'c) list) \<Rightarrow> 'g
  \<Rightarrow> crew_pc \<times> 'k option \<Rightarrow> nat" where
  "team_rank1 brank n calls script g (Host (Host_Spawn k), q) = (n - k) + n + 3"
| "team_rank1 brank n calls script g (Host (Host_Join k), q) = (n - k) + 1"
| "team_rank1 brank n calls script g (Host Host_Done, q) = 0"
| "team_rank1 brank n calls script g (Team tid Team_Unborn, q) = work_left (script tid) 0 calls + 1"
| "team_rank1 brank n calls script g (Team tid (Team_Run d j), q) =
     (case q of None \<Rightarrow> work_left (script tid) d (calls - d) - j
      | Some k \<Rightarrow> work_left (script tid) (Suc d) (calls - Suc d) + brank g k + 1)"
| "team_rank1 brank n calls script g (Team tid Team_Done, q) = 0"

definition team_rank :: "('g \<Rightarrow> 'k \<Rightarrow> nat) \<Rightarrow> nat \<Rightarrow> nat \<Rightarrow> (nat \<Rightarrow> nat \<Rightarrow> ('c \<Rightarrow> 'c) list)
  \<Rightarrow> (crew_pc \<times> 'k option, 'g \<times> 'c) conf \<Rightarrow> nat" where
  "team_rank brank n calls script conf = (case conf of (ts, (g, c)) \<Rightarrow>
     tsum (team_rank1 brank n calls script g) ts)"

definition team_finished :: "nat \<Rightarrow> (crew_pc \<times> 'k option, 'g \<times> 'c) conf \<Rightarrow> bool" where
  "team_finished n conf \<longleftrightarrow> fst conf = team_end n"

lemma work_left_pos: "length (acts d) < work_left acts d m"
  by (cases m) simp_all

lemma work_left_act:
  "j < length (acts d) \<Longrightarrow> work_left acts d m - Suc j < work_left acts d m - j"
  using work_left_pos [of acts d m] by linarith

lemma tsum_decrease:
  assumes "i < length ts" "v l < w (ts ! i)" "\<And>j. j < length ts \<Longrightarrow> j \<noteq> i \<Longrightarrow> v (ts ! j) \<le> w (ts ! j)"
  shows "tsum v (ts[i := l]) < tsum w ts"
  using assms
proof (induction ts arbitrary: i)
  case Nil
  then show ?case by simp
next
  case (Cons t ts)
  show ?case
  proof (cases i)
    case 0
    have "v (ts ! j) \<le> w (ts ! j)" if "j < length ts" for j
      using Cons.prems(3) [of "Suc j"] that 0 by simp
    then have "tsum v ts \<le> tsum w ts"
      unfolding tsum_def by (intro sum_list_mono2) auto
    with 0 Cons.prems(2) show ?thesis by simp
  next
    case (Suc k)
    have "v (ts ! j) \<le> w (ts ! j)" if "j < length ts" "j \<noteq> k" for j
      using Cons.prems(3) [of "Suc j"] that Suc by simp
    moreover have "v t \<le> w t" using Cons.prems(3) [of 0] Suc by simp
    ultimately show ?thesis using Cons.IH [of k] Cons.prems(1,2) Suc by (simp add: add_le_less_mono)
  qed
qed

context phase_barrier begin

text \<open>When no thread has an action, each member is done or has arrived at the barrier of a phase to come.\<close>

lemma stuck_member:
  assumes inv: "team_inv binv view gen n calls script (ts, (g, c))" and m: "m < n"
    and none: "\<And>i p. i < length ts \<Longrightarrow> ts ! i = (p, None) \<Longrightarrow> team_prog n calls script i (map fst ts) c = None"
    and arrived: "\<And>i k. i < length ts \<Longrightarrow> snd (ts ! i) = Some k \<Longrightarrow> view g k = Arrived"
  shows "ts ! Suc m = (Team m Team_Done, None) \<and> gen g = calls
    \<or> (\<exists>d j k. ts ! Suc m = (Team m (Team_Run d j), Some k) \<and> view g k = Arrived \<and> gen g < calls)"
proof -
  from inv obtain h where *: "length ts = Suc n"
    "\<And>i. i < length ts \<Longrightarrow> crew_at n i (fst (ts ! i))"
    "\<And>i. i < length ts \<Longrightarrow> in_phase view gen calls script g (ts ! i)" "ts ! 0 = (Host h, None)"
    by (auto elim: team_invE)
  have started: "born (map fst ts ! 0) j" for j
    using none [of 0 "Host h"] *(1,4) by (cases h) (auto split: if_splits)
  have len: "Suc m < length ts" using m *(1) by simp
  obtain p q where t: "ts ! Suc m = (p, q)" by force
  then obtain tp where p: "p = Team m tp" using *(2) [OF len] by (cases p) auto
  have ph: "in_phase view gen calls script g (p, q)" using *(3) [OF len] t by simp
  show ?thesis
  proof (cases q)
    case None
    have "team_prog n calls script (Suc m) (map fst ts) c = None" using none len t None by blast
    moreover have "map fst ts ! Suc m = Team m tp" using t p len by simp
    ultimately have "tp = Team_Done" using started by (rule team_prog_none)
    then show ?thesis using t p None ph by simp
  next
    case (Some k)
    then have "view g k = Arrived" using arrived len t by simp
    then show ?thesis using t p Some ph by (cases tp) auto
  qed
qed

lemma team_stuck:
  assumes inv: "team_inv binv view gen n calls script (ts, (g, c))"
    and stuck: "\<And>i. i < length ts \<Longrightarrow> team_step bstep bentry n calls script i ts (g, c) = []"
  shows "ts = team_end n"
proof -
  from inv obtain h where *: "length ts = Suc n" "binv n (map snd ts) g" "ts ! 0 = (Host h, None)"
    by (auto elim: team_invE)
  have none: "team_prog n calls script i (map fst ts) c = None" if "i < length ts" "ts ! i = (p, None)" for i p
    using stuck [OF that(1)] that
    by (auto simp: team_step_def client_step.simps split: option.splits sum.splits)
  have blocked: "bstep i k g = []" if "i < length ts" "ts ! i = (p, Some k)" for i p k
    using stuck [OF that(1)] that by (simp add: team_step_def client_step.simps)
  have "bstep j k g = []" if "j < length (map snd ts)" "map snd ts ! j = Some k" for j k
    using blocked [of j "fst (ts ! j)" k] that by (cases "ts ! j") simp
  from bar_blocked [OF *(2) this] have few: "tsum (arr (view g)) (map snd ts) < n"
    and arrived: "\<And>i k. i < length ts \<Longrightarrow> snd (ts ! i) = Some k \<Longrightarrow> view g k = Arrived"
    by (auto simp: list_all_length split: option.splits)
  have member: "ts ! Suc m = (Team m Team_Done, None) \<and> gen g = calls
      \<or> (\<exists>d j k. ts ! Suc m = (Team m (Team_Run d j), Some k) \<and> view g k = Arrived \<and> gen g < calls)"
    if "m < n" for m
    using inv that none arrived by (rule stuck_member)
  have all_done: "ts ! Suc m = (Team m Team_Done, None)" if "m < n" for m
  proof (rule ccontr)
    assume "ts ! Suc m \<noteq> (Team m Team_Done, None)"
    then have "gen g < calls" using member [OF that] by auto
    then have "arr (view g) (map snd ts ! Suc j) = 1" if "j < n" for j
      using member [OF that] *(1) that by auto
    then have "n \<le> tsum (arr (view g)) (map snd ts)" using *(1) by (intro tsum_tail_ones) simp_all
    then show False using few by simp
  qed
  have "h = Host_Done"
    using none [of 0 "Host h"] *(1,3) all_done by (cases h) (auto split: if_splits)
  then show ?thesis
    using *(1,3) all_done
    by (intro nth_equalityI) (auto simp: team_end_def nth_Cons' gr0_conv_Suc)
qed

end

context live_barrier begin

lemma team_call_rank:
  assumes inv: "team_inv binv view gen n calls script (ts, (g, c))" and lim: "Suc calls < limit"
    and i: "i < length ts" and k: "ts ! i = (Team tid (Team_Run d j), Some k)"
    and st: "(r, g') \<in> set (bstep i k g)"
    and l: "l = (case r of Inl k' \<Rightarrow> (Team tid (Team_Run d j), Some k') | Inr v \<Rightarrow> (Team tid (Team_Run (Suc d) 0), None))"
  shows "tsum (team_rank1 brank n calls script g') (ts[i := l]) < tsum (team_rank1 brank n calls script g) ts"
proof (rule tsum_decrease [OF i])
  have b: "binv n (map snd ts) g" and ph: "\<And>i. i < length ts \<Longrightarrow> in_phase view gen calls script g (ts ! i)"
    using inv by (auto elim: team_invE)
  have d: "d < calls" "gen g \<le> calls" using ph [OF i] k by (auto split: if_splits)
  then have gen: "Suc (gen g) < limit" using lim by simp
  have qi: "i < length (map snd ts)" "map snd ts ! i = Some k" using i k by simp_all
  show "team_rank1 brank n calls script g' l < team_rank1 brank n calls script g (ts ! i)"
    using l k st bar_rank [OF b gen qi] d by (cases r) auto
  show "team_rank1 brank n calls script g' (ts ! m) \<le> team_rank1 brank n calls script g (ts ! m)"
    if "m < length ts" "m \<noteq> i" for m
  proof (cases "ts ! m")
    case (Pair p q)
    have "brank g' k2 \<le> brank g k2" if "q = Some k2" for k2
      using bar_rank_others [OF b gen qi st, of m k2] \<open>m < length ts\<close> \<open>m \<noteq> i\<close> Pair that by simp
    then show ?thesis
      using Pair by (cases p; cases "case p of Team t tp \<Rightarrow> tp | _ \<Rightarrow> Team_Done";
        cases "case p of Host h \<Rightarrow> h | _ \<Rightarrow> Host_Done") (auto split: option.splits)
  qed
qed

lemma team_decrease:
  assumes inv: "team_inv binv view gen n calls script (ts, (g, c))" and lim: "Suc calls < limit"
    and i: "i < length ts" and st: "(l, (g', c')) \<in> set (team_step bstep bentry n calls script i ts (g, c))"
  shows "team_rank brank n calls script (ts[i := l], (g', c')) < team_rank brank n calls script (ts, (g, c))"
proof -
  have ph: "in_phase view gen calls script g (ts ! i)" using inv i by (auto elim: team_invE)
  have run: "\<exists>tid d j. p = Team tid (Team_Run d j)" if "ts ! i = (p, Some k)" for p k
    using ph that by (cases p; cases "case p of Team t q \<Rightarrow> q | _ \<Rightarrow> Team_Done") auto
  have still_g: "team_rank brank n calls script (ts[i := l], (g, c')) < team_rank brank n calls script (ts, (g, c))"
    if "team_rank1 brank n calls script g l < team_rank1 brank n calls script g (ts ! i)" for c'
    using tsum_update_less [OF i that] by (simp add: team_rank_def)
  from st have "(l, (g', c')) \<in> set (client_step (team_prog n calls script) team_after (\<lambda>_. bentry) bstep i ts (g, c))"
    by (simp add: team_step_def)
  then show ?thesis
  proof (cases rule: client_step_cases)
    case (call p oper)
    have fst_i: "map fst ts ! i = p" using call i by simp
    then obtain tid d where p: "p = Team tid (Team_Run d (length (script tid d)))" "d < calls"
      using call ph by (auto split: crew_pc.splits host_pc.splits team_pc.splits if_splits)
    then have "work_left (script tid) d (calls - d)
        = length (script tid d) + 15 + work_left (script tid) (Suc d) (calls - Suc d)"
      by (metis Suc_diff_Suc work_left.simps(2))
    then have "team_rank1 brank n calls script g l < team_rank1 brank n calls script g (ts ! i)"
      using call p bar_rank_bound [of g] by simp
    then show ?thesis using still_g call by simp
  next
    case (local p p' c'')
    have fst_i: "map fst ts ! i = p" using local i by simp
    have "team_rank1 brank n calls script g (p', None) < team_rank1 brank n calls script g (p, None)"
      using local(1,2) fst_i ph work_left_pos [of "script tid" d m for tid d m]
      by (auto split: crew_pc.splits host_pc.splits team_pc.splits if_splits intro: work_left_act)
    then show ?thesis using still_g local by simp
  next
    case (within p k k' g'')
    with run obtain tid d j where "p = Team tid (Team_Run d j)" by blast
    then show ?thesis
      using within team_call_rank [OF inv lim i, of tid d j k "Inl k'" g''] by (simp add: team_rank_def)
  next
    case (return p k v g'')
    with run obtain tid d j where "p = Team tid (Team_Run d j)" by blast
    then show ?thesis
      using return team_call_rank [OF inv lim i, of tid d j k "Inr v" g''] by (simp add: team_rank_def)
  qed
qed

lemma team_live:
  assumes "0 < n" "n < limit" "Suc calls < limit"
  shows "live_interleaving (team_step bstep bentry n calls script) (team_start n (bstart n) c0)
    (team_inv binv view gen n calls script) (team_finished n) (team_rank brank n calls script)"
proof -
  have dec: "team_rank brank n calls script (ts[i := l], s') < team_rank brank n calls script (ts, s)"
    if "team_inv binv view gen n calls script (ts, s)" "i < length ts"
      "(l, s') \<in> set (team_step bstep bentry n calls script i ts s)" for ts s i l s'
    using team_decrease [OF _ assms(3), of n script ts "fst s" "snd s" i l "fst s'" "snd s'"] that by simp
  show ?thesis
  proof (rule live_interleaving.intro [OF team_safe [OF assms]], unfold_locales)
    fix conf
    assume inv: "team_inv binv view gen n calls script conf" and nf: "\<not> team_finished n conf"
    obtain ts s where conf: "conf = (ts, s)" by (cases conf)
    have "team_inv binv view gen n calls script (ts, (fst s, snd s))" using inv conf by simp
    from team_stuck [OF this] obtain i where i: "i < length ts"
      "team_step bstep bentry n calls script i ts s \<noteq> []"
      using nf conf by (auto simp: team_finished_def)
    then obtain l s' where st: "(l, s') \<in> set (team_step bstep bentry n calls script i ts s)"
      by (metis list.set_intros(1) neq_Nil_conv surj_pair)
    have "istep (team_step bstep bentry n calls script) (ts, s) (ts[i := l], s')" using i(1) st by (rule istepI)
    moreover have "(ts[i := l], s') \<noteq> (ts, s)" using dec [OF _ i(1) st] inv conf by auto
    ultimately show "\<exists>c'. move (team_step bstep bentry n calls script) conf c'"
      unfolding move_def conf by blast
  qed (use dec in blast)
qed

end

end
