(* ===== verification/Barrier_Runs.thy ===== *)
theory Barrier_Runs
  imports Barrier_Bench
begin

text \<open>
  The five benchmarks of src/bench\_barrier.cpp as scripts of actions between barrier calls,
  and what each of them has computed when it ends.  The proof rule \<open>team_phases\<close> is the reason
  why a barrier is used: in an action before call number \<open>d\<close>, every other thread has performed
  all its actions before call \<open>d - 1\<close>, and none after call \<open>d + 1\<close>.
\<close>

section \<open>Reasoning by phases\<close>

definition acts_before :: "(nat \<Rightarrow> nat \<Rightarrow> ('c \<Rightarrow> 'c) list) \<Rightarrow> nat \<Rightarrow> nat \<Rightarrow> nat" where
  "acts_before script tid d = sum_list (map (\<lambda>d'. length (script tid d')) [0..<d])"

lemma acts_before_0 [simp]: "acts_before script tid 0 = 0"
  by (simp add: acts_before_def)

lemma acts_before_Suc: "acts_before script tid (Suc d) = acts_before script tid d + length (script tid d)"
  by (simp add: acts_before_def)

lemma acts_before_mono: "d \<le> e \<Longrightarrow> acts_before script tid d \<le> acts_before script tid e"
  by (induction rule: dec_induct) (simp_all add: acts_before_Suc)

text \<open>The number of actions that a thread has performed.\<close>

fun performed :: "nat \<Rightarrow> (nat \<Rightarrow> nat \<Rightarrow> ('c \<Rightarrow> 'c) list) \<Rightarrow> crew_pc \<Rightarrow> nat" where
  "performed calls script (Team tid (Team_Run d j)) = acts_before script tid d + j"
| "performed calls script (Team tid Team_Done) = acts_before script tid (Suc calls)"
| "performed calls script p = 0"

definition team_progress :: "nat \<Rightarrow> nat \<Rightarrow> (nat \<Rightarrow> nat \<Rightarrow> ('c \<Rightarrow> 'c) list) \<Rightarrow> crew_pc list \<Rightarrow> nat \<Rightarrow> nat" where
  "team_progress n calls script ps m = (if m < n then performed calls script (ps ! Suc m) else 0)"

lemma team_progress_start [simp]:
  "team_progress n calls script (map fst (fst (team_start n g c))) = (\<lambda>_. 0)"
  by (rule ext) (simp add: team_progress_def team_start_def client_start_def)

lemma team_progress_end:
  "team_progress n calls script (map fst (team_end n)) = (\<lambda>m. if m < n then acts_before script m (Suc calls) else 0)"
  by (rule ext) (simp add: team_progress_def team_end_def)

context phase_barrier begin

text \<open>Of the steps of a team, only the actions on the shared variables count as progress.\<close>

lemma team_progress_step:
  assumes inv: "team_inv binv view gen n calls script (ts, (g, c))"
    and i: "i < length ts" and st: "(l, (g', c')) \<in> set (team_step bstep bentry n calls script i ts (g, c))"
  obtains (same) "c' = c"
      "team_progress n calls script (map fst (ts[i := l])) = team_progress n calls script (map fst ts)"
  | (act) tid d j where "i = Suc tid" "tid < n" "ts ! i = (Team tid (Team_Run d j), None)" "d = gen g"
      "d \<le> calls" "j < length (script tid d)" "c' = (script tid d ! j) c"
      "team_progress n calls script (map fst (ts[i := l]))
        = (team_progress n calls script (map fst ts))(tid := Suc (team_progress n calls script (map fst ts) tid))"
proof -
  from inv have len: "length ts = Suc n" and cr: "crew_at n i (fst (ts ! i))"
    and ph: "in_phase view gen calls script g (ts ! i)"
    using i by (auto elim: team_invE)
  have idle: "team_progress n calls script (map fst (ts[i := l])) = team_progress n calls script (map fst ts)"
    if "performed calls script (fst l) = performed calls script (fst (ts ! i))"
    using that i by (auto simp: team_progress_def fun_eq_iff nth_list_update len)
  from st have "(l, (g', c')) \<in> set (client_step (team_prog n calls script) team_after (\<lambda>_. bentry) bstep i ts (g, c))"
    by (simp add: team_step_def)
  then show ?thesis
  proof (cases rule: client_step_cases)
    case (call p oper)
    then show ?thesis using same idle by simp
  next
    case (within p k k' g'')
    then show ?thesis using same idle by simp
  next
    case (return p k v g'')
    then have "performed calls script (fst l) = performed calls script (fst (ts ! i))"
      using ph cr by (cases p; cases "case p of Team t q \<Rightarrow> q | _ \<Rightarrow> Team_Done")
        (auto simp: acts_before_Suc)
    then show ?thesis using same idle return by simp
  next
    case (local p p' c'')
    have p: "map fst ts ! i = p" using local i by simp
    show ?thesis
    proof (cases "\<exists>tid d j. p = Team tid (Team_Run d j) \<and> j < length (script tid d)")
      case True
      then obtain tid d j where run: "p = Team tid (Team_Run d j)" "j < length (script tid d)" by blast
      then have "i = Suc tid" "tid < n" "d = gen g" "d \<le> calls" using cr ph local by simp_all
      moreover have "p' = Team tid (Team_Run d (Suc j))" "c'' = (script tid d ! j) c"
        using local(2) p run by (simp_all add: crew_pc.splits)
      ultimately show ?thesis
        using act [of tid d j] run local i
        by (simp add: team_progress_def fun_eq_iff nth_list_update len)
    next
      case False
      then have "c'' = c \<and> performed calls script p' = performed calls script p"
        using local(1,2) p ph by (auto split: crew_pc.splits host_pc.splits team_pc.splits if_splits
            simp: acts_before_Suc)
      then show ?thesis using same idle local by simp
    qed
  qed
qed

text \<open>What the other threads have done when a thread is between its calls.\<close>

lemma team_progress_bounds:
  assumes inv: "team_inv binv view gen n calls script (ts, (g, c))" and m: "m < n"
  shows "acts_before script m (gen g) \<le> team_progress n calls script (map fst ts) m
    \<and> team_progress n calls script (map fst ts) m \<le> acts_before script m (Suc (gen g))"
proof -
  have len: "length ts = Suc n" using inv by (auto elim: team_invE)
  have ph: "in_phase view gen calls script g (ts ! Suc m)" and cr: "crew_at n (Suc m) (fst (ts ! Suc m))"
    using inv m len by (auto elim: team_invE)
  obtain p k where t: "ts ! Suc m = (p, k)" by force
  with cr obtain q where p: "p = Team m q" by (cases p) auto
  have shift: "acts_before script m (gen g) = acts_before script m d + length (script m d)"
    if "Suc d = gen g" for d
    using acts_before_Suc [of script m d] that by simp
  have "acts_before script m (gen g) \<le> performed calls script p
    \<and> performed calls script p \<le> acts_before script m (Suc (gen g))"
    using ph t p acts_before_mono [of "gen g" "Suc (gen g)" script m]
    by (cases q) (auto simp: acts_before_Suc dest!: shift split: option.splits if_splits)
  then show ?thesis using t m len by (simp add: team_progress_def)
qed

text \<open>
  The proof rule.  \<open>Q\<close> relates the numbers of actions performed and the shared variables; it
  has to be kept by every action, in a state where all threads are in the same phase.
\<close>

lemma team_phases:
  assumes "0 < n" "n < limit" "Suc calls < limit" and start: "Q (\<lambda>_. 0) c0"
    and act: "\<And>P c tid d j. Q P c \<Longrightarrow> tid < n \<Longrightarrow> d \<le> calls \<Longrightarrow> j < length (script tid d)
      \<Longrightarrow> P tid = acts_before script tid d + j
      \<Longrightarrow> (\<And>m. m < n \<Longrightarrow> acts_before script m d \<le> P m \<and> P m \<le> acts_before script m (Suc d))
      \<Longrightarrow> Q (P(tid := Suc (P tid))) ((script tid d ! j) c)"
  shows "interleaving (team_step bstep bentry n calls script) (team_start n (bstart n) c0)
    (\<lambda>(ts, (g, c)). team_inv binv view gen n calls script (ts, (g, c))
      \<and> Q (team_progress n calls script (map fst ts)) c)"
proof unfold_locales
  have "team_inv binv view gen n calls script (team_start n (bstart n) c0)"
    using assms(1,2) by (rule team_start_inv)
  then obtain ts0 where s0: "team_start n (bstart n) c0 = (ts0, (bstart n, c0))"
    and "team_inv binv view gen n calls script (ts0, (bstart n, c0))"
    by (simp add: team_start_def client_start_def)
  moreover have "team_progress n calls script (map fst ts0) = (\<lambda>_. 0)"
    using arg_cong [OF s0, of "\<lambda>conf. team_progress n calls script (map fst (fst conf))"] by simp
  ultimately show "case team_start n (bstart n) c0 of (ts, g, c) \<Rightarrow> team_inv binv view gen n calls script (ts, g, c)
      \<and> Q (team_progress n calls script (map fst ts)) c"
    using start s0 by simp
next
  fix ts s i l s'
  assume inv: "case (ts, s) of (ts, g, c) \<Rightarrow> team_inv binv view gen n calls script (ts, g, c)
      \<and> Q (team_progress n calls script (map fst ts)) c"
    and i: "i < length ts" and st: "(l, s') \<in> set (team_step bstep bentry n calls script i ts s)"
  obtain g c g' c' where s: "s = (g, c)" "s' = (g', c')" by (cases s; cases s')
  from inv s have inv: "team_inv binv view gen n calls script (ts, (g, c))"
    and q: "Q (team_progress n calls script (map fst ts)) c" by simp_all
  note st = st [unfolded s]
  have "Q (team_progress n calls script (map fst (ts[i := l]))) c'"
  proof (cases rule: team_progress_step [OF inv i st])
    case 1
    then show ?thesis using q by simp
  next
    case (2 tid d j)
    have "team_progress n calls script (map fst ts) tid = acts_before script tid d + j"
      using 2 i by (simp add: team_progress_def)
    then show ?thesis
      using act [OF q, of tid d j] team_progress_bounds [OF inv] 2 by simp
  qed
  then show "case (ts[i := l], s') of (ts, g, c) \<Rightarrow> team_inv binv view gen n calls script (ts, g, c)
      \<and> Q (team_progress n calls script (map fst ts)) c"
    using team_keeps [OF inv assms(3) i st] s by simp
qed

end

section \<open>What a team has computed\<close>

lemma work_left_eq:
  "work_left acts d m = sum_list (map (\<lambda>d. length (acts d)) [d..<Suc (d + m)]) + 15 * m + 1"
proof (induction m arbitrary: d)
  case 0
  then show ?case by simp
next
  case (Suc m)
  have "[d..<Suc (d + Suc m)] = d # [Suc d..<Suc (Suc d + m)]"
    using upt_conv_Cons [of d "Suc (d + Suc m)"] by simp
  with Suc [of "Suc d"] show ?case by (simp del: upt_Suc)
qed

lemma work_left_start: "work_left (script tid) 0 calls = acts_before script tid (Suc calls) + 15 * calls + 1"
  unfolding work_left_eq acts_before_def by simp

lemma team_start_rank:
  assumes "\<And>tid. tid < n \<Longrightarrow> acts_before script tid (Suc calls) \<le> a"
  shows "team_rank brank n calls script (team_start n g c) \<le> n * (a + 15 * calls + 4) + 3"
proof -
  let ?w = "\<lambda>tid. team_rank1 brank n calls script g (Team tid Team_Unborn, None)"
  have "sum_list (map ?w [0..<n]) \<le> sum_list (map (\<lambda>_. a + 15 * calls + 2) [0..<n])"
    using assms by (intro sum_list_mono) (simp add: work_left_start)
  also have "\<dots> = n * (a + 15 * calls + 2)" by (simp add: sum_list_triv)
  finally have "sum_list (map ?w [0..<n]) \<le> n * (a + 15 * calls + 2)" .
  moreover have "team_rank brank n calls script (team_start n g c) = n + n + 3 + sum_list (map ?w [0..<n])"
    by (simp add: team_rank_def team_start_def client_start_def tsum_def comp_def del: team_rank1.simps(4))
  ultimately show ?thesis by (simp add: algebra_simps)
qed

context live_barrier begin

lemma team_computes:
  assumes "0 < n" "n < limit" "Suc calls < limit" and start: "Q (\<lambda>_. 0) c0"
    and act: "\<And>P c tid d j. Q P c \<Longrightarrow> tid < n \<Longrightarrow> d \<le> calls \<Longrightarrow> j < length (script tid d)
      \<Longrightarrow> P tid = acts_before script tid d + j
      \<Longrightarrow> (\<And>m. m < n \<Longrightarrow> acts_before script m d \<le> P m \<and> P m \<le> acts_before script m (Suc d))
      \<Longrightarrow> Q (P(tid := Suc (P tid))) ((script tid d ! j) c)"
    and bound: "\<And>tid. tid < n \<Longrightarrow> acts_before script tid (Suc calls) \<le> a"
    and final: "\<And>g c. binv n (map snd (team_end n)) g \<Longrightarrow> gen g = calls
      \<Longrightarrow> Q (\<lambda>m. if m < n then acts_before script m (Suc calls) else 0) c \<Longrightarrow> final (team_end n, (g, c))"
  shows "finishes (team_step bstep bentry n calls script) (team_start n (bstart n) c0) final
    (n * (a + 15 * calls + 4) + 3)"
proof (rule interleaving.finishes_with)
  show "interleaving (team_step bstep bentry n calls script) (team_start n (bstart n) c0)
    (\<lambda>(ts, (g, c)). team_inv binv view gen n calls script (ts, (g, c))
      \<and> Q (team_progress n calls script (map fst ts)) c)"
    by (rule team_phases [OF assms(1-5)])
  show "finishes (team_step bstep bentry n calls script) (team_start n (bstart n) c0) (team_finished n)
    (n * (a + 15 * calls + 4) + 3)"
    by (rule live_interleaving.always_finishes [OF team_live [OF assms(1-3)]])
      (rule team_start_rank [OF bound])
next
  fix conf
  assume inv: "case conf of (ts, (g, c)) \<Rightarrow> team_inv binv view gen n calls script (ts, (g, c))
      \<and> Q (team_progress n calls script (map fst ts)) c" and fin: "team_finished n conf"
  obtain g c where conf: "conf = (team_end n, (g, c))"
    using fin by (cases conf) (auto simp: team_finished_def)
  with inv have inv: "team_inv binv view gen n calls script (team_end n, (g, c))"
    and q: "Q (\<lambda>m. if m < n then acts_before script m (Suc calls) else 0) c"
    by (simp_all add: team_progress_end)
  from inv have "in_phase view gen calls script g (team_end n ! Suc 0)" "binv n (map snd (team_end n)) g"
    using \<open>0 < n\<close> by (auto elim!: team_invE)
  then show "final conf" using final q conf \<open>0 < n\<close> by (simp add: team_end_def)
qed

end

section \<open>ManualBarrier\_WithWork\<close>

text \<open>
  The time that a thread spends in \<open>simulate_work\<close> is an action without effect on the shared
  variables.
\<close>

definition busy :: "'c \<Rightarrow> 'c" where
  "busy c = c"

definition work_script :: "nat \<Rightarrow> nat \<Rightarrow> nat \<Rightarrow> ('c \<Rightarrow> 'c) list" where
  "work_script num_phases thread_id d = (if d < num_phases then [busy] else [])"

lemma acts_before_work: "acts_before (work_script p) tid d = min d p"
  by (induction d) (auto simp: acts_before_Suc work_script_def)

definition manual_with_work_step :: "nat \<Rightarrow> (crew_pc \<times> arrive_pc option, manual_barrier \<times> unit) stepper" where
  "manual_with_work_step num_threads = team_step (manual_step False) Arr_Lock num_threads 10 (work_script 10)"

definition manual_with_work_start :: "nat \<Rightarrow> (crew_pc \<times> arrive_pc option, manual_barrier \<times> unit) conf" where
  "manual_with_work_start num_threads = team_start num_threads (manual_ctor num_threads) ()"

lemma manual_barrier_ends:
  assumes "0 < n" "n < 2 ^ 64"
  shows "finishes (manual_with_work_step n) (manual_with_work_start n)
    (\<lambda>(ts, (b, c)). ts = team_end n \<and> bar_generation b = 10 \<and> bar_waiting b = 0 \<and> \<not> bar_mtx b)
    (n * 164 + 3)"
proof -
  have none: "tsum (case_option 0 w) (map snd (team_end n)) = 0" for w :: "arrive_pc \<Rightarrow> nat"
    by (auto simp: tsum_eq_0_iff team_end_def)
  have "finishes (team_step (manual_step False) Arr_Lock n 10 (work_script 10))
      (team_start n (manual_ctor n) ())
      (\<lambda>(ts, (b, c)). ts = team_end n \<and> bar_generation b = 10 \<and> bar_waiting b = 0 \<and> \<not> bar_mtx b)
      (n * (10 + 15 * 10 + 4) + 3)"
  proof (rule manual_live.team_computes [where Q = "\<lambda>_ _. True"])
    fix b :: manual_barrier and c :: unit
    assume "manual_inv False n (map snd (team_end n)) b" "unat (bar_generation b) = 10"
    then show "case (team_end n, (b, c)) of (ts, (b, c)) \<Rightarrow>
        ts = team_end n \<and> bar_generation b = 10 \<and> bar_waiting b = 0 \<and> \<not> bar_mtx b"
      using none by (auto simp: manual_inv_def manual_counts_def word_unat_eq_iff)
  qed (use assms in \<open>simp_all add: acts_before_work\<close>)
  then show ?thesis by (simp add: manual_with_work_step_def manual_with_work_start_def)
qed

text \<open>
  C4. ManualBarrier\_WithWork: for every number of threads that a \<open>size_t\<close> can hold, every run of an
  iteration ends within the stated number of steps, with all threads joined after ten phases
  and the barrier as it was, ten generations later.  No thread is left waiting, in any
  interleaving (without spurious wake-ups, which can go on for ever).
\<close>

theorem manual_barrier_finishes:
  assumes "0 < n" "n < 2 ^ 64"
  shows "finishes (manual_with_work_step n) (manual_with_work_start n)
    (\<lambda>(ts, (b, c)). ts = team_end n \<and> bar_generation b = 10 \<and> bar_waiting b = 0 \<and> \<not> bar_mtx b)
    (n * 164 + 3)"
  using assms by (rule manual_barrier_ends)

theorem manual_barrier_finishes_witness:
  "finishes (manual_with_work_step 8) (manual_with_work_start 8)
    (\<lambda>(ts, (b, c)). ts = team_end 8 \<and> bar_generation b = 10 \<and> bar_waiting b = 0 \<and> \<not> bar_mtx b) 1315"
  using manual_barrier_finishes [of 8] by simp

text \<open>
  C5. The barrier property of ManualBarrier, with spurious wake-ups allowed: whatever the threads
  do between their calls, in every reachable state no thread has returned from a call that
  another thread has not yet entered and counted.
\<close>

theorem manual_barrier_in_step:
  assumes "steps (team_step (manual_step spurious) Arr_Lock n calls script)
      (team_start n (manual_ctor n) c0) (ts, (b, c))"
    and "0 < n" "n < 2 ^ 64" "Suc calls < 2 ^ 64" "i < n" "j < n"
  shows "passed calls (fst (ts ! Suc i)) \<le> reached manual_view calls b (ts ! Suc j)"
  by (rule manual_bar.team_in_step [OF interleaving.reach_inv [OF manual_bar.team_safe [OF assms(2-4)] assms(1)]
        assms(5,6)])

text \<open>Thread 1 has returned from its call while thread 0 is still asleep in it, but released.\<close>

lemma manual_two_run:
  "exec (team_step (manual_step True) Arr_Lock 2 1 (\<lambda>_ _. [])) (team_start 2 (manual_ctor 2) ())
     ([(0, 0), (0, 0), (1, 0), (2, 0)] @ replicate 6 (1, 0) @ replicate 8 (2, 0))
   = Some ([(Host (Host_Spawn 2), None), (Team 0 (Team_Run 0 0), Some (Arr_Blocked 0)),
            (Team 1 (Team_Run 1 0), None)],
       (\<lparr>bar_mtx = False, bar_waiters = [], bar_count = 2, bar_waiting = 0, bar_generation = 1\<rparr>, ()))"
  by (simp add: numeral_eq_Suc team_step_def team_start_def client_start_def client_step.simps manual_ctor_def)

theorem manual_barrier_in_step_witness:
  "\<exists>ts b. steps (team_step (manual_step True) Arr_Lock 2 1 (\<lambda>_ _. [])) (team_start 2 (manual_ctor 2) ()) (ts, (b, ()))
    \<and> passed 1 (fst (ts ! Suc 1)) = 1 \<and> 1 \<le> reached manual_view 1 b (ts ! Suc 0)"
proof -
  note st = exec_steps [OF manual_two_run]
  show ?thesis using manual_barrier_in_step [OF st, of 1 0] st by fastforce
qed

section \<open>StdBarrier\_WithWork\<close>

text \<open>
  The threads publish clock readings through the barrier: \<open>arrival tid phase\<close> is what \<open>now()\<close>
  returns to thread \<open>tid\<close> at the end of its work in a phase, \<open>launch phase\<close> what it returns for
  \<open>phase_starts[phase]\<close>, to the main thread for phase 0 and to thread 0 for the others.  Call
  number \<open>2 * phase\<close> is the barrier of a phase, the next one its confirmation.
\<close>

record phase_times =
  phase_starts :: "int list"
  last_arrival :: "int list"

definition note_arrival :: "(nat \<Rightarrow> nat \<Rightarrow> int) \<Rightarrow> nat \<Rightarrow> nat \<Rightarrow> phase_times \<Rightarrow> phase_times" where
  "note_arrival arrival thread_id phase c =
     c\<lparr>last_arrival := (last_arrival c)[thread_id := arrival thread_id phase - phase_starts c ! phase]\<rparr>"

definition publish_start :: "(nat \<Rightarrow> int) \<Rightarrow> nat \<Rightarrow> phase_times \<Rightarrow> phase_times" where
  "publish_start launch phase c = c\<lparr>phase_starts := (phase_starts c)[phase := launch phase]\<rparr>"

definition publish_script :: "(nat \<Rightarrow> nat \<Rightarrow> int) \<Rightarrow> (nat \<Rightarrow> int) \<Rightarrow> nat \<Rightarrow> nat \<Rightarrow> nat
  \<Rightarrow> (phase_times \<Rightarrow> phase_times) list" where
  "publish_script arrival launch num_phases thread_id d =
     (let phase = d div 2 in
      if even d then [busy, note_arrival arrival thread_id phase]
      else if thread_id = 0 \<and> phase + 1 < num_phases then [publish_start launch (phase + 1)]
      else [])"

definition std_with_work_step :: "(nat \<Rightarrow> nat \<Rightarrow> int) \<Rightarrow> (nat \<Rightarrow> int) \<Rightarrow> nat
  \<Rightarrow> (crew_pc \<times> std_pc option, std_barrier \<times> phase_times) stepper" where
  "std_with_work_step arrival launch num_threads =
     team_step std_step Std_Arrive num_threads (2 * 10 - 1) (publish_script arrival launch 10)"

definition std_with_work_start :: "(nat \<Rightarrow> int) \<Rightarrow> nat
  \<Rightarrow> (crew_pc \<times> std_pc option, std_barrier \<times> phase_times) conf" where
  "std_with_work_start launch num_threads = team_start num_threads (std_barrier_ctor num_threads)
     \<lparr>phase_starts = (replicate 10 0)[0 := launch 0], last_arrival = replicate num_threads 0\<rparr>"

text \<open>
  What has been published and noted after \<open>P tid\<close> actions of each thread: thread 0 has three
  actions per phase and the others two.
\<close>

definition noted :: "nat \<Rightarrow> nat \<Rightarrow> nat" where
  "noted tid k = (if tid = 0 then (k + 1) div 3 else k div 2)"

definition publish_inv :: "(nat \<Rightarrow> nat \<Rightarrow> int) \<Rightarrow> (nat \<Rightarrow> int) \<Rightarrow> nat \<Rightarrow> (nat \<Rightarrow> nat) \<Rightarrow> phase_times \<Rightarrow> bool" where
  "publish_inv arrival launch n P c \<longleftrightarrow>
     length (phase_starts c) = 10 \<and> length (last_arrival c) = n \<and>
     (\<forall>p < 10. p \<le> P 0 div 3 \<longrightarrow> phase_starts c ! p = launch p) \<and>
     (\<forall>tid < n. 0 < noted tid (P tid)
        \<longrightarrow> last_arrival c ! tid = arrival tid (noted tid (P tid) - 1) - launch (noted tid (P tid) - 1))"

lemma acts_before_publish:
  "d \<le> 19 \<Longrightarrow> acts_before (publish_script arrival launch 10) tid d
    = 2 * (d div 2) + (if odd d then 2 else 0) + (if tid = 0 then d div 2 else 0)"
proof (induction d)
  case 0
  then show ?case by simp
next
  case (Suc d)
  then show ?case
    by (cases "even d") (auto simp: acts_before_Suc publish_script_def Let_def elim!: oddE evenE)
qed

lemma acts_before_publish_end:
  "acts_before (publish_script arrival launch 10) tid 20 = (if tid = 0 then 29 else 20)"
  using acts_before_Suc [of "publish_script arrival launch 10" tid 19]
  by (simp add: acts_before_publish publish_script_def)

lemma publish_keeps:
  assumes inv: "publish_inv arrival launch n P c" and "tid < n" "d \<le> 19"
    and j: "j < length (publish_script arrival launch 10 tid d)"
    and p: "P tid = acts_before (publish_script arrival launch 10) tid d + j"
    and p0: "acts_before (publish_script arrival launch 10) 0 d \<le> P 0"
  shows "publish_inv arrival launch n (P(tid := Suc (P tid))) ((publish_script arrival launch 10 tid d ! j) c)"
proof (cases "even d")
  case True
  then obtain h where h: "d = 2 * h" by (elim evenE)
  have "h < 10" using \<open>d \<le> 19\<close> h by simp
  have at: "P tid = (if tid = 0 then 3 * h else 2 * h) + j" "3 * h \<le> P 0" "j < 2"
    using p p0 j h \<open>d \<le> 19\<close> by (auto simp: acts_before_publish publish_script_def Let_def)
  have starts: "phase_starts c ! h = launch h"
    using inv at(2) \<open>h < 10\<close> by (auto simp: publish_inv_def)
  consider "j = 0" | "j = 1" using at(3) by linarith
  then show ?thesis
  proof cases
    case 1
    have "Suc (Suc (3 * h)) div 3 = h" "Suc (3 * h) div 3 = h" by presburger+
    then have "noted tid (Suc (P tid)) = noted tid (P tid)" "Suc (3 * h) div 3 = h"
      using at 1 by (auto simp: noted_def)
    then show ?thesis
      using inv 1 at h by (auto simp: publish_inv_def publish_script_def Let_def busy_def)
  next
    case 2
    have "noted tid (Suc (P tid)) = Suc h" "Suc (Suc (3 * h)) div 3 = h" "Suc (3 * h) div 3 = h"
      using at 2 by (auto simp: noted_def)
    then show ?thesis
      using inv 2 at h starts \<open>tid < n\<close>
      by (auto simp: publish_inv_def publish_script_def Let_def note_arrival_def nth_list_update)
  qed
next
  case False
  then obtain h where h: "d = 2 * h + 1" by (elim oddE)
  have at: "tid = 0" "Suc h < 10" "j = 0" "P 0 = 3 * h + 2"
    using p j h \<open>d \<le> 19\<close> by (auto simp: acts_before_publish publish_script_def Let_def split: if_splits)
  have "noted 0 (Suc (P 0)) = noted 0 (P 0)" "Suc (P 0) div 3 = Suc h" "P 0 div 3 = h"
    using at by (auto simp: noted_def)
  then show ?thesis
    using inv at h
    by (auto simp: publish_inv_def publish_script_def Let_def publish_start_def nth_list_update le_Suc_eq)
qed

text \<open>
  StdBarrier\_WithWork: every run of an iteration ends, and the arrival times that it reports
  are those of the last phase: each thread's last reading, minus the start of phase 9 that
  thread 0 has published between the two barriers.  No thread ever reads a start that has not
  been published, whatever the clock and the interleaving.
\<close>

theorem std_with_work_publishes:
  "finishes (std_with_work_step arrival launch (Suc n)) (std_with_work_start launch (Suc n))
    (\<lambda>(ts, (b, c)). ts = team_end (Suc n)
      \<and> last_arrival c = map (\<lambda>tid. arrival tid 9 - launch 9) [0..<Suc n]
      \<and> phase_starts c = map launch [0..<10] \<and> phase_no b = 19)
    (Suc n * 318 + 3)"
proof -
  let ?script = "publish_script arrival launch 10"
  have "finishes (team_step std_step Std_Arrive (Suc n) 19 ?script)
    (team_start (Suc n) (std_barrier_ctor (Suc n))
      \<lparr>phase_starts = (replicate 10 0)[0 := launch 0], last_arrival = replicate (Suc n) 0\<rparr>)
    (\<lambda>(ts, (b, c)). ts = team_end (Suc n)
      \<and> last_arrival c = map (\<lambda>tid. arrival tid 9 - launch 9) [0..<Suc n]
      \<and> phase_starts c = map launch [0..<10] \<and> phase_no b = 19)
    (Suc n * (29 + 15 * 19 + 4) + 3)"
  proof (rule std_bar.team_computes [where Q = "publish_inv arrival launch (Suc n)" and limit = "n + 21"])
    fix P c tid d j
    assume "publish_inv arrival launch (Suc n) P c" "tid < Suc n" "d \<le> 19" "j < length (?script tid d)"
      "P tid = acts_before ?script tid d + j"
      "\<And>m. m < Suc n \<Longrightarrow> acts_before ?script m d \<le> P m \<and> P m \<le> acts_before ?script m (Suc d)"
    then show "publish_inv arrival launch (Suc n) (P(tid := Suc (P tid))) ((?script tid d ! j) c)"
      by (intro publish_keeps) auto
  next
    fix tid
    show "acts_before ?script tid (Suc 19) \<le> 29"
      by (simp add: acts_before_publish_end)
  next
    fix b :: std_barrier and c
    let ?P = "\<lambda>m. if m < Suc n then acts_before ?script m (Suc 19) else 0"
    assume "phase_no b = 19" and inv: "publish_inv arrival launch (Suc n) ?P c"
    have ends: "?P 0 = 29" "\<And>tid. tid < Suc n \<Longrightarrow> noted tid (?P tid) = 10"
      by (simp_all add: acts_before_publish_end noted_def)
    have "last_arrival c = map (\<lambda>tid. arrival tid 9 - launch 9) [0..<Suc n]"
      using inv ends(2) by (intro nth_equalityI) (auto simp: publish_inv_def simp del: upt_Suc)
    moreover have "phase_starts c = map launch [0..<10]"
      using inv ends(1) by (intro nth_equalityI) (auto simp: publish_inv_def simp del: upt_Suc)
    ultimately show "case (team_end (Suc n), (b, c)) of (ts, (b, c)) \<Rightarrow> ts = team_end (Suc n)
      \<and> last_arrival c = map (\<lambda>tid. arrival tid 9 - launch 9) [0..<Suc n]
      \<and> phase_starts c = map launch [0..<10] \<and> phase_no b = 19"
      using \<open>phase_no b = 19\<close> by simp
  qed (auto simp: publish_inv_def noted_def)
  then show ?thesis by (simp add: std_with_work_step_def std_with_work_start_def)
qed

text \<open>The statistic over the arrival times, one rounding per floating-point operation.\<close>

definition arrival_cv :: "(real \<Rightarrow> real) \<Rightarrow> int list \<Rightarrow> real" where
  "arrival_cv rnd durations =
     (let arrival_ns = map (\<lambda>time. rnd (real_of_int time)) durations;
          mean = rnd (foldl (\<lambda>sum time. rnd (sum + time)) 0 arrival_ns / rnd (real (length arrival_ns)));
          variance = rnd (foldl (\<lambda>variance time.
              rnd (variance + rnd (rnd (time - mean) * rnd (time - mean)))) 0 arrival_ns
            / rnd (real (length arrival_ns)))
      in if 0 < mean then rnd (rnd (sqrt variance) / mean) else 0)"

text \<open>
  The third copy of the fairness statistic: on times that are not negative, the formula in
  StdBarrier\_WithWork is the one of the contention harness.
\<close>

theorem arrival_cv_agrees:
  "arrival_cv rnd64 (map (\<lambda>w. int (unat w)) durations) = harness_cv rnd64 (length durations) durations"
  by (simp add: arrival_cv_def harness_cv_eq mean_of_def variance_of_def to_double_def Let_def
      foldl_map comp_def)

section \<open>StdBarrier\_WithCompletion and StdBarrier\_HighFrequency\<close>

definition std_phases_step :: "nat \<Rightarrow> nat \<Rightarrow> (crew_pc \<times> std_pc option, std_barrier \<times> unit) stepper" where
  "std_phases_step num_phases num_threads =
     team_step std_step Std_Arrive num_threads num_phases (work_script num_phases)"

definition std_phases_start :: "nat \<Rightarrow> (crew_pc \<times> std_pc option, std_barrier \<times> unit) conf" where
  "std_phases_start num_threads = team_start num_threads (std_barrier_ctor num_threads) ()"

definition with_completion_step :: "nat \<Rightarrow> (crew_pc \<times> std_pc option, std_barrier \<times> unit) stepper" where
  "with_completion_step = std_phases_step 10"

definition high_frequency_step :: "nat \<Rightarrow> (crew_pc \<times> std_pc option, std_barrier \<times> unit) stepper" where
  "high_frequency_step = std_phases_step 1000"

lemma std_phases_finish:
  "finishes (std_phases_step p (Suc n)) (std_phases_start (Suc n))
    (\<lambda>(ts, (b, c)). ts = team_end (Suc n) \<and> phase_no b = p \<and> completions b = p \<and> arrivals b = 0)
    (Suc n * (p + 15 * p + 4) + 3)"
  unfolding std_phases_step_def std_phases_start_def
proof (rule std_bar.team_computes [where Q = "\<lambda>_ _. True" and limit = "n + p + 3"])
  fix b :: std_barrier and c :: unit
  assume "std_inv (Suc n) (map snd (team_end (Suc n))) b" "phase_no b = p"
  moreover have "tsum (arr (std_view b)) (map snd (team_end (Suc n))) = 0"
    by (auto simp: tsum_eq_0_iff team_end_def)
  ultimately show "case (team_end (Suc n), (b, c)) of (ts, (b, c)) \<Rightarrow>
      ts = team_end (Suc n) \<and> phase_no b = p \<and> completions b = p \<and> arrivals b = 0"
    by (simp add: std_inv_def)
qed (simp_all add: acts_before_work)

text \<open>
  StdBarrier\_WithCompletion: every run of an iteration ends with the completion function run
  exactly once per phase, 10 times, which is the counter the benchmark reports.
\<close>

theorem completion_count:
  "finishes (with_completion_step (Suc n)) (std_phases_start (Suc n))
    (\<lambda>(ts, (b, c)). ts = team_end (Suc n) \<and> completions b = 10) (Suc n * 164 + 3)"
  unfolding finishes_def
  using std_phases_finish [of 10 n, unfolded finishes_def] unfolding with_completion_step_def by fastforce

lemma high_frequency_finishes:
  "finishes (high_frequency_step (Suc n)) (std_phases_start (Suc n))
    (\<lambda>(ts, (b, c)). ts = team_end (Suc n) \<and> phase_no b = 1000 \<and> completions b = 1000 \<and> arrivals b = 0)
    (Suc n * 16004 + 3)"
  using std_phases_finish [of 1000 n] by (simp add: high_frequency_step_def)

section \<open>StdBarrier\_ArrivalPattern\<close>

text \<open>Each of 50 phases: work, the barrier, and a recording.\<close>

definition pattern_script :: "nat \<Rightarrow> nat \<Rightarrow> nat \<Rightarrow> (variance_tracker \<Rightarrow> variance_tracker) list" where
  "pattern_script num_phases thread_id d =
     (if 0 < d then [record_operation thread_id] else []) @ (if d < num_phases then [busy] else [])"

definition arrival_pattern_step :: "nat \<Rightarrow> (crew_pc \<times> std_pc option, std_barrier \<times> variance_tracker) stepper" where
  "arrival_pattern_step num_threads = team_step std_step Std_Arrive num_threads 50 (pattern_script 50)"

definition arrival_pattern_start :: "nat \<Rightarrow> (crew_pc \<times> std_pc option, std_barrier \<times> variance_tracker) conf" where
  "arrival_pattern_start num_threads =
     team_start num_threads (std_barrier_ctor num_threads) (variance_tracker_ctor num_threads)"

lemma acts_before_pattern:
  "d \<le> 51 \<Longrightarrow> acts_before (pattern_script 50) tid d = (if d = 51 then 100 else 2 * d - 1)"
  by (induction d) (auto simp: acts_before_Suc pattern_script_def)

definition pattern_inv :: "nat \<Rightarrow> (nat \<Rightarrow> nat) \<Rightarrow> variance_tracker \<Rightarrow> bool" where
  "pattern_inv n P c \<longleftrightarrow> length (thread_counts c) = n
     \<and> (\<forall>tid < n. thread_counts c ! tid = of_nat (P tid div 2))"

lemma pattern_keeps:
  assumes inv: "pattern_inv n P c" and "tid < n" "d \<le> 50"
    and j: "j < length (pattern_script 50 tid d)" and p: "P tid = acts_before (pattern_script 50) tid d + j"
  shows "pattern_inv n (P(tid := Suc (P tid))) ((pattern_script 50 tid d ! j) c)"
proof (cases "0 < d \<and> j = 0")
  case True
  then have "(pattern_script 50 tid d ! j) c = record_operation tid c" by (simp add: pattern_script_def)
  moreover have "P tid = Suc (2 * (d - 1))" using True p \<open>d \<le> 50\<close> by (auto simp: acts_before_pattern)
  moreover have "thread_counts (record_operation tid c) ! m
      = (if m = tid then thread_counts c ! m + 1 else thread_counts c ! m)" for m
    using inv \<open>tid < n\<close> by (simp add: pattern_inv_def record_operation_same)
  ultimately show ?thesis using inv by (auto simp: pattern_inv_def)
next
  case False
  then have "(pattern_script 50 tid d ! j) c = c"
    using j by (auto simp: pattern_script_def busy_def nth_append split: if_splits)
  moreover have "even (P tid)"
    using False j p \<open>d \<le> 50\<close> by (auto simp: acts_before_pattern pattern_script_def split: if_splits)
  ultimately show ?thesis using inv by (auto simp: pattern_inv_def)
qed

text \<open>
  StdBarrier\_ArrivalPattern: every run of an iteration ends with every thread's counter at
  50, whatever the arrival pattern was, so the reported \<open>sync_fairness\<close> is exactly 0 in every run
  and measures nothing.
\<close>

theorem sync_fairness_zero:
  assumes "n \<le> 2 ^ 40"
  shows "finishes (arrival_pattern_step (Suc n)) (arrival_pattern_start (Suc n))
    (\<lambda>(ts, (b, c)). ts = team_end (Suc n) \<and> thread_counts c = replicate (Suc n) 50
      \<and> coefficient_of_variation c = 0)
    (Suc n * 854 + 3)"
proof -
  have "finishes (team_step std_step Std_Arrive (Suc n) 50 (pattern_script 50))
    (team_start (Suc n) (std_barrier_ctor (Suc n)) (variance_tracker_ctor (Suc n)))
    (\<lambda>(ts, (b, c)). ts = team_end (Suc n) \<and> thread_counts c = replicate (Suc n) 50
      \<and> coefficient_of_variation c = 0)
    (Suc n * (100 + 15 * 50 + 4) + 3)"
  proof (rule std_bar.team_computes [where Q = "pattern_inv (Suc n)" and limit = "n + 53"])
    fix P c tid d j
    assume "pattern_inv (Suc n) P c" "tid < Suc n" "d \<le> 50" "j < length (pattern_script 50 tid d)"
      "P tid = acts_before (pattern_script 50) tid d + j"
    then show "pattern_inv (Suc n) (P(tid := Suc (P tid))) ((pattern_script 50 tid d ! j) c)"
      by (rule pattern_keeps)
  next
    fix b :: std_barrier and c
    assume "pattern_inv (Suc n) (\<lambda>m. if m < Suc n then acts_before (pattern_script 50) m (Suc 50) else 0) c"
    then have "thread_counts c = replicate (Suc n) 50"
      by (intro nth_equalityI) (auto simp: pattern_inv_def acts_before_pattern simp del: replicate_Suc)
    moreover from this have "coefficient_of_variation c = 0"
      using binary64.equal_counts_cv [of "Suc n" 50] assms
      by (simp add: coefficient_of_variation_def get_counts_eq del: replicate_Suc)
    ultimately show "case (team_end (Suc n), (b, c)) of (ts, (b, c)) \<Rightarrow> ts = team_end (Suc n)
      \<and> thread_counts c = replicate (Suc n) 50 \<and> coefficient_of_variation c = 0" by simp
  qed (auto simp: pattern_inv_def variance_tracker_ctor_def acts_before_pattern simp del: replicate_Suc)
  then show ?thesis by (simp add: arrival_pattern_step_def arrival_pattern_start_def)
qed

theorem sync_fairness_zero_witness:
  "finishes (arrival_pattern_step 2) (arrival_pattern_start 2)
    (\<lambda>(ts, (b, c)). ts = team_end 2 \<and> thread_counts c = replicate 2 50
      \<and> coefficient_of_variation c = 0) 1711"
  using sync_fairness_zero [of 1] by (simp add: numeral_2_eq_2)

end
