(* ===== verification/Signed_Int.thy ===== *)
theory Signed_Int
  imports Prelude
begin

text \<open>
  The type \<open>int\<close> of the code: 32 bits, two's complement.  A signed operation whose exact result
  does not fit is undefined in C++; it has no result here (\<open>None\<close>), and a computation that
  meets one has none either.
\<close>

unbundle bit_operations_syntax

definition fits :: "int \<Rightarrow> bool" where
  "fits x \<longleftrightarrow> - (2 ^ 31) \<le> x \<and> x < 2 ^ 31"

definition add_int :: "int \<Rightarrow> int \<Rightarrow> int option" where
  "add_int x y = (if fits (x + y) then Some (x + y) else None)"

definition mul_int :: "int \<Rightarrow> int \<Rightarrow> int option" where
  "mul_int x y = (if fits (x * y) then Some (x * y) else None)"

lemma fits_between: "0 \<le> x \<Longrightarrow> x \<le> 2147483647 \<Longrightarrow> fits x"
  by (simp add: fits_def)

lemma add_int_fits [simp]: "fits (x + y) \<Longrightarrow> add_int x y = Some (x + y)"
  by (simp add: add_int_def)

lemma add_int_overflow [simp]: "\<not> fits (x + y) \<Longrightarrow> add_int x y = None"
  by (simp add: add_int_def)

lemma mul_int_fits [simp]: "fits (x * y) \<Longrightarrow> mul_int x y = Some (x * y)"
  by (simp add: mul_int_def)

text \<open>A word below the sign bit reads as the number it was made from.\<close>

lemma sint_of_nat_small:
  assumes "k < 2 ^ 31"
  shows "sint (word_of_nat k :: 32 word) = int k"
proof -
  have "word_of_nat k = (word_of_int (int k) :: 32 word)" by simp
  then have "sint (word_of_nat k :: 32 word) = signed_take_bit 31 (int k)" by (simp only: sint_sbintrunc') simp
  then show ?thesis using assms by (simp add: signed_take_bit_int_eq_self)
qed

lemma sint_small: "unat (x :: 32 word) < 2 ^ 31 \<Longrightarrow> sint x = int (unat x)"
  using sint_of_nat_small [of "unat x"] by simp

text \<open>Partial sums: \<open>total += x\<close> for each value in turn, which may itself be undefined.\<close>

fun add_to :: "int option \<Rightarrow> int option \<Rightarrow> int option" where
  "add_to (Some t) (Some x) = add_int t x"
| "add_to _ _ = None"

lemma add_to_None [simp]: "add_to None x = None" "add_to x None = None"
  by (cases x; simp)+

definition sum_results :: "int option list \<Rightarrow> int option" where
  "sum_results xs = foldl add_to (Some 0) xs"

lemma foldl_add_to_None [simp]: "foldl add_to None xs = None"
  by (induction xs) simp_all

lemma sum_results_undefined: "None \<in> set xs \<Longrightarrow> sum_results xs = None"
proof -
  assume "None \<in> set xs"
  then have "foldl add_to a xs = None" for a by (induction xs arbitrary: a) auto
  then show ?thesis by (simp add: sum_results_def)
qed

text \<open>Sums of values that are not negative are defined exactly when the total fits.\<close>

lemma foldl_add_to_nonneg:
  assumes "list_all (\<lambda>x. 0 \<le> x) xs" "0 \<le> a" "fits a"
  shows "foldl add_to (Some a) (map Some xs)
    = (if fits (a + sum_list xs) then Some (a + sum_list xs) else None)"
  using assms
proof (induction xs arbitrary: a)
  case Nil
  then show ?case by simp
next
  case (Cons x xs)
  have "0 \<le> sum_list xs" using Cons.prems by (intro sum_list_nonneg) (simp add: list_all_iff)
  then have "\<not> fits (a + x) \<Longrightarrow> \<not> fits (a + (x + sum_list xs))"
    using Cons.prems by (auto simp: fits_def)
  then show ?case using Cons by (cases "fits (a + x)") (simp_all add: add.assoc)
qed

lemma sum_results_nonneg:
  "list_all (\<lambda>x. 0 \<le> x) xs
    \<Longrightarrow> sum_results (map Some xs) = (if fits (sum_list xs) then Some (sum_list xs) else None)"
  unfolding sum_results_def using foldl_add_to_nonneg [of xs 0] by (simp add: fits_def)

section \<open>Busy loops\<close>

text \<open>
  \<open>simulate_work\<close> of src/bench\_barrier.cpp spins until the clock has advanced by \<open>duration\<close>
  (here in clock ticks), and adds 0 + 1 + ... + 99 to a dummy in each round.  \<open>clock k\<close> is the
  \<open>k\<close>th reading of the clock.  The function has no value if the loop never ends, \<open>Some None\<close> if
  the dummy overflows.
\<close>

definition dummy_round :: "int \<Rightarrow> int option" where
  "dummy_round dummy = foldl (\<lambda>d i. add_to d (Some (int i))) (Some dummy) [0..<100]"

partial_function (option) work_loop :: "(nat \<Rightarrow> int) \<Rightarrow> int \<Rightarrow> nat \<Rightarrow> int \<Rightarrow> int option option" where
  "work_loop clock duration k dummy =
     (if clock (Suc k) - clock 0 < duration
      then (case dummy_round dummy of
              None \<Rightarrow> Some None
            | Some dummy' \<Rightarrow> work_loop clock duration (Suc k) dummy')
      else Some (Some dummy))"

definition simulate_work :: "(nat \<Rightarrow> int) \<Rightarrow> int \<Rightarrow> int option option" where
  "simulate_work clock duration = work_loop clock duration 0 0"

lemma dummy_round_eq:
  assumes "0 \<le> d" "fits d"
  shows "dummy_round d = add_int d 4950"
proof -
  have "sum_list (map int [0..<100]) = 4950" by (simp add: upt_rec)
  moreover have "list_all (\<lambda>x. 0 \<le> x) (map int [0..<100])" by (simp add: list_all_iff)
  moreover have "dummy_round d = foldl add_to (Some d) (map Some (map int [0..<100]))"
    unfolding dummy_round_def foldl_map ..
  ultimately show ?thesis
    using foldl_add_to_nonneg [of "map int [0..<100]" d] assms by (simp only: add_int_def)
qed

text \<open>After \<open>k\<close> rounds of the loop, with \<open>m\<close> still to come.\<close>

lemma work_loop_eq:
  assumes "\<And>i. i < m \<Longrightarrow> clock (Suc (k + i)) - clock 0 < duration"
    and "\<not> clock (Suc (k + m)) - clock 0 < duration" and "fits (4950 * int k)"
  shows "work_loop clock duration k (4950 * int k)
    = Some (if fits (4950 * int (k + m)) then Some (4950 * int (k + m)) else None)"
  using assms
proof (induction m arbitrary: k)
  case 0
  then show ?case by (subst work_loop.simps) simp
next
  case (Suc m)
  have k: "clock (Suc k) - clock 0 < duration" using Suc.prems(1) [of 0] by simp
  have round: "dummy_round (4950 * int k) = add_int (4950 * int k) 4950"
    using Suc.prems(3) by (intro dummy_round_eq) simp_all
  have next_k: "4950 * int k + 4950 = 4950 * int (Suc k)" by simp
  show ?case
  proof (cases "fits (4950 * int (Suc k))")
    case True
    have "work_loop clock duration k (4950 * int k) = work_loop clock duration (Suc k) (4950 * int (Suc k))"
      using k round True unfolding next_k [symmetric] by (subst work_loop.simps) simp
    also have "\<dots> = Some (if fits (4950 * int (Suc k + m)) then Some (4950 * int (Suc k + m)) else None)"
      using Suc.prems(1) [of "Suc i" for i] Suc.prems(2) True by (intro Suc.IH) simp_all
    finally show ?thesis by simp
  next
    case False
    then have "work_loop clock duration k (4950 * int k) = Some None"
      using k round unfolding next_k [symmetric] by (subst work_loop.simps) simp
    moreover have "\<not> fits (4950 * int (k + Suc m))" using False by (simp add: fits_def)
    ultimately show ?thesis by simp
  qed
qed

text \<open>
  The busy loop of the barrier benchmarks ends as soon as the clock has advanced by the
  duration, after \<open>m\<close> rounds if reading \<open>m + 1\<close> is the first to show it, and its signed dummy is
  free of overflow exactly up to 433835 rounds.
\<close>

theorem simulate_work_ends:
  assumes "\<And>i. i < m \<Longrightarrow> clock (Suc i) - clock 0 < duration"
    and "clock (Suc m) - clock 0 \<ge> duration"
  shows "simulate_work clock duration
    = Some (if m \<le> 433835 then Some (4950 * int m) else None)"
  using work_loop_eq [of m clock 0 duration] assms by (auto simp: simulate_work_def fits_def)

theorem simulate_work_ends_witness:
  "simulate_work (\<lambda>k. 40000 * int k) 100000 = Some (Some 9900)"
proof -
  have "i = 0 \<or> i = 1" if "i < 2" for i :: nat using that by auto
  then show ?thesis
    using simulate_work_ends [of 2 "\<lambda>k. 40000 * int k" 100000] by force
qed

end
