(* ===== verification/Tasks.thy ===== *)
theory Tasks
  imports Signed_Int
begin

text \<open>
  The workloads that the task benchmarks run: \<open>cpu_intensive_task\<close> and \<open>mixed_task\<close> of
  src/bench\_thread\_pool.cpp, \<open>cpu_work\<close> and \<open>risky_work\<close> of src/bench\_async\_future.cpp.  The two
  loops are copies of one another; both accumulate squares in an \<open>int\<close>, which overflows in the
  iteration with \<open>i = 1861\<close>.  A call with no value (\<open>None\<close>) is one whose behaviour is undefined.
\<close>

section \<open>The loops\<close>

definition task_body :: "int \<Rightarrow> int \<Rightarrow> int option" where
  "task_body i result =
     Option.bind (mul_int i i) (\<lambda>square.
     Option.bind (add_int result square) (\<lambda>result.
     Some (if i mod 1000 = 0 then result XOR drop_bit 4 i else result)))"

function task_loop :: "int \<Rightarrow> int \<Rightarrow> int \<Rightarrow> int option" where
  "task_loop n i result =
     (if i < n then Option.bind (task_body i result) (task_loop n (i + 1)) else Some result)"
  by auto
termination by (relation "measure (\<lambda>(n, i, result). nat (n - i))") auto

declare task_loop.simps [simp del]

definition cpu_intensive_task :: "int \<Rightarrow> int option" where
  "cpu_intensive_task n = task_loop n 0 0"

text \<open>\<open>io_simulation_task\<close> sleeps and returns nothing.\<close>

definition mixed_task :: "int \<Rightarrow> int option" where
  "mixed_task cpu_work = cpu_intensive_task cpu_work"

definition cpu_work :: "int \<Rightarrow> int option" where
  "cpu_work iterations = task_loop iterations 0 0"

text \<open>\<open>risky_work\<close> throws (\<open>Inl\<close>) or returns (\<open>Inr\<close>) the result of the loop.\<close>

definition risky_work :: "int \<Rightarrow> bool \<Rightarrow> (string + int) option" where
  "risky_work value should_throw =
     (if should_throw \<and> value mod 10 = 0 then Some (Inl ''Simulated error'')
      else Option.bind (mul_int value 100) (\<lambda>n. map_option Inr (cpu_work n)))"

section \<open>Their values\<close>

definition squares :: "nat \<Rightarrow> int" where
  "squares n = (\<Sum>k<n. int k * int k)"

lemma squares_Suc [simp]: "squares (Suc n) = squares n + int n * int n"
  by (simp add: squares_def)

lemma squares_0 [simp]: "squares 0 = 0"
  by (simp add: squares_def)

lemma squares_closed: "6 * squares n = int n * (int n - 1) * (2 * int n - 1)"
  by (induction n) (simp_all add: algebra_simps)

lemma squares_mono: "m \<le> n \<Longrightarrow> squares m \<le> squares n"
  by (induction rule: dec_induct) (simp_all add: order_trans)

text \<open>A stretch of the loop between two multiples of 1000 adds squares.\<close>

lemma task_stretch:
  assumes "i + k \<le> n" "\<And>j. j < k \<Longrightarrow> int (i + j) mod 1000 \<noteq> 0" "0 \<le> r"
    and "fits (r + (squares (i + k) - squares i))" "i + k \<le> 40000"
  shows "task_loop (int n) (int i) r = task_loop (int n) (int (i + k)) (r + (squares (i + k) - squares i))"
  using assms
proof (induction k)
  case 0
  then show ?case by simp
next
  case (Suc k)
  let ?r = "r + (squares (i + k) - squares i)" and ?m = "int (i + k)"
  have sq: "0 \<le> squares (i + k) - squares i" using squares_mono [of i "i + k"] by simp
  have "?m * ?m \<le> 40000 * 40000" using Suc.prems(5) by (intro mult_mono) simp_all
  then have m: "?m * ?m \<le> 1600000000" by simp
  have r: "?r + ?m * ?m = r + (squares (i + Suc k) - squares i)" by simp
  have "fits ?r" using Suc.prems(3,4) sq zero_le_square [of ?m] unfolding r [symmetric] fits_def by linarith
  then have "task_loop (int n) (int i) r = task_loop (int n) ?m ?r"
    using Suc by simp
  also have "\<dots> = Option.bind (task_body ?m ?r) (task_loop (int n) (?m + 1))"
    using Suc.prems(1) by (subst task_loop.simps) simp
  also have "mul_int ?m ?m = Some (?m * ?m)"
  proof (rule mul_int_fits)
    show "fits (?m * ?m)" by (rule fits_between) (use m zero_le_square [of ?m] in linarith)+
  qed
  then have "task_body ?m ?r = Some (?r + ?m * ?m)"
    using Suc.prems(2) [of k] Suc.prems(4) unfolding r [symmetric] by (simp add: task_body_def)
  finally show ?case unfolding r by (simp add: add.commute)
qed

text \<open>The first iteration, and the one at 1000, where the exclusive or changes the sum.\<close>

lemma task_first: "0 < n \<Longrightarrow> task_loop (int n) 0 0 = task_loop (int n) 1 0"
  by (subst task_loop.simps) (simp add: task_body_def add_int_def mul_int_def fits_def)

lemma squares_1000: "squares 1000 = 332833500"
  using squares_closed [of 1000] by simp

lemma task_1000: "1000 < n \<Longrightarrow> task_loop (int n) 1000 (squares 1000) = task_loop (int n) 1001 (squares 1001 + 6)"
proof -
  have "task_body 1000 (squares 1000) = Some 333833506"
    by (simp add: task_body_def squares_1000 add_int_def mul_int_def fits_def)
  moreover have "squares 1001 + 6 = 333833506"
    using squares_closed [of 1001] by simp
  ultimately show "1000 < n \<Longrightarrow> task_loop (int n) 1000 (squares 1000) = task_loop (int n) 1001 (squares 1001 + 6)"
    by (subst task_loop.simps) simp
qed

lemma task_upto_1000:
  assumes "0 < m" "m \<le> n" "m \<le> 1000"
  shows "task_loop (int n) 0 0 = task_loop (int n) (int m) (squares m)"
proof -
  have "squares m \<le> 332833500" "0 \<le> squares m"
    using squares_mono [OF assms(3)] squares_mono [of 0 m] squares_1000 by simp_all
  then show ?thesis
    using task_stretch [of 1 "m - 1" n 0] assms task_first [of n] by (simp add: fits_def)
qed

lemma squares_1861: "squares 1861 = 2146682110"
  using squares_closed [of 1861] by simp

lemma task_beyond_1000:
  assumes "1000 < m" "m \<le> n" "m \<le> 1861"
  shows "task_loop (int n) 0 0 = task_loop (int n) (int m) (squares m + 6)"
proof -
  have "squares m \<le> squares 1861" "0 \<le> squares m"
    using squares_mono [OF assms(3)] squares_mono [of 0 m] by simp_all
  then have fits: "fits (squares m + 6)" by (simp add: fits_def squares_1861)
  have no: "int (1001 + j) mod 1000 \<noteq> 0" if "j < m - 1001" for j
  proof -
    have "int (1001 + j) mod 1000 = (int j + 1) mod 1000"
      using mod_add_self2 [of "int j + 1" 1000] by (simp add: add.commute)
    also have "\<dots> = int j + 1" using that assms by (intro mod_pos_pos_trivial) auto
    finally show ?thesis by simp
  qed
  have "0 \<le> squares 1001" using squares_mono [of 0 1001] by simp
  then have "task_loop (int n) (int 1001) (squares 1001 + 6) = task_loop (int n) (int m) (squares m + 6)"
    using task_stretch [of 1001 "m - 1001" n "squares 1001 + 6"] assms fits no by (simp add: add.commute)
  then show ?thesis using task_upto_1000 [of 1000 n] task_1000 [of n] assms by simp
qed

definition loop_value :: "nat \<Rightarrow> int option" where
  "loop_value n = (if n \<le> 1000 then Some (squares n) else if n \<le> 1861 then Some (squares n + 6) else None)"

lemma task_loop_value: "task_loop (int n) 0 0 = loop_value n"
proof -
  have stop: "task_loop (int n) (int n) r = Some r" for r by (subst task_loop.simps) simp
  consider "n = 0" | "0 < n" "n \<le> 1000" | "1000 < n" "n \<le> 1861" | "1861 < n" by linarith
  then show ?thesis
  proof cases
    case 1
    then show ?thesis using stop [of 0] by (simp add: loop_value_def)
  next
    case 2
    then show ?thesis using task_upto_1000 [of n n] stop by (simp add: loop_value_def)
  next
    case 3
    then show ?thesis using task_beyond_1000 [of n n] stop by (simp add: loop_value_def)
  next
    case 4
    have "task_body 1861 (squares 1861 + 6) = None"
      by (simp add: task_body_def squares_1861 add_int_def mul_int_def fits_def)
    then have "task_loop (int n) 1861 (squares 1861 + 6) = None"
      using 4 by (subst task_loop.simps) simp
    then show ?thesis using task_beyond_1000 [of 1861 n] 4 by (simp add: loop_value_def)
  qed
qed

text \<open>
  C33. The CPU workload is defined exactly up to 1861 iterations.  It then returns the sum of the
  squares below \<open>n\<close>, plus 6 once the exclusive or at \<open>i = 1000\<close> has been taken; for a larger
  argument the signed sum overflows.  \<open>cpu_work\<close> is the same function.
\<close>

theorem cpu_task_value:
  "cpu_intensive_task (int n) = cpu_work (int n)
   \<and> cpu_work (int n) = (if n \<le> 1861
       then Some (int n * (int n - 1) * (2 * int n - 1) div 6 + (if n \<le> 1000 then 0 else 6)) else None)"
proof -
  have "int n * (int n - 1) * (2 * int n - 1) div 6 = squares n"
    unfolding squares_closed [symmetric] by simp
  then show ?thesis
    by (simp add: cpu_intensive_task_def cpu_work_def task_loop_value loop_value_def)
qed

lemma cpu_task_undefined: "1861 < n \<Longrightarrow> cpu_intensive_task n = None \<and> cpu_work n = None"
  using task_loop_value [of "nat n"] by (simp add: cpu_intensive_task_def cpu_work_def loop_value_def)

lemma cpu_task_nonneg: "cpu_intensive_task n = Some r \<Longrightarrow> 0 \<le> r"
proof (cases "n \<le> 0")
  case True
  moreover assume "cpu_intensive_task n = Some r"
  ultimately show ?thesis by (simp add: cpu_intensive_task_def task_loop.simps [of n 0])
next
  case False
  assume "cpu_intensive_task n = Some r"
  with False show ?thesis
    using task_loop_value [of "nat n"] squares_mono [of 0 "nat n"]
    by (auto simp: cpu_intensive_task_def loop_value_def split: if_splits)
qed

text \<open>
  The error branch of \<open>risky_work\<close>: it throws exactly when asked to on a multiple of 10, before
  any computation; otherwise its loop of \<open>100 * value\<close> iterations is defined exactly for values
  below 19.
\<close>

theorem risky_work_outcome:
  "risky_work (int v) should_throw =
     (if should_throw \<and> 10 dvd v then Some (Inl ''Simulated error'')
      else if v < 19 then map_option Inr (cpu_work (100 * int v)) else None)"
proof -
  have dvd: "int v mod 10 = 0 \<longleftrightarrow> 10 dvd v"
    by (metis dvd_eq_mod_eq_0 int_dvd_int_iff of_nat_numeral)
  have small: "mul_int (int v) 100 = Some (100 * int v)" if "v < 19"
    using that by (simp add: mul_int_def fits_def mult.commute)
  have large: "Option.bind (mul_int (int v) 100) (\<lambda>n. map_option Inr (cpu_work n)) = None" if "\<not> v < 19"
    using that cpu_task_undefined [of "int v * 100"] by (cases "fits (int v * 100)") (auto simp: mul_int_def)
  show ?thesis using dvd small large by (auto simp: risky_work_def)
qed

end
