(* ===== verification/Thread_Pool.thy ===== *)
theory Thread_Pool
  imports Clients
begin

text \<open>
  The thread pool of include/thread\_pool.hpp as a shared object: a FIFO of tasks and a stop flag
  behind a mutex and a condition variable.  A task is any value \<open>'t\<close>, which stands for the
  packaged task, and \<open>run t\<close> is the value that its function returns; \<open>task_results\<close> is the shared state of the
  futures, which a worker sets when it runs the task, and \<open>get\<close> waits for it and returns it.  The worker loop is the
  operation \<open>Work\<close>, the destructor \<open>Destroy\<close>, and \<open>Get\<close> is \<open>get\<close> on the future of a task.  Waiting
  releases the mutex and registers the thread in one step; a thread is woken by being removed
  from the waiters, or at any time if \<open>spurious\<close> wake-ups are allowed.  \<open>ready\<close>, the tasks that have been run, and the two logs
  are history variables, which no operation reads.
\<close>

section \<open>The state\<close>

record ('t, 'v) pool =
  pool_mtx :: bool
  tasks :: "'t list"
  pool_waiters :: "nat list"
  stop_flag :: bool
  workers :: "nat list"
  exited :: "nat list"
  ready :: "'t list"
  task_results :: "'t \<rightharpoonup> 'v"
  log_submitted :: "'t list"
  log_taken :: "'t list"

text \<open>The constructor starts at least one worker; \<open>ids\<close> are the threads that run them.\<close>

definition pool_size :: "nat \<Rightarrow> nat" where
  "pool_size num_threads = (if num_threads = 0 then 1 else num_threads)"

definition pool_ctor :: "nat list \<Rightarrow> ('t, 'v) pool" where
  "pool_ctor ids = \<lparr>pool_mtx = False, tasks = [], pool_waiters = [], stop_flag = False, workers = ids,
     exited = [], ready = [], task_results = Map.empty, log_submitted = [], log_taken = []\<rparr>"

section \<open>The operations\<close>

datatype 't pool_pc =
    Sub_Lock 't | Sub_Test 't | Sub_Throw | Sub_Emplace 't | Sub_Unlock 't | Sub_Notify 't
  | Get_Wait 't
  | Work_Lock | Work_Stop1 | Work_Empty1 | Work_Wait | Work_Blocked | Work_Relock
  | Work_Stop2 | Work_Empty2 | Work_Take | Work_Unlock 't | Work_Run 't | Work_Exit
  | Des_Stop | Des_Notify | Des_Join nat

datatype ('t, 'v) pool_ret = Future 't | Threw string | Got 'v | Returned | Destroyed

datatype 't pool_op = Submit 't | Get 't | Work | Destroy

fun pool_entry :: "'t pool_op \<Rightarrow> 't pool_pc" where
  "pool_entry (Submit t) = Sub_Lock t"
| "pool_entry (Get t) = Get_Wait t"
| "pool_entry Work = Work_Lock"
| "pool_entry Destroy = Des_Stop"

text \<open>
  In the order of the source: \<open>submit\<close>, with the exception thrown once the pool is stopped; \<open>get\<close>;
  the worker loop, with the predicate of the wait (\<open>Work_Stop1\<close>, \<open>Work_Empty1\<close>) and the exit test;
  the destructor, which sets the flag and notifies without taking the mutex.
\<close>

fun pool_step :: "('t \<Rightarrow> 'v) \<Rightarrow> bool \<Rightarrow> nat \<Rightarrow> 't pool_pc \<Rightarrow> ('t, 'v) pool \<Rightarrow> (('t pool_pc + ('t, 'v) pool_ret) \<times> ('t, 'v) pool) list" where
  "pool_step run spurious i (Sub_Lock t) p = (if pool_mtx p then [] else [(Inl (Sub_Test t), p\<lparr>pool_mtx := True\<rparr>)])"
| "pool_step run spurious i (Sub_Test t) p = [(Inl (if stop_flag p then Sub_Throw else Sub_Emplace t), p)]"
| "pool_step run spurious i Sub_Throw p = [(Inr (Threw ''submit on stopped thread_pool''), p\<lparr>pool_mtx := False\<rparr>)]"
| "pool_step run spurious i (Sub_Emplace t) p =
     [(Inl (Sub_Unlock t), p\<lparr>tasks := tasks p @ [t], log_submitted := log_submitted p @ [t]\<rparr>)]"
| "pool_step run spurious i (Sub_Unlock t) p = [(Inl (Sub_Notify t), p\<lparr>pool_mtx := False\<rparr>)]"
| "pool_step run spurious i (Sub_Notify t) p =
     map (\<lambda>ws. (Inr (Future t), p\<lparr>pool_waiters := ws\<rparr>)) (notify_one (pool_waiters p))"
| "pool_step run spurious i (Get_Wait t) p =
     (case task_results p t of Some v \<Rightarrow> [(Inr (Got v), p)] | None \<Rightarrow> [])"
| "pool_step run spurious i Work_Lock p = (if pool_mtx p then [] else [(Inl Work_Stop1, p\<lparr>pool_mtx := True\<rparr>)])"
| "pool_step run spurious i Work_Stop1 p = [(Inl (if stop_flag p then Work_Stop2 else Work_Empty1), p)]"
| "pool_step run spurious i Work_Empty1 p = [(Inl (if tasks p \<noteq> [] then Work_Stop2 else Work_Wait), p)]"
| "pool_step run spurious i Work_Wait p =
     [(Inl Work_Blocked, p\<lparr>pool_mtx := False, pool_waiters := pool_waiters p @ [i]\<rparr>)]"
| "pool_step run spurious i Work_Blocked p =
     (if i \<in> set (pool_waiters p)
      then if spurious then [(Inl Work_Relock, p\<lparr>pool_waiters := removeAll i (pool_waiters p)\<rparr>)] else []
      else [(Inl Work_Relock, p)])"
| "pool_step run spurious i Work_Relock p = (if pool_mtx p then [] else [(Inl Work_Stop1, p\<lparr>pool_mtx := True\<rparr>)])"
| "pool_step run spurious i Work_Stop2 p = [(Inl (if stop_flag p then Work_Empty2 else Work_Take), p)]"
| "pool_step run spurious i Work_Empty2 p = [(Inl (if tasks p = [] then Work_Exit else Work_Take), p)]"
| "pool_step run spurious i Work_Take p =
     [(Inl (Work_Unlock (hd (tasks p))), p\<lparr>tasks := tl (tasks p), log_taken := log_taken p @ [hd (tasks p)]\<rparr>)]"
| "pool_step run spurious i (Work_Unlock t) p = [(Inl (Work_Run t), p\<lparr>pool_mtx := False\<rparr>)]"
| "pool_step run spurious i (Work_Run t) p = 
     [(Inl Work_Lock, p\<lparr>ready := ready p @ [t], task_results := (task_results p)(t \<mapsto> run t)\<rparr>)]"
| "pool_step run spurious i Work_Exit p = [(Inr Returned, p\<lparr>pool_mtx := False, exited := exited p @ [i]\<rparr>)]"
| "pool_step run spurious i Des_Stop p = [(Inl Des_Notify, p\<lparr>stop_flag := True\<rparr>)]"
| "pool_step run spurious i Des_Notify p = [(Inl (Des_Join 0), p\<lparr>pool_waiters := []\<rparr>)]"
| "pool_step run spurious i (Des_Join k) p =
     (if k < length (workers p)
      then if workers p ! k \<in> set (exited p) then [(Inl (Des_Join (Suc k)), p)] else []
      else [(Inr Destroyed, p)])"

section \<open>What the program counters hold\<close>

fun holds_pool :: "'t pool_pc \<Rightarrow> nat" where
  "holds_pool (Sub_Lock t) = 0"
| "holds_pool (Sub_Notify t) = 0"
| "holds_pool (Get_Wait t) = 0"
| "holds_pool Work_Lock = 0"
| "holds_pool Work_Blocked = 0"
| "holds_pool Work_Relock = 0"
| "holds_pool (Work_Run t) = 0"
| "holds_pool Des_Stop = 0"
| "holds_pool Des_Notify = 0"
| "holds_pool (Des_Join k) = 0"
| "holds_pool _ = 1"

fun running :: "'t pool_pc \<Rightarrow> 't multiset" where
  "running (Work_Unlock t) = {#t#}"
| "running (Work_Run t) = {#t#}"
| "running _ = {#}"

text \<open>A call that will see the tasks in the queue, or wake a worker for them.\<close>

fun awake :: "('t, 'v) pool \<Rightarrow> nat \<Rightarrow> 't pool_pc \<Rightarrow> bool" where
  "awake p i (Sub_Lock t) = False"
| "awake p i (Sub_Test t) = False"
| "awake p i Sub_Throw = False"
| "awake p i (Sub_Emplace t) = False"
| "awake p i (Get_Wait t) = False"
| "awake p i Work_Wait = False"
| "awake p i Work_Blocked = (i \<notin> set (pool_waiters p))"
| "awake p i Work_Exit = False"
| "awake p i Des_Stop = False"
| "awake p i Des_Notify = False"
| "awake p i (Des_Join k) = False"
| "awake p i _ = True"

fun pool_assert :: "('t, 'v) pool \<Rightarrow> 't pool_pc \<Rightarrow> bool" where
  "pool_assert p Sub_Throw = stop_flag p"
| "pool_assert p Work_Wait = (tasks p = [])"
| "pool_assert p Work_Stop2 = (stop_flag p \<or> tasks p \<noteq> [])"
| "pool_assert p Work_Empty2 = stop_flag p"
| "pool_assert p Work_Take = (tasks p \<noteq> [])"
| "pool_assert p Work_Exit = (stop_flag p \<and> tasks p = [])"
| "pool_assert p Des_Notify = stop_flag p"
| "pool_assert p (Des_Join k) = stop_flag p"
| "pool_assert p _ = True"

text \<open>
  The invariant: one holder of the mutex; the waiters are blocked; while a worker waits and there
  are tasks, some call is awake; tasks leave in the order they came; what has been taken is
  running or done; and the futures hold the results of the tasks that are done.
\<close>

definition pool_inv :: "('t \<Rightarrow> 'v) \<Rightarrow> nat list \<Rightarrow> 't pool_pc option list \<Rightarrow> ('t, 'v) pool \<Rightarrow> bool" where
  "pool_inv run ids qs p \<longleftrightarrow>
     tsum (case_option 0 holds_pool) qs = of_bool (pool_mtx p) \<and>
     distinct (pool_waiters p) \<and>
     (\<forall>w \<in> set (pool_waiters p). w < length qs \<and> qs ! w = Some Work_Blocked) \<and>
     (pool_waiters p \<noteq> [] \<and> tasks p \<noteq> [] \<longrightarrow> (\<exists>i < length qs. \<exists>k. qs ! i = Some k \<and> awake p i k)) \<and>
     log_submitted p = log_taken p @ tasks p \<and>
     tmset (case_option {#} running) qs + mset (ready p) = mset (log_taken p) \<and>
     task_results p = (\<lambda>t. if t \<in> set (ready p) then Some (run t) else None) \<and>
     list_all (case_option True (pool_assert p)) qs \<and>
     workers p = ids"

section \<open>Every step keeps the invariant\<close>

lemma pool_step_frame:
  "(r, p') \<in> set (pool_step run sp i k p) \<Longrightarrow> workers p' = workers p \<and> (stop_flag p \<longrightarrow> stop_flag p')
    \<and> (tasks p' = tasks p \<or> holds_pool k = 1)"
  by (cases k) (auto simp: notify_one_def split: if_splits option.splits)

lemma pool_assert_frame:
  "pool_assert p k \<Longrightarrow> (stop_flag p \<longrightarrow> stop_flag p') \<Longrightarrow> tasks p' = tasks p \<or> holds_pool k = 0
    \<Longrightarrow> pool_assert p' k"
  by (cases k) auto

lemma pool_step_mtx:
  "(r, p') \<in> set (pool_step run sp i k p) \<Longrightarrow> m' + holds_pool k = m + case_option 0 holds_pool (still r)
    \<Longrightarrow> m = of_bool (pool_mtx p) \<Longrightarrow> holds_pool k \<le> m \<Longrightarrow> m' = of_bool (pool_mtx p')"
  by (cases "pool_mtx p"; cases k) (auto simp: notify_one_def split: if_splits option.splits)

lemma pool_step_assert:
  "(Inl k', p') \<in> set (pool_step run sp i k p) \<Longrightarrow> pool_assert p k \<Longrightarrow> pool_assert p' k'"
  by (cases k) (auto simp: notify_one_def split: if_splits option.splits)

lemma pool_step_logs:
  "(r, p') \<in> set (pool_step run sp i k p) \<Longrightarrow> pool_assert p k \<Longrightarrow> log_submitted p = log_taken p @ tasks p
    \<Longrightarrow> log_submitted p' = log_taken p' @ tasks p'"
  by (cases k) (auto simp: notify_one_def split: if_splits option.splits)

lemma pool_step_running:
  "(r, p') \<in> set (pool_step run sp i k p) \<Longrightarrow> m' + running k = m + case_option {#} running (still r)
    \<Longrightarrow> m + mset (ready p) = mset (log_taken p) \<Longrightarrow> m' + mset (ready p') = mset (log_taken p')"
  by (cases k) (auto simp: notify_one_def split: if_splits option.splits)

lemma pool_step_waiters:
  assumes "(r, p') \<in> set (pool_step run sp i k p)" "distinct (pool_waiters p)"
    "i \<in> set (pool_waiters p) \<Longrightarrow> k = Work_Blocked"
  shows "distinct (pool_waiters p') \<and> set (pool_waiters p') \<subseteq> insert i (set (pool_waiters p))
    \<and> (i \<in> set (pool_waiters p') \<longleftrightarrow> r = Inl Work_Blocked)"
  using assms by (cases k) (auto simp: notify_one_def distinct_removeAll split: if_splits option.splits)

lemma pool_step_results:
  "(r, p') \<in> set (pool_step run sp i k p) \<Longrightarrow> task_results p = (\<lambda>t. if t \<in> set (ready p) then Some (run t) else None)
    \<Longrightarrow> task_results p' = (\<lambda>t. if t \<in> set (ready p') then Some (run t) else None)"
  by (cases k) (auto simp: notify_one_def fun_eq_iff split: if_splits option.splits)

text \<open>A step that leaves its thread not awake leaves no task, no waiter, another thread awake, or nothing changed.\<close>

lemma pool_step_awake:
  assumes "(r, p') \<in> set (pool_step run sp i k p)" "pool_assert p k"
    and "\<not> case_option False (awake p' i) (still r)"
  shows "tasks p' = [] \<or> pool_waiters p' = []
    \<or> \<not> awake p i k \<and> pool_waiters p' = pool_waiters p \<and> tasks p' = tasks p
    \<or> k \<noteq> Work_Blocked \<and> (\<exists>w \<in> set (pool_waiters p). w \<notin> set (pool_waiters p'))"
  using assms by (cases k) (auto simp: notify_one_def split: if_splits option.splits)

lemma pool_keeps:
  assumes inv: "pool_inv run ids qs p" and i: "i < length qs" and k: "qs ! i = Some k"
    and st: "(r, p') \<in> set (pool_step run sp i k p)"
  shows "pool_inv run ids (qs[i := still r]) p'"
proof -
  let ?qs = "qs[i := still r]"
  note inv = inv [unfolded pool_inv_def]
  have mtx: "tsum (case_option 0 holds_pool) qs = of_bool (pool_mtx p)" and dist: "distinct (pool_waiters p)"
    and logs: "log_submitted p = log_taken p @ tasks p"
    and run: "tmset (case_option {#} running) qs + mset (ready p) = mset (log_taken p)"
    and held: "task_results p = (\<lambda>t. if t \<in> set (ready p) then Some (run t) else None)"
    and asserts: "list_all (case_option True (pool_assert p)) qs" and ids: "workers p = ids"
    and waiting: "\<And>w. w \<in> set (pool_waiters p) \<Longrightarrow> w < length qs \<and> qs ! w = Some Work_Blocked"
    and wake: "pool_waiters p \<noteq> [] \<Longrightarrow> tasks p \<noteq> [] \<Longrightarrow> \<exists>i < length qs. \<exists>k. qs ! i = Some k \<and> awake p i k"
    using inv by blast+
  have ak: "pool_assert p k" using asserts i k by (auto simp: list_all_length dest!: spec [of _ i])
  have mine: "holds_pool k \<le> of_bool (pool_mtx p)"
    using tsum_member [OF i, of "case_option 0 holds_pool"] k mtx by simp
  note frame = pool_step_frame [OF st]
  have mtx': "tsum (case_option 0 holds_pool) ?qs = of_bool (pool_mtx p')"
    using tsum_update [OF i, of "case_option 0 holds_pool" "still r"] k mtx mine
    by (intro pool_step_mtx [OF st, of _ "of_bool (pool_mtx p)"]) simp_all
  have run': "tmset (case_option {#} running) ?qs + mset (ready p') = mset (log_taken p')"
    using tmset_update [OF i, of "case_option {#} running" "still r"] k run
    by (intro pool_step_running [OF st]) simp_all
  have waiters: "distinct (pool_waiters p') \<and> set (pool_waiters p') \<subseteq> insert i (set (pool_waiters p))
      \<and> (i \<in> set (pool_waiters p') \<longleftrightarrow> r = Inl Work_Blocked)"
    using waiting [of i] k by (intro pool_step_waiters [OF st dist]) simp
  have waiting': "w < length ?qs \<and> ?qs ! w = Some Work_Blocked" if "w \<in> set (pool_waiters p')" for w
    using waiters waiting [of w] that i by (cases "w = i") auto
  have asserts': "list_all (case_option True (pool_assert p')) ?qs"
  proof (rule list_all_update_others [OF asserts i])
    show "case_option True (pool_assert p') (still r)"
      using pool_step_assert [of _ p' run sp i k p] st ak by (cases r) simp_all
    fix j
    assume "j < length qs" "j \<noteq> i" and aj: "case_option True (pool_assert p) (qs ! j)"
    then have "holds_pool k + case_option 0 holds_pool (qs ! j) \<le> of_bool (pool_mtx p)"
      using tsum_two [OF i, of j "case_option 0 holds_pool"] k mtx by simp
    then have "tasks p' = tasks p \<or> case_option 0 holds_pool (qs ! j) = 0"
      using frame by (cases "pool_mtx p") auto
    then show "case_option True (pool_assert p') (qs ! j)"
      using aj frame by (auto split: option.splits intro: pool_assert_frame)
  qed
  have wake': "\<exists>j < length ?qs. \<exists>k. ?qs ! j = Some k \<and> awake p' j k"
    if "pool_waiters p' \<noteq> []" "tasks p' \<noteq> []"
  proof (cases "case_option False (awake p' i) (still r)")
    case True
    with i show ?thesis by (intro exI [of _ i]) (auto split: option.splits)
  next
    case False
    from pool_step_awake [OF st ak False] that consider
      "\<not> awake p i k" "pool_waiters p' = pool_waiters p" "tasks p' = tasks p"
      | w where "k \<noteq> Work_Blocked" "w \<in> set (pool_waiters p)" "w \<notin> set (pool_waiters p')" by blast
    then show ?thesis
    proof cases
      case 1
      with wake that obtain j kj where j: "j < length qs" "qs ! j = Some kj" "awake p j kj" by auto
      with 1 k have "j \<noteq> i" by auto
      moreover have "awake p' j kj" using j(3) 1(2) by (cases kj) simp_all
      ultimately show ?thesis using j by auto
    next
      case 2
      with waiting [of w] k have "w \<noteq> i" "w < length qs" "qs ! w = Some Work_Blocked" by auto
      with 2 show ?thesis by auto
    qed
  qed
  show ?thesis
    unfolding pool_inv_def
    using mtx' waiters waiting' wake' pool_step_logs [OF st ak logs] run' pool_step_results [OF st held] asserts' frame ids
    by blast
qed

section \<open>The pool as a shared object\<close>

lemma pool_inv_call:
  assumes inv: "pool_inv run ids qs p" and i: "i < length qs" and none: "qs ! i = None"
  shows "pool_inv run ids (qs[i := Some (pool_entry oper)]) p"
proof -
  let ?qs = "qs[i := Some (pool_entry oper)]"
  have "holds_pool (pool_entry oper) = 0" "running (pool_entry oper) = {#}" "pool_assert p (pool_entry oper)"
    by (cases oper; simp)+
  moreover from this have "tsum (case_option 0 holds_pool) ?qs = tsum (case_option 0 holds_pool) qs"
    "tmset (case_option {#} running) ?qs = tmset (case_option {#} running) qs"
    using tsum_update [OF i, of "case_option 0 holds_pool" "Some (pool_entry oper)"]
      tmset_update [OF i, of "case_option {#} running" "Some (pool_entry oper)"] none by simp_all
  moreover have "?qs ! j = qs ! j" if "qs ! j = Some kj" for j kj using that none by (cases "j = i") auto
  ultimately show ?thesis
    using inv unfolding pool_inv_def by (auto intro!: list_all_update)
qed

interpretation pool: shared_object "pool_step run sp" pool_entry "pool_inv run ids" "pool_ctor ids" for run sp ids
proof unfold_locales
  fix qs :: "'a pool_pc option list"
  assume none: "list_all (\<lambda>q. q = None) qs"
  then have "tsum (case_option 0 holds_pool) qs = 0" "tmset (case_option {#} running) qs = {#}"
    by (auto simp: tsum_eq_0_iff list_all_iff intro!: tmset_empty)
  with none show "pool_inv run ids qs (pool_ctor ids)"
    by (auto simp: pool_inv_def pool_ctor_def list_all_iff)
next
  fix qs i k k' and p p' :: "('a, 'b) pool"
  assume "pool_inv run ids qs p" "i < length qs" "qs ! i = Some k" "(Inl k', p') \<in> set (pool_step run sp i k p)"
  then show "pool_inv run ids (qs[i := Some k']) p'" using pool_keeps by fastforce
next
  fix qs i k v and p p' :: "('a, 'b) pool"
  assume "pool_inv run ids qs p" "i < length qs" "qs ! i = Some k" "(Inr v, p') \<in> set (pool_step run sp i k p)"
  then show "pool_inv run ids (qs[i := None]) p'" using pool_keeps by fastforce
qed (rule pool_inv_call)

section \<open>Blocked calls\<close>

text \<open>
  When no call can take a step: a worker sleeps, and then there is no task; or a future is not
  ready; or the destructor joins a worker that has not returned.
\<close>

definition pool_waits :: "('t, 'v) pool \<Rightarrow> nat \<Rightarrow> 't pool_pc \<Rightarrow> bool" where
  "pool_waits p i k \<longleftrightarrow> k = Work_Blocked \<and> i \<in> set (pool_waiters p) \<and> tasks p = []
     \<or> (\<exists>t. k = Get_Wait t \<and> t \<notin> set (ready p))
     \<or> (\<exists>m. k = Des_Join m \<and> m < length (workers p) \<and> workers p ! m \<notin> set (exited p) \<and> stop_flag p)"

lemma pool_step_blocked:
  "pool_step run sp i k p = [] \<Longrightarrow> holds_pool k = 0 \<and> \<not> awake p i k \<or> pool_mtx p"
  by (cases k) (auto simp: notify_one_def split: if_splits option.splits)

lemma pool_blocked:
  assumes inv: "pool_inv run ids qs p" and i: "i < length qs" "qs ! i = Some k"
    and blocked: "\<And>j k. j < length qs \<Longrightarrow> qs ! j = Some k \<Longrightarrow> pool_step run sp j k p = []"
  shows "pool_waits p i k \<and> mset (ready p) = mset (log_taken p)"
proof -
  note inv = inv [unfolded pool_inv_def]
  have holds: "holds_pool k = 0" if "j < length qs" "qs ! j = Some k" for j k
    using blocked [OF that] by (cases k) (auto simp: notify_one_def split: if_splits option.splits)
  then have "tsum (case_option 0 holds_pool) qs = 0"
    by (auto simp: tsum_eq_0_iff in_set_conv_nth split: option.splits)
  with inv have free: "\<not> pool_mtx p" by simp
  have asleep: "\<not> awake p j k" if "j < length qs" "qs ! j = Some k" for j k
    using pool_step_blocked [OF blocked [OF that]] free by simp
  have "running k = {#}" if "j < length qs" "qs ! j = Some k" for j k
    using blocked [OF that] by (cases k) simp_all
  then have "tmset (case_option {#} running) qs = {#}"
    by (intro tmset_empty) (auto simp: in_set_conv_nth split: option.splits)
  then have "mset (ready p) = mset (log_taken p)" using inv by simp
  moreover have "pool_assert p k" using inv i by (auto simp: list_all_length dest!: spec [of _ i])
  moreover have "tasks p = []" if "j \<in> set (pool_waiters p)" for j
    using inv asleep that by (metis empty_iff empty_set)
  ultimately show ?thesis
    using blocked [OF i] free inv by (cases k) (auto simp: pool_waits_def notify_one_def split: if_splits option.splits)
qed

text \<open>
  C11. The task queue of the pool, for any clients, any number of workers and spurious wake-ups:
  tasks are taken from the queue in the order of their submission, each at most as often as it was
  submitted; what has been taken is either running or done, once for each time it was taken; and exactly the futures
  of the tasks that are done hold a result, each that of its own task.  (Several workers may run, and
  finish, their tasks in another order.)
\<close>

theorem pool_tasks_conserved:
  assumes "steps (client_step prog after pool_entry (pool_step run spurious))
      (client_start ps (pool_ctor ids) c0) (ts, (p, c))"
  shows "log_submitted p = log_taken p @ tasks p
    \<and> tmset (case_option {#} running \<circ> snd) ts + mset (ready p) = mset (log_taken p)
    \<and> task_results p = (\<lambda>t. if t \<in> set (ready p) then Some (run t) else None)"
proof -
  have "pool_inv run ids (map snd ts) p" using assms by (rule pool.object_reach)
  moreover have "tmset (case_option {#} running \<circ> snd) ts = tmset (case_option {#} running) (map snd ts)"
    by (simp add: tmset_def comp_def)
  ultimately show ?thesis by (simp add: pool_inv_def)
qed

text \<open>
  \<open>tasks_.front()\<close> and \<open>tasks_.pop()\<close> are only reached with a task in the queue, by a worker that
  holds the mutex alone; and \<open>submit\<close> throws only on a stopped pool.
\<close>

theorem pool_take_safe:
  assumes "steps (client_step prog after pool_entry (pool_step run spurious))
      (client_start ps (pool_ctor ids) c0) (ts, (p, c))"
    and "i < length ts"
  shows "(snd (ts ! i) = Some Work_Take \<longrightarrow> tasks p \<noteq> [] \<and> pool_mtx p
      \<and> list_all (\<lambda>j. j = i \<or> case_option True (\<lambda>k. holds_pool k = 0) (snd (ts ! j))) [0..<length ts])
    \<and> (snd (ts ! i) = Some Sub_Throw \<longrightarrow> stop_flag p)"
proof -
  have inv: "pool_inv run ids (map snd ts) p" using assms(1) by (rule pool.object_reach)
  then have mtx: "tsum (case_option 0 holds_pool) (map snd ts) = of_bool (pool_mtx p)"
    and a: "case_option True (pool_assert p) (snd (ts ! i))"
    using assms(2) by (simp_all add: pool_inv_def list_all_length)
  have others: "case_option True (\<lambda>k. holds_pool k = 0) (snd (ts ! j))"
    if "snd (ts ! i) = Some Work_Take" "j < length ts" "j \<noteq> i" for j
  proof -
    have "case_option 0 holds_pool (snd (ts ! i)) + case_option 0 holds_pool (snd (ts ! j)) \<le> 1"
      using tsum_two [of i "map snd ts" j "case_option 0 holds_pool"] mtx that assms(2)
      by (cases "pool_mtx p") simp_all
    then show ?thesis using that by (cases "snd (ts ! j)") simp_all
  qed
  have "pool_mtx p" if "snd (ts ! i) = Some Work_Take"
    using tsum_member [of i "map snd ts" "case_option 0 holds_pool"] mtx assms(2) that
    by (cases "pool_mtx p") simp_all
  moreover have "list_all (\<lambda>j. j = i \<or> case_option True (\<lambda>k. holds_pool k = 0) (snd (ts ! j))) [0..<length ts]"
    if "snd (ts ! i) = Some Work_Take"
    unfolding list_all_iff by (intro ballI) (use others [OF that] in force)
  ultimately show ?thesis using a by auto
qed

text \<open>
  No task is forgotten: when every call is blocked, a sleeping worker means that the queue is
  empty, and every task that was taken is done; otherwise calls wait only for a future that is
  not ready, or, in the destructor of a stopped pool, for a worker that has not returned.
\<close>

theorem pool_blocked_calls:
  assumes "steps (client_step prog after pool_entry (pool_step run spurious))
      (client_start ps (pool_ctor ids) c0) (ts, (p, c))"
    and "list_all (\<lambda>j. case_option True (\<lambda>k. pool_step run spurious j k p = []) (snd (ts ! j))) [0..<length ts]"
    and "i < length ts" "snd (ts ! i) = Some k"
  shows "pool_waits p i k \<and> mset (ready p) = mset (log_taken p)"
proof -
  have "pool_inv run ids (map snd ts) p" using assms(1) by (rule pool.object_reach)
  then show ?thesis
    by (rule pool_blocked) (use assms(2-4) in \<open>auto simp: list_all_iff dest!: bspec [of _ _ j for j]\<close>)
qed

section \<open>Concrete runs\<close>

lemmas calls_evals = calls_prog_def calls_after_def client_step.simps client_start_def pool_ctor_def notify_one_def

text \<open>Thread 0 submits task 7, and the worker, thread 1, is about to take it.\<close>

lemma submit_take_run:
  "exec (client_step calls_prog calls_after pool_entry (pool_step uminus False))
     (client_start [[Submit 7], [Work]] (pool_ctor [1]) ()) (replicate 6 (0, 0) @ replicate 5 (1, 0))
   = Some ([([], None), ([Work], Some Work_Take)],
       ((pool_ctor [1])\<lparr>pool_mtx := True, tasks := [7 :: int], log_submitted := [7]\<rparr>, ()))"
  by (simp add: numeral_eq_Suc calls_evals)

theorem pool_tasks_conserved_witness:
  "\<exists>ts p. steps (client_step calls_prog calls_after pool_entry (pool_step uminus False))
      (client_start [[Submit 7], [Work]] (pool_ctor [1]) ()) (ts, (p, ()))
    \<and> tasks p = [7 :: int] \<and> log_submitted p = log_taken p @ tasks p"
  using pool_tasks_conserved [OF exec_steps [OF submit_take_run]] exec_steps [OF submit_take_run] by fastforce

theorem pool_take_safe_witness:
  "\<exists>ts p. steps (client_step calls_prog calls_after pool_entry (pool_step uminus False))
      (client_start [[Submit 7], [Work]] (pool_ctor [1]) ()) (ts, (p, ()))
    \<and> snd (ts ! 1) = Some Work_Take \<and> tasks p \<noteq> ([] :: int list)"
  using pool_take_safe [OF exec_steps [OF submit_take_run], of 1] exec_steps [OF submit_take_run] by fastforce

text \<open>A worker that sleeps, and a thread that waits for a task that nobody submits.\<close>

definition sleeping :: "(int, int) pool" where
  "sleeping = (pool_ctor [1])\<lparr>pool_waiters := [1]\<rparr>"

lemma sleeping_run:
  "exec (client_step calls_prog calls_after pool_entry (pool_step uminus False))
     (client_start [[Get 7], [Work]] (pool_ctor [1]) ()) ((0, 0) # replicate 5 (1, 0))
   = Some ([([Get 7], Some (Get_Wait 7)), ([Work], Some Work_Blocked)], (sleeping, ()))"
  by (simp add: numeral_eq_Suc calls_evals sleeping_def)

theorem pool_blocked_calls_witness:
  "\<exists>ts. steps (client_step calls_prog calls_after pool_entry (pool_step uminus False))
      (client_start [[Get 7], [Work]] (pool_ctor [1]) ()) (ts, (sleeping, ()))
    \<and> snd (ts ! 1) = Some Work_Blocked \<and> pool_waits sleeping 1 Work_Blocked"
proof -
  note st = exec_steps [OF sleeping_run]
  have "pool_waits sleeping 1 Work_Blocked \<and> mset (ready sleeping) = mset (log_taken sleeping)"
    by (rule pool_blocked_calls [OF st]) (simp_all add: sleeping_def pool_ctor_def upt_rec)
  then show ?thesis using st by fastforce
qed

end
