(* ===== verification/Pool_Session.thy ===== *)
theory Pool_Session
  imports Thread_Pool
begin

text \<open>
  One iteration of a thread pool benchmark: the main thread constructs the pool, submits tasks
  and waits for futures in a given order, and destroys the pool.  Every run is bounded, and all
  the futures become ready; but the destructor can hang, since it sets the stop flag and
  notifies without the mutex: a worker that has just evaluated the predicate of its wait misses
  both.
\<close>

section \<open>The program\<close>

datatype 't job = Give 't | Await 't

datatype pool_main =
    Main_Spawn nat
  | Main_At nat
  | Main_Destroy
  | Main_Done
  | Main_Terminated

text \<open>The main thread keeps the results it has got.\<close>

datatype 'v pool_thread =
    Main "'v list" pool_main
  | Worker_Unborn
  | Worker_Loop
  | Worker_Done

fun constructed :: "'v pool_thread \<Rightarrow> nat \<Rightarrow> bool" where
  "constructed (Main vs (Main_Spawn k)) i = (i \<le> k)"
| "constructed t i = True"

text \<open>The main thread is thread 0, and worker \<open>j\<close> of the pool is thread \<open>j + 1\<close>.\<close>

definition pool_prog :: "nat \<Rightarrow> 't job list \<Rightarrow> nat \<Rightarrow> 'v pool_thread list \<Rightarrow> unit
  \<Rightarrow> ('t pool_op + 'v pool_thread \<times> unit) option" where
  "pool_prog w jobs i ps c =
     (case ps ! i of
        Main vs m \<Rightarrow>
          (case m of
             Main_Spawn k \<Rightarrow> Some (Inr (Main vs (if k < w then Main_Spawn (Suc k) else Main_At 0), c))
           | Main_At n \<Rightarrow>
               Some (if n < length jobs then Inl (case jobs ! n of Give t \<Rightarrow> Submit t | Await t \<Rightarrow> Get t)
                     else Inr (Main vs Main_Destroy, c))
           | Main_Destroy \<Rightarrow> Some (Inl Destroy)
           | _ \<Rightarrow> None)
      | Worker_Unborn \<Rightarrow> if constructed (ps ! 0) i then Some (Inr (Worker_Loop, c)) else None
      | Worker_Loop \<Rightarrow> Some (Inl Work)
      | Worker_Done \<Rightarrow> None)"

fun pool_after :: "nat \<Rightarrow> 'v pool_thread \<Rightarrow> ('t, 'v) pool_ret \<Rightarrow> 'v pool_thread" where
  "pool_after i (Main vs (Main_At n)) (Threw e) = Main vs Main_Terminated"
| "pool_after i (Main vs (Main_At n)) (Got v) = Main (vs @ [v]) (Main_At (Suc n))"
| "pool_after i (Main vs (Main_At n)) r = Main vs (Main_At (Suc n))"
| "pool_after i (Main vs m) r = Main vs Main_Done"
| "pool_after i t r = Worker_Done"

definition pool_session_step :: "('t \<Rightarrow> 'v) \<Rightarrow> nat \<Rightarrow> 't job list \<Rightarrow> ('v pool_thread \<times> 't pool_pc option, ('t, 'v) pool \<times> unit) stepper" where
  "pool_session_step run w jobs = client_step (pool_prog w jobs) pool_after pool_entry (pool_step run False)"

definition pool_session_start :: "nat \<Rightarrow> ('v pool_thread \<times> 't pool_pc option, ('t, 'v) pool \<times> unit) conf" where
  "pool_session_start w =
     client_start (Main [] (Main_Spawn 0) # replicate w Worker_Unborn) (pool_ctor (map Suc [0..<w])) ()"

definition given :: "'t job list \<Rightarrow> 't list" where
  "given jobs = concat (map (\<lambda>j. case j of Give t \<Rightarrow> [t] | Await t \<Rightarrow> []) jobs)"

definition awaited :: "'t job list \<Rightarrow> 't list" where
  "awaited jobs = concat (map (\<lambda>j. case j of Give t \<Rightarrow> [] | Await t \<Rightarrow> [t]) jobs)"

text \<open>Only futures of submitted tasks are awaited.\<close>

definition well_formed :: "'t job list \<Rightarrow> bool" where
  "well_formed jobs \<longleftrightarrow> list_all (\<lambda>n. case jobs ! n of Give t \<Rightarrow> True | Await t \<Rightarrow> t \<in> set (given (take n jobs)))
     [0..<length jobs]"

text \<open>
  The two ends: all threads have returned and every task is done; or the main thread waits in
  the destructor for a worker that sleeps although the pool is stopped.  In both the main thread has
  got the results of the awaited tasks, in the order in which it awaited them.
\<close>

definition pool_complete :: "('t \<Rightarrow> 'v) \<Rightarrow> nat \<Rightarrow> 't job list \<Rightarrow> ('v pool_thread \<times> 't pool_pc option, ('t, 'v) pool \<times> unit) conf \<Rightarrow> bool" where
  "pool_complete run w jobs conf = (case conf of (ts, (p, c)) \<Rightarrow>
     ts = map (\<lambda>t. (t, None)) (Main (map run (awaited jobs)) Main_Done # replicate w Worker_Done)
     \<and> log_taken p = given jobs \<and> mset (ready p) = mset (given jobs))"

definition pool_hung :: "('t \<Rightarrow> 'v) \<Rightarrow> nat \<Rightarrow> 't job list \<Rightarrow> ('v pool_thread \<times> 't pool_pc option, ('t, 'v) pool \<times> unit) conf \<Rightarrow> bool" where
  "pool_hung run w jobs conf = (case conf of (ts, (p, c)) \<Rightarrow>
     (\<exists>m < w. ts ! 0 = (Main (map run (awaited jobs)) Main_Destroy, Some (Des_Join m)) \<and> ts ! Suc m = (Worker_Loop, Some Work_Blocked)
        \<and> Suc m \<in> set (pool_waiters p))
     \<and> stop_flag p \<and> log_taken p = given jobs \<and> mset (ready p) = mset (given jobs))"

section \<open>The invariant\<close>

fun works :: "'t pool_pc \<Rightarrow> bool" where
  "works (Sub_Lock t) = False"
| "works (Sub_Test t) = False"
| "works Sub_Throw = False"
| "works (Sub_Emplace t) = False"
| "works (Sub_Unlock t) = False"
| "works (Sub_Notify t) = False"
| "works (Get_Wait t) = False"
| "works Des_Stop = False"
| "works Des_Notify = False"
| "works (Des_Join k) = False"
| "works _ = True"

fun submitting :: "'t list \<Rightarrow> 't job \<Rightarrow> ('t, 'v) pool \<Rightarrow> 't pool_pc \<Rightarrow> bool" where
  "submitting g j p (Sub_Lock t) = (j = Give t \<and> log_submitted p = g)"
| "submitting g j p (Sub_Test t) = (j = Give t \<and> log_submitted p = g)"
| "submitting g j p (Sub_Emplace t) = (j = Give t \<and> log_submitted p = g)"
| "submitting g j p (Sub_Unlock t) = (j = Give t \<and> log_submitted p = g @ [t])"
| "submitting g j p (Sub_Notify t) = (j = Give t \<and> log_submitted p = g @ [t])"
| "submitting g j p (Get_Wait t) = (j = Await t \<and> log_submitted p = g)"
| "submitting g j p _ = False"

fun destroying :: "nat \<Rightarrow> ('t, 'v) pool \<Rightarrow> 't pool_pc \<Rightarrow> bool" where
  "destroying w p Des_Stop = (\<not> stop_flag p)"
| "destroying w p Des_Notify = stop_flag p"
| "destroying w p (Des_Join j) = (stop_flag p \<and> j \<le> w \<and> (\<forall>l < j. Suc l \<in> set (exited p)))"
| "destroying w p _ = False"

fun main_ok :: "('t \<Rightarrow> 'v) \<Rightarrow> nat \<Rightarrow> 't job list \<Rightarrow> ('t, 'v) pool \<Rightarrow> 'v pool_thread \<times> 't pool_pc option \<Rightarrow> bool" where
  "main_ok run w jobs p (Main vs (Main_Spawn k), q) = (q = None \<and> k \<le> w \<and> \<not> stop_flag p \<and> log_submitted p = [] \<and> vs = [])"
| "main_ok run w jobs p (Main vs (Main_At n), q) = (n \<le> length jobs \<and> \<not> stop_flag p \<and> vs = map run (awaited (take n jobs))
     \<and> (case q of None \<Rightarrow> log_submitted p = given (take n jobs)
        | Some k \<Rightarrow> n < length jobs \<and> submitting (given (take n jobs)) (jobs ! n) p k))"
| "main_ok run w jobs p (Main vs Main_Destroy, q) = (log_submitted p = given jobs \<and> vs = map run (awaited jobs)
     \<and> (case q of None \<Rightarrow> \<not> stop_flag p | Some k \<Rightarrow> destroying w p k))"
| "main_ok run w jobs p (Main vs Main_Done, q) = (q = None \<and> log_submitted p = given jobs \<and> vs = map run (awaited jobs)
     \<and> (\<forall>l < w. Suc l \<in> set (exited p)))"
| "main_ok run w jobs p _ = False"

fun worker_ok :: "('t, 'v) pool \<Rightarrow> nat \<Rightarrow> 'v pool_thread \<times> 't pool_pc option \<Rightarrow> bool" where
  "worker_ok p i (Worker_Unborn, q) = (q = None \<and> i \<notin> set (exited p))"
| "worker_ok p i (Worker_Loop, q) = (case_option True works q \<and> i \<notin> set (exited p))"
| "worker_ok p i (Worker_Done, q) = (q = None \<and> i \<in> set (exited p) \<and> stop_flag p)"
| "worker_ok p i _ = False"

definition pool_session_inv :: "('t \<Rightarrow> 'v) \<Rightarrow> nat \<Rightarrow> 't job list \<Rightarrow> ('v pool_thread \<times> 't pool_pc option, ('t, 'v) pool \<times> unit) conf \<Rightarrow> bool" where
  "pool_session_inv run w jobs conf = (case conf of (ts, (p, c)) \<Rightarrow>
     length ts = Suc w \<and> pool_inv run (map Suc [0..<w]) (map snd ts) p \<and> main_ok run w jobs p (ts ! 0)
     \<and> (\<forall>i. 0 < i \<and> i < Suc w \<longrightarrow> worker_ok p i (ts ! i))
     \<and> (exited p \<noteq> [] \<longrightarrow> stop_flag p \<and> tasks p = []))"

lemma given_snoc: "n < length jobs
    \<Longrightarrow> given (take (Suc n) jobs) = given (take n jobs) @ (case jobs ! n of Give t \<Rightarrow> [t] | Await t \<Rightarrow> [])"
  by (simp add: given_def take_Suc_conv_app_nth)

lemma awaited_snoc: "n < length jobs
    \<Longrightarrow> awaited (take (Suc n) jobs) = awaited (take n jobs) @ (case jobs ! n of Give t \<Rightarrow> [] | Await t \<Rightarrow> [t])"
  by (simp add: awaited_def take_Suc_conv_app_nth)

lemma worker_step_frame:
  assumes "(r, p') \<in> set (pool_step run sp i k p)" "works k"
  shows "log_submitted p' = log_submitted p \<and> stop_flag p' = stop_flag p
    \<and> set (exited p') = set (exited p) \<union> (case r of Inl k' \<Rightarrow> {} | Inr v \<Rightarrow> {i})
    \<and> (tasks p = [] \<longrightarrow> tasks p' = []) \<and> (exited p' = exited p \<or> k = Work_Exit \<and> tasks p' = tasks p)
    \<and> (case r of Inl k' \<Rightarrow> works k' | Inr v \<Rightarrow> k = Work_Exit)"
  using assms by (cases k) (auto split: if_splits)

lemma main_step_exited:
  "(r, p') \<in> set (pool_step run sp i k p) \<Longrightarrow> \<not> works k \<Longrightarrow> exited p' = exited p \<and> (stop_flag p \<longrightarrow> stop_flag p')
    \<and> (tasks p' = tasks p \<or> (\<exists>t. k = Sub_Emplace t))"
  by (cases k) (auto simp: notify_one_def split: if_splits option.splits)

lemma main_ok_frame:
  assumes "main_ok run w jobs p t" "log_submitted p' = log_submitted p" "stop_flag p' = stop_flag p"
    "set (exited p) \<subseteq> set (exited p')"
  shows "main_ok run w jobs p' t"
proof -
  have "submitting g j p' k = submitting g j p k" for g j k using assms(2) by (cases k) simp_all
  moreover have "destroying w p k \<Longrightarrow> destroying w p' k" for k using assms(3,4) by (cases k) auto
  ultimately show ?thesis
    using assms by (cases "(run, w, jobs, p, t)" rule: main_ok.cases) (auto split: option.splits)
qed

lemma worker_ok_frame:
  "worker_ok p j t \<Longrightarrow> (j \<in> set (exited p') \<longleftrightarrow> j \<in> set (exited p)) \<Longrightarrow> (stop_flag p \<longrightarrow> stop_flag p') \<Longrightarrow> worker_ok p' j t"
  by (cases "(p, j, t)" rule: worker_ok.cases) auto

section \<open>Every step keeps the invariant\<close>

lemma submitting_step:
  assumes "submitting g j p k" "\<not> stop_flag p" "(r, p') \<in> set (pool_step run sp i k p)"
  shows "\<not> stop_flag p' \<and> (case r of Inl k' \<Rightarrow> submitting g j p' k'
    | Inr v \<Rightarrow> log_submitted p' = g @ (case j of Give t \<Rightarrow> [t] | Await t \<Rightarrow> [])
      \<and> (case j of Give t \<Rightarrow> v = Future t | Await t \<Rightarrow> (\<exists>x. v = Got x \<and> task_results p t = Some x)))"
  using assms by (cases k) (auto split: if_splits option.splits)

lemma destroying_step:
  assumes "destroying w p k" "workers p = map Suc [0..<w]" "(r, p') \<in> set (pool_step run sp i k p)"
  shows "log_submitted p' = log_submitted p \<and> (case r of Inl k' \<Rightarrow> destroying w p' k'
    | Inr v \<Rightarrow> \<forall>l < w. Suc l \<in> set (exited p'))"
  using assms by (cases k) (auto simp: less_Suc_eq split: if_splits option.splits)

lemma main_ok_emplace: "main_ok run w jobs p (t, Some (Sub_Emplace x)) \<Longrightarrow> \<not> stop_flag p"
  by (cases "(run, w, jobs, p, (t, Some (Sub_Emplace x)))" rule: main_ok.cases) auto

lemma submitting_works: "submitting g j p k \<Longrightarrow> \<not> works k" and destroying_works: "destroying w p k \<Longrightarrow> \<not> works k"
  by (cases k; simp)+

lemma main_ok_works: "main_ok run w jobs p (t, Some k) \<Longrightarrow> \<not> works k"
  by (cases "(run, w, jobs, p, (t, Some k))" rule: main_ok.cases)
    (auto dest: submitting_works destroying_works split: option.splits)

lemma main_call_keeps:
  assumes ok: "main_ok run w jobs p (t, Some k)" and ids: "workers p = map Suc [0..<w]"
    and held: "\<And>t v. task_results p t = Some v \<Longrightarrow> v = run t"
    and st: "(r, p') \<in> set (pool_step run sp i k p)"
  shows "main_ok run w jobs p' (case r of Inl k' \<Rightarrow> (t, Some k') | Inr v \<Rightarrow> (pool_after i t v, None))"
proof -
  from ok consider n where "t = Main (map run (awaited (take n jobs))) (Main_At n)" "n < length jobs" "\<not> stop_flag p"
      "submitting (given (take n jobs)) (jobs ! n) p k"
    | "t = Main (map run (awaited jobs)) Main_Destroy" "log_submitted p = given jobs" "destroying w p k"
    by (cases "(run, w, jobs, p, (t, Some k))" rule: main_ok.cases) auto
  then show ?thesis
  proof cases
    case 1
    note * = submitting_step [OF 1(4,3) st]
    show ?thesis
    proof (cases r)
      case (Inr v)
      show ?thesis
      proof (cases "jobs ! n")
        case (Give x)
        with * 1 Inr show ?thesis by (simp add: given_snoc awaited_snoc)
      next
        case (Await x)
        with * 1 Inr held show ?thesis by (auto simp: given_snoc awaited_snoc)
      qed
    qed (use * 1 in simp)
  next
    case 2
    show ?thesis using destroying_step [OF 2(3) ids st] 2 by (cases r) simp_all
  qed
qed

lemma main_keeps:
  assumes ok: "main_ok run w jobs p (ts ! 0)" and ids: "workers p = map Suc [0..<w]" and len: "0 < length ts"
    and held: "\<And>t v. task_results p t = Some v \<Longrightarrow> v = run t"
    and st: "(l, (p', c')) \<in> set (pool_session_step run w jobs 0 ts (p, c))"
  shows "main_ok run w jobs p' l \<and> exited p' = exited p \<and> (stop_flag p \<longrightarrow> stop_flag p' \<and> tasks p' = tasks p)"
  using st unfolding pool_session_step_def
proof (cases rule: client_step_cases)
  case (call t oper)
  moreover have "map fst ts ! 0 = t" using call len by simp
  ultimately show ?thesis
    using ok by (cases t; cases "case t of Main vs m \<Rightarrow> m | _ \<Rightarrow> Main_Done")
      (auto simp: pool_prog_def split: job.splits if_splits)
next
  case (local t t' c'')
  moreover have "map fst ts ! 0 = t" using local len by simp
  ultimately show ?thesis
    using ok by (cases t; cases "case t of Main vs m \<Rightarrow> m | _ \<Rightarrow> Main_Done")
      (auto simp: pool_prog_def given_def awaited_def split: if_splits)
next
  case (within t k k' p'')
  then show ?thesis
    using main_call_keeps [of run w jobs p t k "Inl k'" p'' False 0] ok ids held
      main_step_exited [OF within(2)] main_ok_works [of run w jobs p t k] main_ok_emplace [of run w jobs p t] by auto
next
  case (return t k v p'')
  then show ?thesis
    using main_call_keeps [of run w jobs p t k "Inr v" p'' False 0] ok ids held
      main_step_exited [OF return(2)] main_ok_works [of run w jobs p t k] main_ok_emplace [of run w jobs p t] by auto
qed

lemma worker_keeps:
  assumes ok: "worker_ok p i (ts ! i)" and i: "i < length ts" and assert: "case_option True (pool_assert p) (snd (ts ! i))"
    and st: "(l, (p', c')) \<in> set (pool_session_step run w jobs i ts (p, c))"
  shows "worker_ok p' i l \<and> log_submitted p' = log_submitted p \<and> stop_flag p' = stop_flag p
    \<and> set (exited p) \<subseteq> set (exited p') \<and> set (exited p') \<subseteq> insert i (set (exited p))
    \<and> (tasks p = [] \<longrightarrow> tasks p' = []) \<and> (exited p' = exited p \<or> stop_flag p \<and> tasks p' = [])"
  using st unfolding pool_session_step_def
proof (cases rule: client_step_cases)
  case (call t oper)
  moreover have "map fst ts ! i = t" using call i by simp
  ultimately show ?thesis
    using ok by (cases t) (auto simp: pool_prog_def split: if_splits)
next
  case (local t t' c'')
  moreover have "map fst ts ! i = t" using local i by simp
  ultimately show ?thesis
    using ok by (cases t) (auto simp: pool_prog_def split: if_splits)
next
  case (within t k k' p'')
  then have "t = Worker_Loop" "works k" using ok by (cases t; simp)+
  note * = worker_step_frame [OF within(2) \<open>works k\<close>]
  have "i \<notin> set (exited p)" using ok within(1) \<open>t = Worker_Loop\<close> by simp
  moreover have "p' = p''" "l = (Worker_Loop, Some k')" using within(3,4) \<open>t = Worker_Loop\<close> by simp_all
  ultimately show ?thesis
    using * assert within(1) unfolding sum.case by (elim conjE disjE) (simp_all add: subset_insertI)
next
  case (return t k v p'')
  then have "t = Worker_Loop" "works k" using ok by (cases t; simp)+
  then show ?thesis using worker_step_frame [OF return(2)] return(1,3,4) ok assert by auto
qed

lemma pool_session_keeps:
  assumes inv: "pool_session_inv run w jobs (ts, (p, c))" and i: "i < length ts"
    and st: "(l, (p', c')) \<in> set (pool_session_step run w jobs i ts (p, c))"
  shows "pool_session_inv run w jobs (ts[i := l], (p', c'))"
proof -
  have len: "length ts = Suc w" and pool: "pool_inv run (map Suc [0..<w]) (map snd ts) p"
    and main: "main_ok run w jobs p (ts ! 0)" and worker: "\<And>i. 0 < i \<Longrightarrow> i < Suc w \<Longrightarrow> worker_ok p i (ts ! i)"
    and gone: "exited p \<noteq> [] \<longrightarrow> stop_flag p \<and> tasks p = []"
    using inv by (simp_all add: pool_session_inv_def)
  have pool': "pool_inv run (map Suc [0..<w]) (map snd (ts[i := l])) p'"
    using pool i st unfolding pool_session_step_def by (rule pool.object_client_step)
  have ids: "workers p = map Suc [0..<w]" and assert: "case_option True (pool_assert p) (snd (ts ! i))"
    using pool i by (simp_all add: pool_inv_def list_all_length)
  have held: "v = run t" if "task_results p t = Some v" for t v
    using pool that by (simp add: pool_inv_def split: if_splits)
  show ?thesis
  proof (cases "i = 0")
    case True
    then have *: "main_ok run w jobs p' l \<and> exited p' = exited p \<and> (stop_flag p \<longrightarrow> stop_flag p' \<and> tasks p' = tasks p)"
      using main_keeps [OF main ids _ held] st len by simp
    then have "worker_ok p' j (ts ! j)" if "0 < j" "j < Suc w" for j
      using worker_ok_frame [OF worker [OF that]] by simp
    then show ?thesis using * gone True len pool' by (simp add: pool_session_inv_def)
  next
    case False
    then have *: "worker_ok p' i l \<and> log_submitted p' = log_submitted p \<and> stop_flag p' = stop_flag p
      \<and> set (exited p) \<subseteq> set (exited p') \<and> set (exited p') \<subseteq> insert i (set (exited p))
      \<and> (tasks p = [] \<longrightarrow> tasks p' = []) \<and> (exited p' = exited p \<or> stop_flag p \<and> tasks p' = [])"
      using worker_keeps [OF worker i assert st] i len by simp
    then have "worker_ok p' j (ts ! j)" if "0 < j" "j < Suc w" "j \<noteq> i" for j
      using worker_ok_frame [OF worker [OF that(1,2)], of p'] that(3) by auto
    moreover have "main_ok run w jobs p' (ts ! 0)" using main_ok_frame [OF main] * by simp
    ultimately show ?thesis
      using * gone False len pool' i by (auto simp: pool_session_inv_def nth_list_update)
  qed
qed

lemma pool_session_start_inv: "pool_session_inv run w jobs (pool_session_start w)"
proof -
  let ?ts = "map (\<lambda>t. (t, None)) (Main [] (Main_Spawn 0) # replicate w Worker_Unborn)
    :: ('v pool_thread \<times> 't pool_pc option) list"
  have "pool_inv run (map Suc [0..<w]) (map snd ?ts) (pool_ctor (map Suc [0..<w]))"
    by (rule pool.object_start) (auto simp: list_all_iff)
  moreover have "main_ok run w jobs (pool_ctor (map Suc [0..<w])) (?ts ! 0)" by (simp add: pool_ctor_def)
  moreover have "\<forall>i. 0 < i \<and> i < Suc w \<longrightarrow> worker_ok (pool_ctor (map Suc [0..<w])) i (?ts ! i)"
    by (auto simp: pool_ctor_def gr0_conv_Suc)
  moreover have "length ?ts = Suc w" "exited (pool_ctor (map Suc [0..<w])) = []" by (simp_all add: pool_ctor_def)
  ultimately show ?thesis
    unfolding pool_session_inv_def pool_session_start_def client_start_def prod.case by blast
qed

section \<open>How a session ends\<close>

text \<open>When nothing moves, a worker has returned or sleeps on an empty queue.\<close>

lemma stuck_worker:
  assumes inv: "pool_session_inv run w jobs (ts, (p, c))" and stuck: "\<And>i. i < length ts \<Longrightarrow> pool_session_step run w jobs i ts (p, c) = []"
    and j: "j < w" and started: "\<And>vs k. fst (ts ! 0) \<noteq> Main vs (Main_Spawn k)"
  shows "ts ! Suc j = (Worker_Done, None) \<and> stop_flag p
    \<or> ts ! Suc j = (Worker_Loop, Some Work_Blocked) \<and> Suc j \<in> set (pool_waiters p) \<and> tasks p = []
      \<and> Suc j \<notin> set (exited p)"
proof -
  have len: "length ts = Suc w" and pool: "pool_inv run (map Suc [0..<w]) (map snd ts) p"
    and ok: "worker_ok p (Suc j) (ts ! Suc j)"
    using inv j by (simp_all add: pool_session_inv_def)
  have blocked: "pool_step run False i k p = []" if "i < length ts" "snd (ts ! i) = Some k" for i k
    using stuck [OF that(1)] that by (cases "ts ! i") (simp add: pool_session_step_def client_step.simps)
  obtain t q where t: "ts ! Suc j = (t, q)" by force
  have pc: "map fst ts ! Suc j = t" "map fst ts ! 0 = fst (ts ! 0)" using t j len by simp_all
  show ?thesis
  proof (cases q)
    case None
    then have "pool_prog w jobs (Suc j) (map fst ts) c = None"
      using stuck [of "Suc j"] j len t
      by (auto simp: pool_session_step_def client_step.simps split: option.splits sum.splits)
    moreover have "constructed (map fst ts ! 0) (Suc j)"
      using started pc(2) by (cases "(fst (ts ! 0), Suc j)" rule: constructed.cases) simp_all
    ultimately have "t = Worker_Done"
      using ok t pc(1) by (cases t) (auto simp: pool_prog_def)
    then show ?thesis using ok t None by simp
  next
    case (Some k)
    have "pool_waits p (Suc j) k"
      using pool_blocked [OF pool, of "Suc j" k False] blocked j len t Some by simp
    moreover have "t = Worker_Loop" "works k" using ok t Some by (cases t; simp)+
    ultimately show ?thesis using ok t Some by (auto simp: pool_waits_def)
  qed
qed

lemma pool_session_stuck:
  assumes inv: "pool_session_inv run w jobs (ts, (p, c))" and "0 < w" and wf: "well_formed jobs"
    and stuck: "\<And>i. i < length ts \<Longrightarrow> pool_session_step run w jobs i ts (p, c) = []"
  shows "pool_complete run w jobs (ts, (p, c)) \<or> pool_hung run w jobs (ts, (p, c))"
proof -
  have len: "length ts = Suc w" and pool: "pool_inv run (map Suc [0..<w]) (map snd ts) p"
    and main: "main_ok run w jobs p (ts ! 0)" and worker: "\<And>i. 0 < i \<Longrightarrow> i < Suc w \<Longrightarrow> worker_ok p i (ts ! i)"
    and gone: "exited p \<noteq> [] \<longrightarrow> stop_flag p \<and> tasks p = []"
    using inv by (simp_all add: pool_session_inv_def)
  have ids: "workers p = map Suc [0..<w]" and logs: "log_submitted p = log_taken p @ tasks p"
    using pool by (simp_all add: pool_inv_def)
  obtain t q where t: "ts ! 0 = (t, q)" by force
  have pc: "map fst ts ! 0 = t" using t len by simp
  have none: "pool_prog w jobs 0 (map fst ts) c = None" if "q = None"
    using stuck [of 0] len t that
    by (auto simp: pool_session_step_def client_step.simps split: option.splits sum.splits)
  have waits: "pool_waits p 0 k \<and> mset (ready p) = mset (log_taken p)" if "q = Some k" for k
  proof (rule pool_blocked [OF pool])
    fix j kj
    assume "j < length (map snd ts)" "map snd ts ! j = Some kj"
    then show "pool_step run False j kj p = []"
      using stuck [of j] by (cases "ts ! j") (simp add: pool_session_step_def client_step.simps)
  qed (use t len that in simp_all)
  from main t obtain vs m where m: "t = Main vs m" by (cases "(run, w, jobs, p, (t, q))" rule: main_ok.cases) auto
  have started: "fst (ts ! 0) \<noteq> Main vs (Main_Spawn k)" for vs k
    using main t none m pc by (auto simp: pool_prog_def)
  have asleep: "ts ! Suc j = (Worker_Done, None) \<and> stop_flag p
      \<or> ts ! Suc j = (Worker_Loop, Some Work_Blocked) \<and> Suc j \<in> set (pool_waiters p) \<and> tasks p = []
        \<and> Suc j \<notin> set (exited p)" if "j < w" for j
    using stuck_worker [OF inv stuck that started] .
  show ?thesis
  proof (cases m)
    case (Main_At n)
    then obtain k where k: "q = Some k" "submitting (given (take n jobs)) (jobs ! n) p k" "n < length jobs" "\<not> stop_flag p"
      using main t m none pc by (cases q) (auto simp: pool_prog_def)
    then obtain x where x: "k = Get_Wait x" "x \<notin> set (ready p)" "jobs ! n = Await x" "log_submitted p = given (take n jobs)"
      using waits [OF k(1)] by (auto simp: pool_waits_def)
    have "log_taken p = given (take n jobs)" using asleep [OF \<open>0 < w\<close>] k(4) logs x(4) by simp
    then have "set (ready p) = set (given (take n jobs))"
      using waits [OF k(1)] mset_eq_setD by metis
    then show ?thesis using wf x k(3) by (auto simp: well_formed_def list_all_length dest!: spec [of _ n])
  next
    case Main_Destroy
    then obtain k where k: "q = Some k" "destroying w p k" "log_submitted p = given jobs" "vs = map run (awaited jobs)"
      using main t m none pc by (cases q) (auto simp: pool_prog_def)
    then obtain j where j: "k = Des_Join j" "j < w" "Suc j \<notin> set (exited p)" "stop_flag p"
      using waits [OF k(1)] ids by (auto simp: pool_waits_def)
    have "worker_ok p (Suc j) (ts ! Suc j)" using worker j by simp
    then show ?thesis
      using asleep [OF j(2)] j k waits [OF k(1)] logs t m Main_Destroy by (auto simp: pool_hung_def)
  next
    case Main_Done
    then have all: "q = None" "log_submitted p = given jobs" "vs = map run (awaited jobs)" "\<And>l. l < w \<Longrightarrow> Suc l \<in> set (exited p)"
      using main t m by simp_all
    then have workers: "ts ! Suc l = (Worker_Done, None)" if "l < w" for l
      using asleep [OF that] that by auto
    have ends: "ts = map (\<lambda>t. (t, None)) (Main (map run (awaited jobs)) Main_Done # replicate w Worker_Done)"
      using len t m Main_Done all(1) workers all(3) by (intro nth_equalityI) (auto simp: nth_Cons' gr0_conv_Suc)
    then have "tmset (case_option {#} running) (map snd ts) = {#}" by (auto intro!: tmset_empty)
    moreover have "tasks p = []" using all(4) [OF \<open>0 < w\<close>] gone by auto
    ultimately show ?thesis using ends all(2) logs pool by (simp add: pool_complete_def pool_inv_def)
  qed (use main t m started in auto)
qed

section \<open>Every run is bounded\<close>

text \<open>
  The steps left in a call: 12 more for every task in the queue, and 8 for every thread that is not
  waiting, which is what its next time round the wait loop costs.
\<close>

fun pool_pc_rank :: "nat \<Rightarrow> 't pool_pc \<Rightarrow> nat" where
  "pool_pc_rank w (Sub_Lock t) = 30"
| "pool_pc_rank w (Sub_Test t) = 29"
| "pool_pc_rank w Sub_Throw = 1"
| "pool_pc_rank w (Sub_Emplace t) = 28"
| "pool_pc_rank w (Sub_Unlock t) = 15"
| "pool_pc_rank w (Sub_Notify t) = 14"
| "pool_pc_rank w (Get_Wait t) = 1"
| "pool_pc_rank w Work_Lock = 8"
| "pool_pc_rank w Work_Stop1 = 7"
| "pool_pc_rank w Work_Empty1 = 6"
| "pool_pc_rank w Work_Wait = 2"
| "pool_pc_rank w Work_Blocked = 9"
| "pool_pc_rank w Work_Relock = 8"
| "pool_pc_rank w Work_Stop2 = 5"
| "pool_pc_rank w Work_Empty2 = 4"
| "pool_pc_rank w Work_Take = 3"
| "pool_pc_rank w (Work_Unlock t) = 11"
| "pool_pc_rank w (Work_Run t) = 10"
| "pool_pc_rank w Work_Exit = 2"
| "pool_pc_rank w Des_Stop = 9 * w + 3"
| "pool_pc_rank w Des_Notify = 9 * w + 2"
| "pool_pc_rank w (Des_Join k) = (w - k) + 1"

definition pool_load :: "nat \<Rightarrow> ('t, 'v) pool \<Rightarrow> nat" where
  "pool_load w p = 12 * length (tasks p) + 8 * (w - length (pool_waiters p))"

lemma pool_step_load:
  assumes "(r, p') \<in> set (pool_step run False i k p)" "pool_assert p k" "distinct (pool_waiters p)"
    "length (pool_waiters p') \<le> w" "length (workers p) \<le> w"
  shows "case_option 0 (pool_pc_rank w) (still r) + pool_load w p' < pool_pc_rank w k + pool_load w p"
proof (cases "\<exists>t. k = Sub_Notify t")
  case True
  then show ?thesis
    using assms by (auto simp: pool_load_def dest!: length_notify_one)
next
  case False
  then show ?thesis
    using assms by (cases k; cases "tasks p") (auto simp: pool_load_def split: if_splits)
qed

fun main_rank :: "nat \<Rightarrow> nat \<Rightarrow> pool_main \<Rightarrow> 't pool_pc option \<Rightarrow> nat" where
  "main_rank w n (Main_Spawn k) q = (w - k) + 1 + n * 31 + 9 * w + 5"
| "main_rank w n (Main_At m) q = 9 * w + 5 + (case q of None \<Rightarrow> (n - m) * 31 | Some k \<Rightarrow> (n - Suc m) * 31 + pool_pc_rank w k)"
| "main_rank w n Main_Destroy q = (case q of None \<Rightarrow> 9 * w + 4 | Some k \<Rightarrow> pool_pc_rank w k)"
| "main_rank w n m q = 0"

fun thread_rank :: "nat \<Rightarrow> nat \<Rightarrow> 'v pool_thread \<times> 't pool_pc option \<Rightarrow> nat" where
  "thread_rank w n (Main vs m, q) = main_rank w n m q"
| "thread_rank w n (Worker_Unborn, q) = 10"
| "thread_rank w n (Worker_Loop, q) = case_option 9 (pool_pc_rank w) q"
| "thread_rank w n (Worker_Done, q) = 0"

definition pool_session_rank :: "nat \<Rightarrow> 't job list \<Rightarrow> ('v pool_thread \<times> 't pool_pc option, ('t, 'v) pool \<times> unit) conf \<Rightarrow> nat" where
  "pool_session_rank w jobs conf = (case conf of (ts, (p, c)) \<Rightarrow>
     tsum (thread_rank w (length jobs)) ts + pool_load w p)"

text \<open>The waiters are workers.\<close>

lemma waiters_bound:
  assumes inv: "pool_session_inv run w jobs (ts, (p, c))"
  shows "length (pool_waiters p) \<le> w"
proof -
  have len: "length ts = Suc w" and pool: "pool_inv run (map Suc [0..<w]) (map snd ts) p"
    and main: "main_ok run w jobs p (ts ! 0)"
    using inv by (simp_all add: pool_session_inv_def)
  have idle: "snd (ts ! 0) \<noteq> Some Work_Blocked"
    using main main_ok_works [of run w jobs p "fst (ts ! 0)" Work_Blocked] by (cases "ts ! 0") auto
  have waiting: "x < Suc w \<and> map snd ts ! x = Some Work_Blocked" if "x \<in> set (pool_waiters p)" for x
    using pool that len by (auto simp: pool_inv_def)
  have "set (pool_waiters p) \<subseteq> {0<..<Suc w}"
  proof
    fix x
    assume "x \<in> set (pool_waiters p)"
    from waiting [OF this] show "x \<in> {0<..<Suc w}" using idle len by (cases x) simp_all
  qed
  then have "card (set (pool_waiters p)) \<le> card {0<..<Suc w}" by (intro card_mono) simp_all
  then show ?thesis using pool by (simp add: pool_inv_def distinct_card)
qed

lemma diff_Suc_less_31: "m < n \<Longrightarrow> (n - Suc m) * 31 + 30 < (n - m) * 31" for m n :: nat
  by simp

lemma thread_call_rank:
  assumes "i = 0 \<and> main_ok run w jobs p (t, Some k) \<or> worker_ok p i (t, Some k)"
    and "case_option 0 (pool_pc_rank w) (still r) + x' < pool_pc_rank w k + x"
  shows "thread_rank w (length jobs) (case r of Inl k' \<Rightarrow> (t, Some k') | Inr v \<Rightarrow> (pool_after i t v, None)) + x'
    < thread_rank w (length jobs) (t, Some k) + x"
proof -
  consider vs n where "t = Main vs (Main_At n)" "n < length jobs" | vs where "t = Main vs Main_Destroy" | "t = Worker_Loop"
    using assms(1) by (cases t; cases "case t of Main vs m \<Rightarrow> m | _ \<Rightarrow> Main_Done") auto
  then show ?thesis
  proof cases
    case 1
    show ?thesis
    proof (cases r)
      case (Inr v)
      with 1 show ?thesis using assms(2) by (cases v) simp_all
    qed (use assms(2) 1 in simp)
  qed (use assms(2) in \<open>cases r; simp\<close>)+
qed

lemma pool_session_decrease:
  assumes inv: "pool_session_inv run w jobs (ts, (p, c))" and i: "i < length ts"
    and st: "(l, (p', c')) \<in> set (pool_session_step run w jobs i ts (p, c))"
  shows "pool_session_rank w jobs (ts[i := l], (p', c')) < pool_session_rank w jobs (ts, (p, c))"
proof -
  have len: "length ts = Suc w" and pool: "pool_inv run (map Suc [0..<w]) (map snd ts) p"
    and main: "main_ok run w jobs p (ts ! 0)" and worker: "0 < i \<Longrightarrow> worker_ok p i (ts ! i)"
    using inv i by (simp_all add: pool_session_inv_def)
  have assert: "case_option True (pool_assert p) (snd (ts ! i))" and dist: "distinct (pool_waiters p)"
    and ids: "length (workers p) \<le> w"
    using pool i by (auto simp: pool_inv_def list_all_length)
  have room: "length (pool_waiters p') \<le> w"
    using pool_session_keeps [OF inv i st] by (rule waiters_bound)
  let ?rank = "thread_rank w (length jobs)"
  have one: "?rank l + pool_load w p' < ?rank (ts ! i) + pool_load w p"
    using st unfolding pool_session_step_def
  proof (cases rule: client_step_cases)
    case (call t oper)
    moreover have "map fst ts ! i = t" using call i by simp
    ultimately show ?thesis
      using main worker diff_Suc_less_31 by (cases t; cases "case t of Main vs m \<Rightarrow> m | _ \<Rightarrow> Main_Done"; cases "i = 0")
        (auto simp: pool_prog_def split: job.splits if_splits)
  next
    case (local t t' c'')
    moreover have "map fst ts ! i = t" using local i by simp
    ultimately show ?thesis
      using main worker by (cases t; cases "case t of Main vs m \<Rightarrow> m | _ \<Rightarrow> Main_Done"; cases "i = 0")
        (auto simp: pool_prog_def split: if_splits)
  next
    case (within t k k' p'')
    then show ?thesis
      using thread_call_rank [of i run w jobs p t k "Inl k'" "pool_load w p'" "pool_load w p"]
        pool_step_load [of "Inl k'" p'' run i k p w] assert dist room ids main worker by (cases "i = 0") simp_all
  next
    case (return t k v p'')
    then show ?thesis
      using thread_call_rank [of i run w jobs p t k "Inr v" "pool_load w p'" "pool_load w p"]
        pool_step_load [of "Inr v" p'' run i k p w] assert dist room ids main worker by (cases "i = 0") simp_all
  qed
  show ?thesis
    using tsum_update [OF i, of ?rank l] one by (simp add: pool_session_rank_def)
qed

lemma pool_session_live:
  assumes "well_formed jobs"
  shows "live_interleaving (pool_session_step run (Suc w) jobs) (pool_session_start (Suc w))
    (pool_session_inv run (Suc w) jobs) (\<lambda>conf. pool_complete run (Suc w) jobs conf \<or> pool_hung run (Suc w) jobs conf)
    (pool_session_rank (Suc w) jobs)"
  using pool_session_start_inv pool_session_keeps pool_session_stuck [OF _ zero_less_Suc assms] pool_session_decrease
  by (rule live_by_rank)

lemma pool_session_start_rank:
  "pool_session_rank w jobs (pool_session_start w) = 28 * w + 31 * length jobs + 6"
  by (simp add: pool_session_rank_def pool_session_start_def client_start_def pool_load_def pool_ctor_def)

text \<open>
  Using the thread pool: whatever tasks are submitted and awaited, in any order in which a
  future is awaited only after its task has been submitted, and for every number of workers,
  every run is bounded and ends in one of two ways.  Either all threads have returned, or the
  destructor waits for ever for a worker that sleeps on a stopped pool.  In both cases all the
  tasks have been taken in order and run, each exactly once, all the futures are ready, and the main
  thread has got the results of the awaited tasks, in the order in which it awaited them.
\<close>

theorem pool_session_ends:
  assumes "well_formed jobs"
  shows "finishes (pool_session_step run (pool_size w) jobs) (pool_session_start (pool_size w))
    (\<lambda>conf. pool_complete run (pool_size w) jobs conf \<or> pool_hung run (pool_size w) jobs conf)
    (28 * pool_size w + 31 * length jobs + 6)"
proof -
  obtain v where v: "pool_size w = Suc v" by (cases w) (simp_all add: pool_size_def)
  show ?thesis
    unfolding v by (rule live_interleaving.always_finishes [OF pool_session_live [OF assms]]) (simp add: pool_session_start_rank)
qed

theorem pool_session_ends_witness:
  "finishes (pool_session_step run 1 [Give (7 :: int), Await 7]) (pool_session_start 1)
    (\<lambda>conf. pool_complete run 1 [Give 7, Await 7] conf \<or> pool_hung run 1 [Give 7, Await 7] conf) 96"
  using pool_session_ends [of "[Give (7 :: int), Await 7]" run 0]
  by (simp add: well_formed_def given_def pool_size_def)

text \<open>
  C24. The destructor can hang: with one worker, one task and its result collected, there is a run
  in which the worker evaluates the predicate of its wait, the destructor then sets the flag and
  notifies, and the worker goes to sleep.  No thread can take a step any more, and the main
  thread waits in \<open>join\<close>.
\<close>

theorem pool_destructor_hangs:
  fixes run :: "int \<Rightarrow> 'v"
  shows "\<exists>conf. steps (pool_session_step run 1 [Give (7 :: int), Await 7]) (pool_session_start 1) conf
    \<and> stuck (pool_session_step run 1 [Give 7, Await 7]) conf
    \<and> pool_hung run 1 [Give 7, Await 7] conf \<and> \<not> pool_complete run 1 [Give 7, Await 7] conf"
proof -
  let ?ts = "[(Main [run 7] Main_Destroy, Some (Des_Join 0)), (Worker_Loop, Some Work_Blocked)]"
  let ?p = "(pool_ctor [1])\<lparr>pool_waiters := [1], stop_flag := True, ready := [7], task_results := [7 \<mapsto> run 7], log_submitted := [7],
    log_taken := [7]\<rparr> :: (int, 'v) pool"
  have "exec (pool_session_step run 1 [Give 7, Await 7]) (pool_session_start 1)
      (replicate 8 (0, 0) @ replicate 12 (1, 0) @ replicate 6 (0, 0) @ [(1, 0)]) = Some (?ts, (?p, ()))"
    by (simp add: numeral_eq_Suc pool_session_step_def pool_session_start_def client_step.simps client_start_def
        pool_prog_def pool_ctor_def notify_one_def)
  then have "steps (pool_session_step run 1 [Give (7 :: int), Await 7]) (pool_session_start 1) (?ts, (?p, ()))"
    by (rule exec_steps)
  moreover have "stuck (pool_session_step run 1 [Give 7, Await 7]) (?ts, (?p, ()))"
    by (simp add: stuck_def pool_session_step_def client_step.simps pool_prog_def pool_ctor_def upt_rec)
  moreover have "pool_hung run 1 [Give 7, Await 7] (?ts, (?p, ()))" "\<not> pool_complete run 1 [Give 7, Await 7] (?ts, (?p, ()))"
    by (simp_all add: pool_hung_def pool_complete_def given_def awaited_def)
  ultimately show ?thesis by blast
qed

end
