(* ===== verification/Task_Bench.thy ===== *)
theory Task_Bench
  imports Pool_Session Tasks Double
begin

text \<open>
  The task benchmarks of src/bench\_thread\_pool.cpp and src/bench\_async\_future.cpp: which tasks
  they submit and await, and the totals they compute from the results, as functions of the tasks.
  That the runs compute these totals is shown where the runs are: for the pool and
  \<open>std::async\<close> in \<open>Async_Bench\<close> and \<open>Futures\<close>, for \<open>ManualPromiseFuture\<close> in \<open>Promises\<close>.

  The function that a benchmark runs in its tasks is an argument, \<open>task\<close> or \<open>work\<close>, so that the
  theorems say how the results are combined whatever they are; the definitions without it are
  the code's instances, for \<open>cpu_intensive_task\<close>, \<open>mixed_task\<close> and \<open>cpu_work\<close>.
\<close>

section \<open>The thread pool benchmarks\<close>

text \<open>Each burst submits its tasks, then awaits them; a task is its burst and its index.\<close>

definition burst_jobs :: "nat \<Rightarrow> nat \<Rightarrow> (nat \<times> nat) job list" where
  "burst_jobs num_bursts num_tasks =
     concat (map (\<lambda>b. map (\<lambda>i. Give (b, i)) [0..<num_tasks] @ map (\<lambda>i. Await (b, i)) [0..<num_tasks])
       [0..<num_bursts])"

text \<open>Task \<open>i\<close> runs the function on the work size plus its index; the results are added in order.\<close>

definition task_value :: "(int \<Rightarrow> int option) \<Rightarrow> int \<Rightarrow> nat \<Rightarrow> int option" where
  "task_value task work_size i = Option.bind (add_int work_size (int i)) task"

definition tasks_total :: "(int \<Rightarrow> int option) \<Rightarrow> int \<Rightarrow> nat \<Rightarrow> int option" where
  "tasks_total task work_size num_tasks = sum_results (map (task_value task work_size) [0..<num_tasks])"

definition cpu_bound_total :: "nat \<Rightarrow> int option" where
  "cpu_bound_total = tasks_total cpu_intensive_task 10000"

definition mixed_total :: "nat \<Rightarrow> int option" where
  "mixed_total = tasks_total mixed_task 5000"

definition split_total :: "(int \<Rightarrow> int option) \<Rightarrow> nat \<Rightarrow> int option" where
  "split_total task num_tasks =
     (if num_tasks = 0 then None
      else sum_results (replicate num_tasks (task (1000000 div int num_tasks))))"

definition scalability_total :: "nat \<Rightarrow> int option" where
  "scalability_total = split_total cpu_intensive_task"

definition burst_total :: "(int \<Rightarrow> int option) \<Rightarrow> nat \<Rightarrow> int option" where
  "burst_total task tasks_per_burst = sum_results (replicate tasks_per_burst (task 8000))"

definition burst_result :: "nat \<Rightarrow> int option" where
  "burst_result = burst_total cpu_intensive_task"

section \<open>The std::async benchmarks\<close>

definition async_cpu_total :: "nat \<Rightarrow> int option" where
  "async_cpu_total = tasks_total cpu_intensive_task 10000"

definition launch_async_total :: "nat \<Rightarrow> int option" where
  "launch_async_total = tasks_total cpu_work 10000"

text \<open>
  A future launched with \<open>std::launch::deferred\<close> holds its function, which \<open>get\<close> runs in the
  calling thread.
\<close>

definition deferred_futures :: "(int \<Rightarrow> int option) \<Rightarrow> nat \<Rightarrow> (unit \<Rightarrow> int option) list" where
  "deferred_futures work num_tasks = map (\<lambda>i. \<lambda>_. Option.bind (add_int 10000 (int i)) work) [0..<num_tasks]"

definition deferred_total :: "(int \<Rightarrow> int option) \<Rightarrow> nat \<Rightarrow> int option" where
  "deferred_total work num_tasks =
     foldl (\<lambda>total_result get. add_to total_result (get ())) (Some 0) (deferred_futures work num_tasks)"

definition launch_deferred_total :: "nat \<Rightarrow> int option" where
  "launch_deferred_total = deferred_total cpu_work"

text \<open>
  StdAsync\_ExceptionHandling: \<open>draws i\<close> is what the random distribution returns in task \<open>i\<close>.  The
  loop over the futures adds the results and counts the exceptions.
\<close>

definition risky_outcome :: "(nat \<Rightarrow> real) \<Rightarrow> nat \<Rightarrow> (string + int) option" where
  "risky_outcome draws i = risky_work (int i + 1000) (draws i < rnd64 (1 / 10))"

fun collect_outcome :: "int option \<times> nat \<Rightarrow> (string + int) option \<Rightarrow> int option \<times> nat" where
  "collect_outcome (total_result, exception_count) (Some (Inr r)) = (add_to total_result (Some r), exception_count)"
| "collect_outcome (total_result, exception_count) (Some (Inl e)) = (total_result, exception_count + 1)"
| "collect_outcome (total_result, exception_count) None = (None, exception_count)"

definition exception_handling :: "(nat \<Rightarrow> real) \<Rightarrow> nat \<Rightarrow> int option \<times> nat" where
  "exception_handling draws num_tasks = foldl collect_outcome (Some 0, 0) (map (risky_outcome draws) [0..<num_tasks])"

text \<open>StdAsync\_Timeout: \<open>ready i\<close> tells whether \<open>wait_for\<close> on future \<open>i\<close> has returned \<open>ready\<close>.\<close>

definition timeout_counts :: "(nat \<Rightarrow> bool) \<Rightarrow> nat \<Rightarrow> nat \<times> nat" where
  "timeout_counts is_ready num_tasks =
     foldl (\<lambda>(completed, timeouts) i. if is_ready i then (completed + 1, timeouts) else (completed, timeouts + 1))
       (0, 0) [0..<num_tasks]"

text \<open>StdAsync\_Chaining: each step awaits the previous one and adds its own work.\<close>

definition chain_sum :: "(int \<Rightarrow> int option) \<Rightarrow> nat \<Rightarrow> int \<Rightarrow> int option" where
  "chain_sum work chain_length work_per_step =
     foldl (\<lambda>prev_result step. add_to prev_result (work work_per_step)) (work work_per_step) [1..<chain_length]"

definition chains_total :: "(int \<Rightarrow> int option) \<Rightarrow> nat \<Rightarrow> int option" where
  "chains_total work num_chains = sum_results (replicate num_chains (chain_sum work 5 2000))"

definition chaining_total :: "nat \<Rightarrow> int option" where
  "chaining_total = chains_total cpu_work"

section \<open>The sessions of the pool benchmarks\<close>

lemma given_append: "given (js @ ks) = given js @ given ks"
  by (simp add: given_def)

lemma given_gives [simp]: "given (map (\<lambda>i. Give (b, i)) js) = map (Pair b) js"
  by (induction js) (simp_all add: given_def)

lemma given_awaits [simp]: "given (map (\<lambda>i. Await (b, i)) js) = []"
  by (induction js) (simp_all add: given_def)

lemma burst_jobs_Suc: "burst_jobs (Suc b) n =
    burst_jobs b n @ map (\<lambda>i. Give (b, i)) [0..<n] @ map (\<lambda>i. Await (b, i)) [0..<n]"
  by (simp add: burst_jobs_def)

lemma awaited_append: "awaited (js @ ks) = awaited js @ awaited ks"
  by (simp add: awaited_def)

lemma awaited_gives [simp]: "awaited (map (\<lambda>i. Give (b, i)) js) = []"
  by (induction js) (simp_all add: awaited_def)

lemma awaited_awaits [simp]: "awaited (map (\<lambda>i. Await (b, i)) js) = map (Pair b) js"
  by (induction js) (simp_all add: awaited_def)

lemma awaited_burst_jobs: "awaited (burst_jobs bs n) = concat (map (\<lambda>b. map (Pair b) [0..<n]) [0..<bs])"
  by (induction bs) (simp_all add: burst_jobs_Suc awaited_append, simp add: burst_jobs_def awaited_def)

lemma given_burst_jobs: "given (burst_jobs bs n) = concat (map (\<lambda>b. map (Pair b) [0..<n]) [0..<bs])"
  by (induction bs) (simp_all add: burst_jobs_Suc given_append, simp add: burst_jobs_def given_def)

lemma length_burst_jobs: "length (burst_jobs bs n) = 2 * (bs * n)"
  by (induction bs) (simp_all add: burst_jobs_Suc, simp add: burst_jobs_def)

lemma well_formed_append:
  assumes js: "well_formed js" and ks: "\<And>n t. n < length ks \<Longrightarrow> ks ! n = Await t \<Longrightarrow> t \<in> set (given js) \<union> set (given (take n ks))"
  shows "well_formed (js @ ks)"
  unfolding well_formed_def list_all_length
proof (intro allI impI)
  fix m
  assume "m < length [0..<length (js @ ks)]"
  then have m: "m < length js + length ks" by simp
  show "case (js @ ks) ! ([0..<length (js @ ks)] ! m) of Give t \<Rightarrow> True
      | Await t \<Rightarrow> t \<in> set (given (take ([0..<length (js @ ks)] ! m) (js @ ks)))"
  proof (cases "m < length js")
    case True
    then show ?thesis
      using js m by (auto simp: well_formed_def list_all_length nth_append split: job.splits)
  next
    case False
    then show ?thesis
      using ks [of "m - length js"] m by (auto simp: nth_append given_append split: job.splits)
  qed
qed

lemma burst_jobs_well_formed: "well_formed (burst_jobs bs n)"
proof (induction bs)
  case 0
  then show ?case by (simp add: burst_jobs_def well_formed_def)
next
  case (Suc b)
  let ?gives = "map (\<lambda>i. Give (b, i)) [0..<n]" and ?awaits = "map (\<lambda>i. Await (b, i)) [0..<n]"
  have "t \<in> set (given (take m (?gives @ ?awaits)))"
    if m: "m < length (?gives @ ?awaits)" "(?gives @ ?awaits) ! m = Await t" for m t
  proof -
    have "n \<le> m" "t \<in> Pair b ` {..<n}"
      using m by (auto simp: nth_append split: if_splits)
    then show ?thesis by (auto simp: given_append take_map)
  qed
  with Suc.IH show ?case unfolding burst_jobs_Suc by (intro well_formed_append) auto
qed

text \<open>The pool benchmarks are sessions of one burst, or of five.\<close>

lemma pool_benchmark_ends:
  "finishes (pool_session_step run (Suc v) (burst_jobs bs n)) (pool_session_start (Suc v))
    (\<lambda>conf. pool_complete run (Suc v) (burst_jobs bs n) conf \<or> pool_hung run (Suc v) (burst_jobs bs n) conf)
    (28 * Suc v + 62 * (bs * n) + 6)"
  by (rule live_interleaving.always_finishes [OF pool_session_live [OF burst_jobs_well_formed]])
    (simp add: pool_session_start_rank length_burst_jobs)

section \<open>The totals\<close>

lemma task_value_undefined: "fits (a + int i) \<Longrightarrow> 1861 < a + int i
    \<Longrightarrow> task_value cpu_intensive_task a i = None \<and> task_value cpu_work a i = None \<and> task_value mixed_task a i = None"
  using cpu_task_undefined [of "a + int i"] by (simp add: task_value_def mixed_task_def)

text \<open>Deferring the tasks does not change their total.\<close>

lemma deferred_total_eq: "deferred_total work n = tasks_total work 10000 n"
  by (simp add: deferred_total_def deferred_futures_def tasks_total_def task_value_def sum_results_def foldl_map)

text \<open>When the values are not negative and their sum fits in an \<open>int\<close>, the total is the sum.\<close>

lemma tasks_total_sum:
  assumes "fits (work_size + int n)" "0 \<le> work_size" "\<And>i. i < n \<Longrightarrow> task (work_size + int i) = Some (v i) \<and> 0 \<le> v i"
    and "fits (\<Sum>i<n. v i)"
  shows "tasks_total task work_size n = Some (\<Sum>i<n. v i)"
proof -
  have "map (task_value task work_size) [0..<n] = map Some (map v [0..<n])"
    using assms by (auto simp: task_value_def fits_def)
  moreover have "sum_list (map v [0..<n]) = (\<Sum>i<n. v i)"
    by (simp add: sum_list_distinct_conv_sum_set atLeast0LessThan)
  moreover have "list_all (\<lambda>x. 0 \<le> x) (map v [0..<n])" using assms(3) by (simp add: list_all_iff)
  ultimately show ?thesis using assms(4) by (simp only: tasks_total_def sum_results_nonneg if_True)
qed

lemma sum_results_first:
  assumes "f 0 = None"
  shows "sum_results (map f [0..<Suc n]) = None"
proof (rule sum_results_undefined)
  have "f 0 \<in> f ` set [0..<Suc n]" by (rule imageI) auto
  then show "None \<in> set (map f [0..<Suc n])" using assms by simp
qed

lemma sum_results_all: "sum_results (replicate (Suc n) None) = None"
  by (rule sum_results_undefined) simp

lemma chain_undefined: "work w = None \<Longrightarrow> chain_sum work k w = None"
proof -
  have "foldl (\<lambda>prev step. None) None js = None" for js :: "nat list" by (induction js) simp_all
  then show "work w = None \<Longrightarrow> chain_sum work k w = None" by (simp add: chain_sum_def)
qed

text \<open>A chain adds the work of all its steps.\<close>

lemma chain_sum_value:
  assumes "work w = Some v" "0 \<le> v" "fits (int k * v)" "0 < k"
  shows "chain_sum work k w = Some (int k * v)"
proof -
  have "fits v" using assms by (cases "v = 0") (auto simp: fits_def intro: order_le_less_trans [rotated])
  have "foldl (\<lambda>prev step. add_to prev (work w)) (Some v) [1..<k] = foldl add_to (Some v) (map Some (replicate (k - 1) v))"
  proof -
    have "map Some (replicate (k - 1) v) = map (\<lambda>step. work w) [1..<k]"
      using assms(1) by (simp add: map_replicate_const)
    then show ?thesis by (simp only: foldl_map)
  qed
  also have "\<dots> = Some (int k * v)"
    using assms \<open>fits v\<close> by (subst foldl_add_to_nonneg) (auto simp: list_all_iff sum_list_replicate algebra_simps of_nat_diff)
  finally show ?thesis using assms(1) by (simp add: chain_sum_def)
qed

lemma scalability_1024: "scalability_total 1024 = None"
proof -
  have "cpu_intensive_task (int 976) = Some 309428600"
    using task_loop_value [of 976] squares_closed [of 976] by (simp add: cpu_intensive_task_def loop_value_def)
  then have "scalability_total 1024 = sum_results (map Some (replicate 1024 309428600))"
    by (simp add: scalability_total_def split_total_def)
  also have "\<dots> = None"
    by (subst sum_results_nonneg) (simp_all add: sum_list_replicate fits_def list_all_iff)
  finally show ?thesis .
qed

text \<open>
  C34. Every configuration of the CPU benchmarks that is not empty computes a signed sum that
  overflows, in a task or, for the 1024 small tasks of ThreadPool\_Scalability, in the total of the
  results.  Their behaviour is undefined.
\<close>

theorem cpu_benchmarks_overflow:
  "cpu_bound_total (Suc n) = None \<and> mixed_total (Suc n) = None \<and> burst_result (Suc n) = None
   \<and> async_cpu_total (Suc n) = None \<and> launch_async_total (Suc n) = None \<and> launch_deferred_total (Suc n) = None
   \<and> chaining_total (Suc n) = None \<and> list_all (\<lambda>m. scalability_total m = None) [1, 4, 16, 64, 256, 1024]"
proof -
  have first: "tasks_total cpu_intensive_task 10000 (Suc n) = None" "tasks_total mixed_task 5000 (Suc n) = None"
    "tasks_total cpu_work 10000 (Suc n) = None"
    unfolding tasks_total_def using task_value_undefined [of 10000 0] task_value_undefined [of 5000 0]
    by (intro sum_results_first; simp add: fits_def)+
  moreover have "burst_result (Suc n) = None" "chaining_total (Suc n) = None"
    using sum_results_all [of n] cpu_task_undefined [of 8000] cpu_task_undefined [of 2000]
    by (simp_all add: burst_result_def burst_total_def chaining_total_def chains_total_def chain_undefined)
  moreover have "scalability_total m = None" if "0 < m" "1861 < 1000000 div int m" for m
    using cpu_task_undefined [of "1000000 div int m"] that sum_results_all [of "m - 1"]
    by (simp add: scalability_total_def split_total_def)
  then have "list_all (\<lambda>m. scalability_total m = None) [1, 4, 16, 64, 256, 1024]"
    using scalability_1024 by simp
  ultimately show ?thesis
    by (simp add: cpu_bound_total_def mixed_total_def async_cpu_total_def launch_async_total_def launch_deferred_total_def
        deferred_total_eq)
qed

section \<open>The exceptions\<close>

lemma risky_outcome_throws:
  "(\<exists>e. risky_outcome draws i = Some (Inl e)) \<longleftrightarrow> draws i < rnd64 (1 / 10) \<and> 10 dvd i"
proof -
  have "(int i + 1000) mod 10 = 0 \<longleftrightarrow> 10 dvd i" by presburger
  then show ?thesis
    by (auto simp: risky_outcome_def risky_work_def bind_eq_Some_conv split: if_splits)
qed

lemma collect_count:
  "snd (foldl collect_outcome acc xs) = snd acc + length (filter (\<lambda>x. \<exists>e. x = Some (Inl e)) xs)"
proof (induction xs arbitrary: acc)
  case Nil
  then show ?case by simp
next
  case (Cons x xs)
  then show ?case by (cases "(acc, x)" rule: collect_outcome.cases) auto
qed

text \<open>
  StdAsync\_ExceptionHandling counts the exceptions exactly: the tasks whose draw is below the
  rate and whose index is a multiple of 10.  So whatever the draws are, at most one task in ten
  throws; at the rate of 10 per cent that the comment states for the tasks, one in a hundred does.
\<close>

theorem exception_count_bound:
  "snd (exception_handling draws n) = card {i. i < n \<and> draws i < rnd64 (1 / 10) \<and> 10 dvd i}
   \<and> snd (exception_handling draws n) \<le> (n + 9) div 10"
proof -
  have "snd (exception_handling draws n)
      = length (filter (\<lambda>i. draws i < rnd64 (1 / 10) \<and> 10 dvd i) [0..<n])"
    by (simp add: exception_handling_def collect_count filter_map comp_def risky_outcome_throws)
  also have "\<dots> = card {i. i < n \<and> draws i < rnd64 (1 / 10) \<and> 10 dvd i}"
    by (subst distinct_card [symmetric]) (auto intro!: arg_cong [of _ _ card])
  finally have count: "snd (exception_handling draws n) = card {i. i < n \<and> draws i < rnd64 (1 / 10) \<and> 10 dvd i}" .
  have "{i. i < n \<and> draws i < rnd64 (1 / 10) \<and> 10 dvd i} \<subseteq> (\<lambda>k. 10 * k) ` {..<(n + 9) div 10}"
    by (auto simp: dvd_def)
  then have "card {i. i < n \<and> draws i < rnd64 (1 / 10) \<and> 10 dvd i} \<le> card ((\<lambda>k. 10 * k) ` {..<(n + 9) div 10})"
    by (intro card_mono) auto
  also have "\<dots> \<le> (n + 9) div 10" by (rule order_trans [OF card_image_le]) simp_all
  finally show ?thesis using count by simp
qed

lemma timeout_counts_sum: "(case timeout_counts is_ready n of (completed, timeouts) \<Rightarrow> completed + timeouts) = n"
  by (induction n) (auto simp: timeout_counts_def split: prod.splits)

end
