(* ===== verification/Promises.thy ===== *)
theory Promises
  imports Tasks
begin

text \<open>
  One iteration of \<open>ManualPromiseFuture\<close> of src/bench\_async\_future.cpp: worker threads draw task
  numbers with \<open>task_index.fetch_add(1)\<close> and set the promise of each number below \<open>num_tasks\<close>;
  the main thread joins them and then gets all the futures.  The index is an atomic \<open>int\<close>: a word of 32
  bits, whose \<open>fetch_add\<close> wraps, read as signed.  \<open>work idx\<close> is the result of the task.
  Setting a promise twice would throw, inside the handler too, and setting one that does not exist is
  undefined: both set \<open>promise_error\<close> here.
\<close>

section \<open>The program\<close>

record 'r promise_state =
  task_index :: "32 word"
  promises :: "'r option list"
  promise_error :: bool

datatype promise_pc =
    Pm_Spawn nat | Pm_Join nat | Pm_Get nat | Pm_Done
  | Pw_Unborn | Pw_Fetch | Pw_Set int | Pw_Done

definition set_value :: "int \<Rightarrow> 'r \<Rightarrow> 'r promise_state \<Rightarrow> 'r promise_state" where
  "set_value idx v s =
     (if 0 \<le> idx \<and> idx < int (length (promises s)) \<and> promises s ! nat idx = None
      then s\<lparr>promises := (promises s)[nat idx := Some v]\<rparr>
      else s\<lparr>promise_error := True\<rparr>)"

fun launched :: "promise_pc \<Rightarrow> nat \<Rightarrow> bool" where
  "launched (Pm_Spawn k) i = (i \<le> k)"
| "launched p i = True"

definition promise_step :: "(int \<Rightarrow> 'r) \<Rightarrow> nat \<Rightarrow> nat \<Rightarrow> (promise_pc, 'r promise_state) stepper" where
  "promise_step work num_tasks num_threads i ts s =
     (case ts ! i of
        Pm_Spawn k \<Rightarrow> [(if k < num_threads then Pm_Spawn (Suc k) else Pm_Join 0, s)]
      | Pm_Join k \<Rightarrow>
          if k < num_threads then if ts ! Suc k = Pw_Done then [(Pm_Join (Suc k), s)] else []
          else [(Pm_Get 0, s)]
      | Pm_Get k \<Rightarrow>
          if k < num_tasks then if promises s ! k \<noteq> None then [(Pm_Get (Suc k), s)] else []
          else [(Pm_Done, s)]
      | Pm_Done \<Rightarrow> []
      | Pw_Unborn \<Rightarrow> if launched (ts ! 0) i then [(Pw_Fetch, s)] else []
      | Pw_Fetch \<Rightarrow>
          [(if int num_tasks \<le> sint (task_index s) then Pw_Done else Pw_Set (sint (task_index s)),
            s\<lparr>task_index := task_index s + 1\<rparr>)]
      | Pw_Set idx \<Rightarrow> [(Pw_Fetch, set_value idx (work idx) s)]
      | Pw_Done \<Rightarrow> [])"

definition promise_start :: "nat \<Rightarrow> nat \<Rightarrow> (promise_pc, 'r promise_state) conf" where
  "promise_start num_tasks num_threads =
     (Pm_Spawn 0 # replicate num_threads Pw_Unborn,
      \<lparr>task_index = 0, promises = replicate num_tasks None, promise_error = False\<rparr>)"

definition promise_total :: "int option promise_state \<Rightarrow> int option" where
  "promise_total s = sum_results (map (\<lambda>v. Option.bind v id) (promises s))"

section \<open>The invariant\<close>

fun is_worker :: "promise_pc \<Rightarrow> bool" where
  "is_worker (Pm_Spawn k) = False"
| "is_worker (Pm_Join k) = False"
| "is_worker (Pm_Get k) = False"
| "is_worker Pm_Done = False"
| "is_worker p = True"

fun joined_workers :: "nat \<Rightarrow> promise_pc \<Rightarrow> nat" where
  "joined_workers w (Pm_Join k) = k"
| "joined_workers w (Pm_Get k) = w"
| "joined_workers w Pm_Done = w"
| "joined_workers w p = 0"

text \<open>
  Every number drawn is being worked on by one thread, or its promise is set.  The draws are \<open>num_tasks\<close>
  and one more for every worker that has ended.
\<close>

definition promise_inv :: "(int \<Rightarrow> 'r) \<Rightarrow> nat \<Rightarrow> nat \<Rightarrow> (promise_pc, 'r promise_state) conf \<Rightarrow> bool" where
  "promise_inv work n w conf = (case conf of (ts, s) \<Rightarrow>
     length ts = Suc w \<and> length (promises s) = n \<and> \<not> promise_error s \<and>
     (\<forall>idx < n. tsum (\<lambda>t. of_bool (t = Pw_Set (int idx))) ts + of_bool (promises s ! idx \<noteq> None)
        = (of_bool (idx < unat (task_index s)) :: nat)) \<and>
     (\<forall>idx < n. promises s ! idx = None \<or> promises s ! idx = Some (work (int idx))) \<and>
     tsum (\<lambda>t. of_bool (t = Pw_Done)) ts = unat (task_index s) - n \<and>
     (\<forall>i < length ts. is_worker (ts ! i) \<longleftrightarrow> 0 < i) \<and>
     (\<forall>i < length ts. \<forall>idx. ts ! i = Pw_Set idx \<longrightarrow> 0 \<le> idx \<and> idx < int n) \<and>
     joined_workers w (ts ! 0) \<le> w \<and> (\<forall>j < joined_workers w (ts ! 0). ts ! Suc j = Pw_Done))"

lemma promise_slot:
  "promise_inv work n w (ts, s) \<Longrightarrow> idx < n
    \<Longrightarrow> tsum (\<lambda>t. of_bool (t = Pw_Set (int idx))) ts + of_bool (promises s ! idx \<noteq> None)
      = (of_bool (idx < unat (task_index s)) :: nat)"
  unfolding promise_inv_def by blast

text \<open>While a worker has still to draw, the index is below the sign bit, and does not wrap.\<close>

lemma drawn_bound:
  assumes inv: "promise_inv work n w (ts, s)" and i: "i < length ts" "ts ! i = Pw_Fetch" and small: "n + w \<le> 2 ^ 31"
  shows "unat (task_index s) < n + w" "sint (task_index s) = int (unat (task_index s))"
    "unat (task_index s + 1) = unat (task_index s) + 1" "int n \<le> sint (task_index s) \<longleftrightarrow> n \<le> unat (task_index s)"
proof -
  let ?d = "\<lambda>t. of_bool (t = Pw_Done) :: nat"
  have len: "length ts = Suc w" and ended: "tsum ?d ts = unat (task_index s) - n" and "\<not> is_worker (ts ! 0)"
    using inv by (auto simp: promise_inv_def)
  then have i0: "0 < i" and "ts ! 0 \<noteq> Pw_Done" using i by (metis gr0I is_worker.simps)+
  obtain m us where ts: "ts = m # us" "length us = w" using len by (cases ts) auto
  have "tsum ?d (us[i - 1 := Pw_Done]) \<le> 1 * length (us[i - 1 := Pw_Done])" by (rule tsum_bounded) simp
  moreover have "tsum ?d (us[i - 1 := Pw_Done]) = tsum ?d us + 1"
    using tsum_update [of "i - 1" us ?d Pw_Done] i i0 ts by (simp add: nth_Cons')
  moreover have "tsum ?d us = tsum ?d ts" using ts \<open>ts ! 0 \<noteq> Pw_Done\<close> by simp
  ultimately have "tsum ?d ts + 1 \<le> w" using ts(2) by simp
  then show less: "unat (task_index s) < n + w" using ended by linarith
  then have small': "unat (task_index s) < 2 ^ 31" using small by linarith
  then show sint: "sint (task_index s) = int (unat (task_index s))" by (rule sint_small)
  show "int n \<le> sint (task_index s) \<longleftrightarrow> n \<le> unat (task_index s)" unfolding sint by (rule of_nat_le_iff)
  have "task_index s + 1 = word_of_nat (unat (task_index s) + 1)" by simp
  then have "unat (task_index s + 1) = (unat (task_index s) + 1) mod 2 ^ 32" by (simp only: unat_of_nat) simp
  then show "unat (task_index s + 1) = unat (task_index s) + 1" using small' by simp
qed

lemma promise_start_inv: "promise_inv work n w (promise_start n w)"
  by (auto simp: promise_inv_def promise_start_def nth_Cons')

lemma promise_main_keeps:
  assumes inv: "promise_inv work n w (ts, s)"
    and st: "(l, s') \<in> set (promise_step work n w 0 ts s)"
  shows "promise_inv work n w (ts[0 := l], s')"
proof -
  have 0: "0 < length ts" "\<not> is_worker (ts ! 0)" using inv by (auto simp: promise_inv_def)
  have l: "s' = s" "\<not> is_worker l" using st 0(2) by (cases "ts ! 0"; auto simp: promise_step_def split: if_splits)+
  have "joined_workers w l \<le> w \<and> (\<forall>j < joined_workers w l. ts ! Suc j = Pw_Done)"
    using inv st 0(2) by (cases "ts ! 0") (auto simp: promise_inv_def promise_step_def less_Suc_eq split: if_splits)
  moreover have "tsum (\<lambda>t. of_bool (t = p)) (ts[0 := l]) = (tsum (\<lambda>t. of_bool (t = p)) ts :: nat)" if "is_worker p" for p
    using tsum_update [OF 0(1), of "\<lambda>t. of_bool (t = p)" l] that 0(2) l(2) by (cases "l = p"; cases "ts ! 0 = p") auto
  moreover have "l \<noteq> Pw_Set idx" for idx using l(2) by auto
  ultimately show ?thesis
    using inv l 0 unfolding promise_inv_def by (auto simp: nth_list_update)
qed

lemma promise_worker_keeps:
  assumes inv: "promise_inv work n w (ts, s)" and i: "0 < i" "i < length ts" and small: "n + w \<le> 2 ^ 31"
    and st: "(l, s') \<in> set (promise_step work n w i ts s)"
  shows "promise_inv work n w (ts[i := l], s')"
proof -
  have wk: "is_worker (ts ! i)" using inv i by (auto simp: promise_inv_def)
  have l: "is_worker l" "ts ! i \<noteq> Pw_Done"
    using st wk by (cases "ts ! i"; auto simp: promise_step_def split: if_splits)+
  have count: "tsum (\<lambda>t. of_bool (t = p)) (ts[i := l]) + of_bool (ts ! i = p)
      = (tsum (\<lambda>t. of_bool (t = p)) ts + of_bool (l = p) :: nat)" for p
    using tsum_update [OF i(2), of "\<lambda>t. of_bool (t = p)" l] by simp
  have others: "ts[i := l] ! Suc j = Pw_Done" if "j < joined_workers w (ts ! 0)" for j
  proof -
    have "ts ! Suc j = Pw_Done" using inv that by (auto simp: promise_inv_def)
    with l(2) show ?thesis by (metis nth_list_update_neq)
  qed
  note slots = promise_slot [OF inv]
  have ended: "tsum (\<lambda>t. of_bool (t = Pw_Done)) ts = unat (task_index s) - n"
    using inv by (simp add: promise_inv_def)
  show ?thesis
  proof (cases "ts ! i")
    case Pw_Unborn
    then have s': "s' = s" "l = Pw_Fetch" using st by (auto simp: promise_step_def split: if_splits)
    have "tsum (\<lambda>t. of_bool (t = p)) (ts[i := l]) = (tsum (\<lambda>t. of_bool (t = p)) ts :: nat)"
      if "p = Pw_Done \<or> (\<exists>idx. p = Pw_Set idx)" for p
      using count [of p] that s' Pw_Unborn by auto
    then show ?thesis
      using inv s' others l(1) i by (auto simp: promise_inv_def nth_list_update)
  next
    case Pw_Fetch
    obtain k where k: "unat (task_index s) = k" by simp
    note drawn = drawn_bound [OF inv i(2) Pw_Fetch small, unfolded k]
    have s': "s' = s\<lparr>task_index := task_index s + 1\<rparr>" and lf: "l = (if k < n then Pw_Set (int k) else Pw_Done)"
      using st Pw_Fetch drawn(2,4) by (simp_all add: promise_step_def)
    have "tsum (\<lambda>t. of_bool (t = Pw_Set (int idx))) (ts[i := l]) + of_bool (promises s ! idx \<noteq> None)
        = (of_bool (idx < k + 1) :: nat)" if "idx < n" for idx
      using slots [OF that] count [of "Pw_Set (int idx)"] lf Pw_Fetch that unfolding k by (auto split: if_splits)
    moreover have "tsum (\<lambda>t. of_bool (t = Pw_Done)) (ts[i := l]) = k + 1 - n"
      using ended count [of Pw_Done] lf Pw_Fetch unfolding k by (auto split: if_splits)
    ultimately show ?thesis
      using inv others l(1) lf i drawn(3) unfolding s' by (auto simp: promise_inv_def nth_list_update split: if_splits)
  next
    case (Pw_Set z)
    then obtain x where z: "z = int x" "x < n" using inv i by (cases z) (auto simp: promise_inv_def)
    have lx: "l = Pw_Fetch" and s': "s' = set_value (int x) (work (int x)) s"
      using st i Pw_Set z by (auto simp: promise_step_def)
    have "tsum (\<lambda>t. of_bool (t = Pw_Set (int x))) ts \<noteq> (0 :: nat)"
      using tsum_member [OF i(2), of "\<lambda>t. of_bool (t = Pw_Set (int x))"] Pw_Set z by simp
    then have free: "promises s ! x = None" "x < unat (task_index s)" "tsum (\<lambda>t. of_bool (t = Pw_Set (int x))) ts = (1 :: nat)"
      using slots [OF z(2)] by (cases "promises s ! x"; cases "x < unat (task_index s)"; simp)+
    have set: "s' = s\<lparr>promises := (promises s)[x := Some (work (int x))]\<rparr>"
      using inv free(1) z(2) by (simp add: s' set_value_def promise_inv_def)
    have "tsum (\<lambda>t. of_bool (t = Pw_Set (int idx))) (ts[i := l]) + of_bool (promises s' ! idx \<noteq> None)
        = (of_bool (idx < unat (task_index s)) :: nat)" if "idx < n" for idx
      using slots [OF that] count [of "Pw_Set (int idx)"] lx Pw_Set z free inv that
      by (cases "idx = x") (auto simp: set promise_inv_def)
    moreover have "tsum (\<lambda>t. of_bool (t = Pw_Done)) (ts[i := l]) = unat (task_index s) - n"
      using ended count [of Pw_Done] lx Pw_Set by simp
    moreover have "promises s' ! idx = None \<or> promises s' ! idx = Some (work (int idx))" if "idx < n" for idx
      using inv that by (cases "idx = x") (auto simp: set promise_inv_def)
    ultimately show ?thesis
      using inv others l(1) lx i unfolding set promise_inv_def by (auto simp: nth_list_update)
  qed (use wk l in auto)
qed

lemma promise_keeps:
  assumes "n + w \<le> 2 ^ 31" "promise_inv work n w (ts, s)" "i < length ts" "(l, s') \<in> set (promise_step work n w i ts s)"
  shows "promise_inv work n w (ts[i := l], s')"
  using promise_main_keeps [of work n w ts s l s'] promise_worker_keeps [of work n w ts s i l s'] assms
  by (cases "i = 0") auto

section \<open>It always finishes\<close>

definition promise_done :: "(int \<Rightarrow> 'r) \<Rightarrow> nat \<Rightarrow> nat \<Rightarrow> (promise_pc, 'r promise_state) conf \<Rightarrow> bool" where
  "promise_done work n w conf = (case conf of (ts, s) \<Rightarrow>
     ts = Pm_Done # replicate w Pw_Done \<and> \<not> promise_error s \<and> promises s = map (\<lambda>i. Some (work (int i))) [0..<n]
     \<and> unat (task_index s) = n + w)"

lemma promise_stuck:
  assumes inv: "promise_inv work n (Suc w) (ts, s)"
    and stuck: "\<And>i. i < length ts \<Longrightarrow> promise_step work n (Suc w) i ts s = []"
  shows "promise_done work n (Suc w) (ts, s)"
proof -
  have len: "length ts = Suc (Suc w)" and m: "\<not> is_worker (ts ! 0)"
    and wk: "\<And>i. 0 < i \<Longrightarrow> i < length ts \<Longrightarrow> is_worker (ts ! i)"
    using inv by (auto simp: promise_inv_def)
  have started: "launched (ts ! 0) i" for i
    using stuck [of 0] len by (cases "ts ! 0") (auto simp: promise_step_def)
  have all: "ts ! i = Pw_Done" if "0 < i" "i < length ts" for i
    using stuck [OF that(2)] wk [OF that] started by (cases "ts ! i") (auto simp: promise_step_def)
  then have ts: "ts = ts ! 0 # replicate (Suc w) Pw_Done"
    using len by (intro nth_equalityI) (auto simp: nth_Cons' simp del: replicate_Suc)
  moreover have "tsum (\<lambda>t. of_bool (t = Pw_Done)) (ts ! 0 # replicate (Suc w) Pw_Done) = Suc w"
    using m by (cases "ts ! 0") simp_all
  ultimately have "unat (task_index s) - n = Suc w" using inv by (simp add: promise_inv_def)
  then have drawn: "unat (task_index s) = n + Suc w" by linarith
  have idle: "tsum (\<lambda>t. of_bool (t = Pw_Set idx)) ts = (0 :: nat)" for idx
  proof -
    have "ts ! 0 \<noteq> Pw_Set idx" using m by auto
    then show ?thesis by (subst ts) simp
  qed
  have set: "promises s ! idx = Some (work (int idx))" if "idx < n" for idx
  proof -
    have "of_bool (promises s ! idx \<noteq> None) = (of_bool (idx < unat (task_index s)) :: nat)"
      using promise_slot [OF inv that] idle [of "int idx"] by simp
    then have "promises s ! idx \<noteq> None" using that drawn by (cases "promises s ! idx") simp_all
    then show ?thesis using inv that by (auto simp: promise_inv_def)
  qed
  then have "promises s = map (\<lambda>i. Some (work (int i))) [0..<n]"
    using inv by (intro nth_equalityI) (auto simp: promise_inv_def)
  moreover have "ts ! 0 = Pm_Done"
    using stuck [of 0] len m all set by (cases "ts ! 0") (auto simp: promise_step_def split: if_splits)
  ultimately show ?thesis using ts drawn inv by (simp add: promise_done_def promise_inv_def)
qed

fun promise_rank1 :: "nat \<Rightarrow> nat \<Rightarrow> promise_pc \<Rightarrow> nat" where
  "promise_rank1 n w (Pm_Spawn k) = (w - k) + w + n + 3"
| "promise_rank1 n w (Pm_Join k) = (w - k) + n + 2"
| "promise_rank1 n w (Pm_Get k) = (n - k) + 1"
| "promise_rank1 n w Pm_Done = 0"
| "promise_rank1 n w Pw_Unborn = 3"
| "promise_rank1 n w Pw_Fetch = 2"
| "promise_rank1 n w (Pw_Set idx) = 3"
| "promise_rank1 n w Pw_Done = 0"

definition promise_rank :: "nat \<Rightarrow> nat \<Rightarrow> (promise_pc, 'r promise_state) conf \<Rightarrow> nat" where
  "promise_rank n w conf = (case conf of (ts, s) \<Rightarrow> tsum (promise_rank1 n w) ts + 2 * (n - unat (task_index s)))"

lemma promise_decrease:
  assumes small: "n + w \<le> 2 ^ 31" and inv: "promise_inv work n w (ts, s)" and i: "i < length ts"
    and st: "(l, s') \<in> set (promise_step work n w i ts s)"
  shows "promise_rank n w (ts[i := l], s') < promise_rank n w (ts, s)"
proof -
  have "promise_rank1 n w l + 2 * (n - unat (task_index s')) < promise_rank1 n w (ts ! i) + 2 * (n - unat (task_index s))"
  proof (cases "ts ! i = Pw_Fetch")
    case True
    with st drawn_bound [OF inv i True small] show ?thesis by (auto simp: promise_step_def split: if_splits)
  next
    case False
    with st show ?thesis by (cases "ts ! i") (auto simp: promise_step_def set_value_def split: if_splits)
  qed
  then show ?thesis
    using tsum_update [OF i, of "promise_rank1 n w" l] by (simp add: promise_rank_def)
qed

lemma promise_live:
  assumes "n + Suc w \<le> 2 ^ 31"
  shows "live_interleaving (promise_step work n (Suc w)) (promise_start n (Suc w)) (promise_inv work n (Suc w))
    (promise_done work n (Suc w)) (promise_rank n (Suc w))"
  using promise_start_inv promise_keeps [OF assms] promise_stuck promise_decrease [OF assms] by (rule live_by_measure)

lemma promises_finish:
  assumes "n + Suc w \<le> 2 ^ 31"
  shows "finishes (promise_step work n (Suc w)) (promise_start n (Suc w)) (promise_done work n (Suc w)) (3 * n + 5 * Suc w + 3)"
  by (rule live_interleaving.always_finishes [OF promise_live [OF assms]]) (simp add: promise_rank_def promise_start_def)

text \<open>
  The indices in use: a worker holds that of an existing promise which is not set yet, and the main thread
  gets no more futures than there are.
\<close>

fun promise_index_ok :: "nat \<Rightarrow> 'r promise_state \<Rightarrow> promise_pc \<Rightarrow> bool" where
  "promise_index_ok n s (Pw_Set idx) = (0 \<le> idx \<and> idx < int n \<and> promises s ! nat idx = None)"
| "promise_index_ok n s (Pm_Get k) = (k \<le> n)"
| "promise_index_ok n s p = True"

lemma promise_gets:
  assumes "steps (promise_step work n w) (promise_start n w) (ts, s)"
  shows "list_all (\<lambda>t. \<forall>k. t = Pm_Get k \<longrightarrow> k \<le> n) ts"
proof -
  have "interleaving (promise_step work n w) (promise_start n w) (\<lambda>(ts, s). list_all (\<lambda>t. \<forall>k. t = Pm_Get k \<longrightarrow> k \<le> n) ts)"
    by unfold_locales
      (auto simp: promise_start_def promise_step_def list_all_length nth_list_update nth_Cons'
        split: promise_pc.splits if_splits)
  from interleaving.reach_inv [OF this assms] show ?thesis by simp
qed

lemma promise_indices:
  assumes small: "n + Suc w \<le> 2 ^ 31" and run: "steps (promise_step work n (Suc w)) (promise_start n (Suc w)) (ts, s)"
  shows "\<not> promise_error s \<and> length (promises s) = n \<and> list_all (promise_index_ok n s) ts"
proof -
  have inv: "promise_inv work n (Suc w) (ts, s)"
    using run by (rule interleaving.reach_inv [OF live_interleaving.axioms(1) [OF promise_live [OF small]]])
  have "promise_index_ok n s (ts ! i)" if i: "i < length ts" for i
  proof (cases "ts ! i")
    case (Pm_Get k)
    then show ?thesis using promise_gets [OF run] i by (auto simp: list_all_length)
  next
    case (Pw_Set z)
    then obtain x where z: "z = int x" "x < n" using inv i by (cases z) (auto simp: promise_inv_def)
    have "tsum (\<lambda>t. of_bool (t = Pw_Set (int x))) ts \<noteq> (0 :: nat)"
      using tsum_member [OF i, of "\<lambda>t. of_bool (t = Pw_Set (int x))"] Pw_Set z by simp
    then have "promises s ! x = None"
      using promise_slot [OF inv z(2)] by (cases "promises s ! x"; cases "x < unat (task_index s)"; simp)
    then show ?thesis using Pw_Set z by simp
  qed simp_all
  then show ?thesis using inv by (simp add: promise_inv_def list_all_length)
qed

text \<open>
  With \<open>hardware_concurrency() == 0\<close>, which the standard allows when the number is unknown, no
  worker is started: every run of ManualPromiseFuture with at least one task ends with the main
  thread blocked for ever in \<open>get\<close> on the first future.
\<close>

theorem promises_without_workers:
  "finishes (promise_step work (Suc n) 0) (promise_start (Suc n) 0)
    (\<lambda>(ts, s). ts = [Pm_Get 0] \<and> promises s = replicate (Suc n) None) 3"
proof -
  let ?s = "\<lparr>task_index = 0, promises = replicate (Suc n) None, promise_error = False\<rparr>"
  let ?inv = "\<lambda>(ts, s). s = ?s \<and> (\<exists>p. ts = [p] \<and> p \<in> {Pm_Spawn 0, Pm_Join 0, Pm_Get 0})"
  let ?rank = "\<lambda>(ts, s). tsum (\<lambda>p. case p of Pm_Spawn k \<Rightarrow> 2 | Pm_Join k \<Rightarrow> 1 | _ \<Rightarrow> 0) ts"
  have "live_interleaving (promise_step work (Suc n) 0) (promise_start (Suc n) 0) ?inv
    (\<lambda>(ts, s). ts = [Pm_Get 0] \<and> promises s = replicate (Suc n) None) ?rank"
    by (rule live_by_measure) (auto simp: promise_start_def promise_step_def split: if_splits)
  then show ?thesis
    by (rule live_interleaving.always_finishes) (simp add: promise_start_def)
qed

text \<open>
  C27. ManualPromiseFuture.  With at least one worker, and as long as the draws do not wrap the 32-bit
  index (one draw per task and one more per worker, \<open>2 ^ 31\<close> in all), every run of an iteration ends with all threads
  joined; every promise has been set exactly once, with the result of its own task, whichever thread has
  drawn it, and no other index has been set.  The index overshoots by one draw per worker, and no more.
  Without workers, when \<open>hardware_concurrency()\<close> is 0, and with at least one task, every run ends with
  the main thread blocked for ever on the first future and no promise set.
\<close>

theorem promises_set_once:
  assumes "n + Suc w \<le> 2 ^ 31"
  shows "finishes (promise_step work n (Suc w)) (promise_start n (Suc w)) (promise_done work n (Suc w))
      (3 * n + 5 * Suc w + 3)
    \<and> finishes (promise_step work (Suc m) 0) (promise_start (Suc m) 0)
      (\<lambda>(ts, s). ts = [Pm_Get 0] \<and> promises s = replicate (Suc m) None) 3"
  using promises_finish [OF assms] promises_without_workers by (rule conjI)

theorem promises_set_once_witness:
  "finishes (promise_step (\<lambda>i. i) 256 8) (promise_start 256 8) (promise_done (\<lambda>i. i) 256 8) 811"
  using promises_set_once [of 256 7 "\<lambda>i. i" 0] by simp

end
