(* ===== verification/Condvar_Queue.thy ===== *)
theory Condvar_Queue
  imports Clients Signed_Int
begin

text \<open>
  The queue of src/bench\_pc\_condvar.cpp: a \<open>std::queue<int>\<close> and the flag \<open>done\<close> behind a mutex and
  a condition variable.  The operations are what the lambdas and the main function do with it:
  \<open>Put\<close> is one round of a producer, \<open>Next\<close> one round of a consumer, which returns the item or
  nothing once the queue is empty and done, and \<open>Finish\<close> sets the flag.  The logs are history
  variables.
\<close>

section \<open>The queue\<close>

record cv_queue =
  cv_mtx :: bool
  cv_items :: "int list"
  cv_waiters :: "nat list"
  cv_done :: bool
  cv_in :: "int list"
  cv_out :: "int list"

definition cv_queue_ctor :: cv_queue where
  "cv_queue_ctor = \<lparr>cv_mtx = False, cv_items = [], cv_waiters = [], cv_done = False, cv_in = [], cv_out = []\<rparr>"

datatype cv_pc =
    Put_Lock int | Put_Push int | Put_Unlock | Put_Notify
  | Nx_Lock | Nx_Test | Nx_Wait | Nx_Blocked | Nx_Relock | Nx_Check | Nx_Break | Nx_Take | Nx_Unlock int
  | Fin_Lock | Fin_Set | Fin_Unlock | Fin_Notify

datatype cv_op = Put int | Next | Finish

datatype cv_ret = Void | Item "int option"

fun cv_entry :: "cv_op \<Rightarrow> cv_pc" where
  "cv_entry (Put v) = Put_Lock v"
| "cv_entry Next = Nx_Lock"
| "cv_entry Finish = Fin_Lock"

fun cv_step :: "bool \<Rightarrow> nat \<Rightarrow> cv_pc \<Rightarrow> cv_queue \<Rightarrow> ((cv_pc + cv_ret) \<times> cv_queue) list" where
  "cv_step spurious i (Put_Lock v) q = (if cv_mtx q then [] else [(Inl (Put_Push v), q\<lparr>cv_mtx := True\<rparr>)])"
| "cv_step spurious i (Put_Push v) q =
     [(Inl Put_Unlock, q\<lparr>cv_items := cv_items q @ [v], cv_in := cv_in q @ [v]\<rparr>)]"
| "cv_step spurious i Put_Unlock q = [(Inl Put_Notify, q\<lparr>cv_mtx := False\<rparr>)]"
| "cv_step spurious i Put_Notify q = map (\<lambda>ws. (Inr Void, q\<lparr>cv_waiters := ws\<rparr>)) (notify_one (cv_waiters q))"
| "cv_step spurious i Nx_Lock q = (if cv_mtx q then [] else [(Inl Nx_Test, q\<lparr>cv_mtx := True\<rparr>)])"
| "cv_step spurious i Nx_Test q = [(Inl (if cv_items q \<noteq> [] \<or> cv_done q then Nx_Check else Nx_Wait), q)]"
| "cv_step spurious i Nx_Wait q = [(Inl Nx_Blocked, q\<lparr>cv_mtx := False, cv_waiters := cv_waiters q @ [i]\<rparr>)]"
| "cv_step spurious i Nx_Blocked q =
     (if i \<in> set (cv_waiters q)
      then if spurious then [(Inl Nx_Relock, q\<lparr>cv_waiters := removeAll i (cv_waiters q)\<rparr>)] else []
      else [(Inl Nx_Relock, q)])"
| "cv_step spurious i Nx_Relock q = (if cv_mtx q then [] else [(Inl Nx_Test, q\<lparr>cv_mtx := True\<rparr>)])"
| "cv_step spurious i Nx_Check q = [(Inl (if cv_items q = [] \<and> cv_done q then Nx_Break else Nx_Take), q)]"
| "cv_step spurious i Nx_Break q = [(Inr (Item None), q\<lparr>cv_mtx := False\<rparr>)]"
| "cv_step spurious i Nx_Take q =
     [(Inl (Nx_Unlock (hd (cv_items q))), q\<lparr>cv_items := tl (cv_items q), cv_out := cv_out q @ [hd (cv_items q)]\<rparr>)]"
| "cv_step spurious i (Nx_Unlock v) q = [(Inr (Item (Some v)), q\<lparr>cv_mtx := False\<rparr>)]"
| "cv_step spurious i Fin_Lock q = (if cv_mtx q then [] else [(Inl Fin_Set, q\<lparr>cv_mtx := True\<rparr>)])"
| "cv_step spurious i Fin_Set q = [(Inl Fin_Unlock, q\<lparr>cv_done := True\<rparr>)]"
| "cv_step spurious i Fin_Unlock q = [(Inl Fin_Notify, q\<lparr>cv_mtx := False\<rparr>)]"
| "cv_step spurious i Fin_Notify q = [(Inr Void, q\<lparr>cv_waiters := []\<rparr>)]"

section \<open>Its invariant\<close>

fun cv_holds :: "cv_pc \<Rightarrow> nat" where
  "cv_holds (Put_Lock v) = 0"
| "cv_holds Put_Notify = 0"
| "cv_holds Nx_Lock = 0"
| "cv_holds Nx_Blocked = 0"
| "cv_holds Nx_Relock = 0"
| "cv_holds Fin_Lock = 0"
| "cv_holds Fin_Notify = 0"
| "cv_holds _ = 1"

text \<open>
  A call that will look for an item, or wake a waiter for it.  A waiter is one of them, so they are
  at least as many as the waiters and the items together.
\<close>

fun cv_active :: "cv_pc \<Rightarrow> nat" where
  "cv_active Put_Unlock = 1"
| "cv_active Put_Notify = 1"
| "cv_active Nx_Lock = 1"
| "cv_active Nx_Test = 1"
| "cv_active Nx_Blocked = 1"
| "cv_active Nx_Relock = 1"
| "cv_active Nx_Check = 1"
| "cv_active Nx_Take = 1"
| "cv_active _ = 0"

fun cv_finishing :: "cv_pc \<Rightarrow> nat" where
  "cv_finishing Fin_Unlock = 1"
| "cv_finishing Fin_Notify = 1"
| "cv_finishing _ = 0"

fun cv_assert :: "cv_queue \<Rightarrow> cv_pc \<Rightarrow> bool" where
  "cv_assert q Nx_Wait = (cv_items q = [] \<and> \<not> cv_done q)"
| "cv_assert q Nx_Check = (cv_items q \<noteq> [] \<or> cv_done q)"
| "cv_assert q Nx_Break = (cv_items q = [] \<and> cv_done q)"
| "cv_assert q Nx_Take = (cv_items q \<noteq> [])"
| "cv_assert q _ = True"

definition cv_inv :: "cv_pc option list \<Rightarrow> cv_queue \<Rightarrow> bool" where
  "cv_inv qs q \<longleftrightarrow>
     tsum (case_option 0 cv_holds) qs = of_bool (cv_mtx q) \<and>
     distinct (cv_waiters q) \<and>
     (\<forall>w \<in> set (cv_waiters q). w < length qs \<and> qs ! w = Some Nx_Blocked) \<and>
     (cv_waiters q \<noteq> [] \<and> cv_items q \<noteq> []
        \<longrightarrow> length (cv_items q) + length (cv_waiters q) \<le> tsum (case_option 0 cv_active) qs) \<and>
     (cv_waiters q \<noteq> [] \<and> cv_done q \<longrightarrow> 0 < tsum (case_option 0 cv_finishing) qs) \<and>
     cv_in q = cv_out q @ cv_items q \<and>
     list_all (case_option True (cv_assert q)) qs"

lemma cv_step_frame:
  "(r, q') \<in> set (cv_step sp i k q) \<Longrightarrow> (cv_done q \<longrightarrow> cv_done q')
    \<and> (cv_items q' = cv_items q \<and> cv_done q' = cv_done q \<or> cv_holds k = 1)"
  by (cases k) (auto split: if_splits)

lemma cv_assert_frame:
  "cv_assert q k \<Longrightarrow> cv_items q' = cv_items q \<and> cv_done q' = cv_done q \<or> cv_holds k = 0 \<Longrightarrow> cv_assert q' k"
  by (cases k) auto

lemma cv_step_mtx:
  "(r, q') \<in> set (cv_step sp i k q) \<Longrightarrow> m' + cv_holds k = m + case_option 0 cv_holds (still r)
    \<Longrightarrow> m = of_bool (cv_mtx q) \<Longrightarrow> cv_holds k \<le> m \<Longrightarrow> m' = of_bool (cv_mtx q')"
  by (cases "cv_mtx q"; cases k) (auto split: if_splits)

lemma cv_step_assert:
  "(Inl k', q') \<in> set (cv_step sp i k q) \<Longrightarrow> cv_assert q k \<Longrightarrow> cv_assert q' k'"
  by (cases k) (auto split: if_splits)

lemma cv_step_logs:
  "(r, q') \<in> set (cv_step sp i k q) \<Longrightarrow> cv_assert q k \<Longrightarrow> cv_in q = cv_out q @ cv_items q
    \<Longrightarrow> cv_in q' = cv_out q' @ cv_items q'"
  by (cases k) (auto split: if_splits)

lemma cv_step_waiters:
  assumes "(r, q') \<in> set (cv_step sp i k q)" "distinct (cv_waiters q)" "i \<in> set (cv_waiters q) \<Longrightarrow> k = Nx_Blocked"
  shows "distinct (cv_waiters q') \<and> set (cv_waiters q') \<subseteq> insert i (set (cv_waiters q))
    \<and> (i \<in> set (cv_waiters q') \<longleftrightarrow> r = Inl Nx_Blocked)"
  using assms by (cases k) (auto simp: notify_one_def distinct_removeAll split: if_splits)

lemma length_removeAll_distinct: "distinct ws \<Longrightarrow> w \<in> set ws \<Longrightarrow> Suc (length (removeAll w ws)) = length ws"
  using length_pos_if_in_set [of w ws] by (simp add: distinct_remove1_removeAll [symmetric] length_remove1)

lemma cv_step_active:
  assumes "(r, q') \<in> set (cv_step sp i k q)" "cv_assert q k" "distinct (cv_waiters q)"
    and "a' + cv_active k = a + case_option 0 cv_active (still r)"
    and "cv_waiters q \<noteq> [] \<and> cv_items q \<noteq> [] \<longrightarrow> length (cv_items q) + length (cv_waiters q) \<le> a"
    and "length (cv_waiters q) \<le> a"
  shows "cv_waiters q' \<noteq> [] \<and> cv_items q' \<noteq> [] \<longrightarrow> length (cv_items q') + length (cv_waiters q') \<le> a'"
proof (cases "k = Put_Notify \<or> k = Nx_Blocked")
  case True
  then show ?thesis
    using assms length_removeAll_distinct [OF assms(3)]
    by (auto simp: notify_one_def split: if_splits) fastforce+
next
  case False
  then show ?thesis using assms by (cases k; cases "cv_items q") (auto split: if_splits)
qed

lemma cv_step_finishing:
  assumes "(r, q') \<in> set (cv_step sp i k q)" "cv_assert q k"
    and "f' + cv_finishing k = f + case_option 0 cv_finishing (still r)"
    and "cv_waiters q \<noteq> [] \<and> cv_done q \<longrightarrow> 0 < f"
  shows "cv_waiters q' \<noteq> [] \<and> cv_done q' \<longrightarrow> 0 < f'"
  using assms by (cases k) (auto simp: notify_one_def split: if_splits)

lemma cv_waiters_le:
  assumes "distinct (cv_waiters q)" "\<forall>w \<in> set (cv_waiters q). w < length qs \<and> qs ! w = Some Nx_Blocked"
  shows "length (cv_waiters q) \<le> tsum (case_option 0 cv_active) qs"
proof -
  have "length (cv_waiters q) = card (set (cv_waiters q))" using assms(1) by (simp add: distinct_card)
  also have "\<dots> \<le> card {i. i < length qs \<and> qs ! i = Some Nx_Blocked}"
    using assms(2) by (intro card_mono) auto
  also have "\<dots> = tsum (\<lambda>t. of_bool (t = Some Nx_Blocked)) qs" by (rule tsum_card [symmetric])
  also have "\<dots> \<le> tsum (case_option 0 cv_active) qs" by (rule tsum_mono) auto
  finally show ?thesis .
qed

lemma cv_keeps:
  assumes inv: "cv_inv qs q" and i: "i < length qs" and k: "qs ! i = Some k"
    and st: "(r, q') \<in> set (cv_step sp i k q)"
  shows "cv_inv (qs[i := still r]) q'"
proof -
  let ?qs = "qs[i := still r]"
  note inv = inv [unfolded cv_inv_def]
  have mtx: "tsum (case_option 0 cv_holds) qs = of_bool (cv_mtx q)" and dist: "distinct (cv_waiters q)"
    and asserts: "list_all (case_option True (cv_assert q)) qs"
    and waiting: "\<forall>w \<in> set (cv_waiters q). w < length qs \<and> qs ! w = Some Nx_Blocked"
    using inv by blast+
  have ak: "cv_assert q k" using asserts i k by (auto simp: list_all_length dest!: spec [of _ i])
  have mine: "cv_holds k \<le> of_bool (cv_mtx q)"
    using tsum_member [OF i, of "case_option 0 cv_holds"] k mtx by simp
  note frame = cv_step_frame [OF st]
  have upd: "tsum (case_option 0 w) ?qs + w k = tsum (case_option 0 w) qs + case_option 0 w (still r)" for w
    using tsum_update [OF i, of "case_option 0 w" "still r"] k by simp
  have mtx': "tsum (case_option 0 cv_holds) ?qs = of_bool (cv_mtx q')"
    using upd [of cv_holds] mtx mine by (intro cv_step_mtx [OF st, of _ "of_bool (cv_mtx q)"]) simp_all
  have waiters: "distinct (cv_waiters q') \<and> set (cv_waiters q') \<subseteq> insert i (set (cv_waiters q))
      \<and> (i \<in> set (cv_waiters q') \<longleftrightarrow> r = Inl Nx_Blocked)"
    using waiting k by (intro cv_step_waiters [OF st dist]) auto
  have waiting': "w < length ?qs \<and> ?qs ! w = Some Nx_Blocked" if "w \<in> set (cv_waiters q')" for w
    using waiters waiting that i by (cases "w = i") auto
  have active': "cv_waiters q' \<noteq> [] \<and> cv_items q' \<noteq> []
      \<longrightarrow> length (cv_items q') + length (cv_waiters q') \<le> tsum (case_option 0 cv_active) ?qs"
    using inv by (intro cv_step_active [OF st ak dist upd _ cv_waiters_le [OF dist waiting]]) blast
  have finishing': "cv_waiters q' \<noteq> [] \<and> cv_done q' \<longrightarrow> 0 < tsum (case_option 0 cv_finishing) ?qs"
    using inv by (intro cv_step_finishing [OF st ak upd]) blast
  have "list_all (case_option True (cv_assert q')) ?qs"
  proof (rule list_all_update_others [OF asserts i])
    show "case_option True (cv_assert q') (still r)"
      using cv_step_assert [of _ q' sp i k q] st ak by (cases r) simp_all
    fix j
    assume "j < length qs" "j \<noteq> i" and aj: "case_option True (cv_assert q) (qs ! j)"
    then have "cv_holds k + case_option 0 cv_holds (qs ! j) \<le> of_bool (cv_mtx q)"
      using tsum_two [OF i, of j "case_option 0 cv_holds"] k mtx by simp
    then have "cv_items q' = cv_items q \<and> cv_done q' = cv_done q \<or> case_option 0 cv_holds (qs ! j) = 0"
      using frame by (cases "cv_mtx q") auto
    then show "case_option True (cv_assert q') (qs ! j)"
      using aj by (auto split: option.splits intro: cv_assert_frame)
  qed
  then show ?thesis
    unfolding cv_inv_def
    using mtx' waiters waiting' active' finishing' cv_step_logs [OF st ak] inv by blast
qed

lemma cv_inv_call:
  assumes inv: "cv_inv qs q" and i: "i < length qs" and none: "qs ! i = None"
  shows "cv_inv (qs[i := Some (cv_entry oper)]) q"
proof -
  let ?qs = "qs[i := Some (cv_entry oper)]"
  have entry: "cv_holds (cv_entry oper) = 0" "cv_finishing (cv_entry oper) = 0" "cv_assert q (cv_entry oper)"
    by (cases oper; simp)+
  have upd: "tsum (case_option 0 w) ?qs = tsum (case_option 0 w) qs + w (cv_entry oper)" for w
    using tsum_update [OF i, of "case_option 0 w" "Some (cv_entry oper)"] none by simp
  have "?qs ! j = qs ! j" if "qs ! j = Some kj" for j kj using that none by (cases "j = i") auto
  then show ?thesis
    using inv entry unfolding cv_inv_def upd by (auto intro!: list_all_update trans_le_add1)
qed

interpretation cv: shared_object "cv_step sp" cv_entry cv_inv cv_queue_ctor for sp
proof unfold_locales
  fix qs :: "cv_pc option list"
  assume none: "list_all (\<lambda>q. q = None) qs"
  then have "tsum (case_option 0 cv_holds) qs = 0" by (auto simp: tsum_eq_0_iff list_all_iff)
  with none show "cv_inv qs cv_queue_ctor" by (auto simp: cv_inv_def cv_queue_ctor_def list_all_iff)
next
  fix qs i k k' q q'
  assume "cv_inv qs q" "i < length qs" "qs ! i = Some k" "(Inl k', q') \<in> set (cv_step sp i k q)"
  then show "cv_inv (qs[i := Some k']) q'" using cv_keeps by fastforce
next
  fix qs i k v q q'
  assume "cv_inv qs q" "i < length qs" "qs ! i = Some k" "(Inr v, q') \<in> set (cv_step sp i k q)"
  then show "cv_inv (qs[i := None]) q'" using cv_keeps by fastforce
qed (rule cv_inv_call)

lemma cv_active_le [simp]: "cv_active k \<le> Suc 0"
  by (cases k) simp_all

text \<open>When no call can take a step, the queue is empty and not done, and all calls wait for it.\<close>

lemma cv_blocked:
  assumes inv: "cv_inv qs q" and i: "i < length qs" "qs ! i = Some k"
    and blocked: "\<And>j k. j < length qs \<Longrightarrow> qs ! j = Some k \<Longrightarrow> cv_step sp j k q = []"
  shows "k = Nx_Blocked \<and> i \<in> set (cv_waiters q) \<and> cv_items q = [] \<and> \<not> cv_done q"
proof -
  note inv = inv [unfolded cv_inv_def]
  have "tsum (case_option 0 cv_holds) qs = 0"
  proof (rule tsum_option_0)
    fix j k
    assume "j < length qs" "qs ! j = Some k"
    from blocked [OF this] show "cv_holds k = 0" by (cases k) auto
  qed
  with inv have free: "\<not> cv_mtx q" by simp
  have wait: "k = Nx_Blocked \<and> j \<in> set (cv_waiters q)" if "j < length qs" "qs ! j = Some k" for j k
    using blocked [OF that] free by (cases k) (auto simp: notify_one_def split: if_splits)
  have "tsum (case_option 0 cv_finishing) qs = 0"
  proof (rule tsum_option_0)
    fix j k
    assume "j < length qs" "qs ! j = Some k"
    from wait [OF this] show "cv_finishing k = 0" by simp
  qed
  moreover have "tsum (case_option 0 cv_active) qs \<le> length (cv_waiters q)"
  proof -
    have "tsum (case_option 0 cv_active) qs \<le> tsum (\<lambda>t. of_bool (t \<noteq> None)) qs"
      by (rule tsum_mono) (simp split: option.split)
    also have "\<dots> = card {i. i < length qs \<and> qs ! i \<noteq> None}" by (rule tsum_card)
    also have "\<dots> \<le> card (set (cv_waiters q))" using wait by (intro card_mono) auto
    finally show ?thesis using inv by (simp add: distinct_card)
  qed
  ultimately show ?thesis using wait [OF i] inv by (cases "cv_items q") auto
qed

end
