(* ===== verification/Condvar_Session.thy ===== *)
theory Condvar_Session
  imports Condvar_Queue
begin

text \<open>
  One iteration of \<open>PC_CondVar\<close> of src/bench\_pc\_condvar.cpp: the main thread starts the producers
  and the consumers, joins the producers, finishes the queue and joins the consumers.  A
  consumer adds what it takes to its own \<open>int\<close>, which is \<open>None\<close> once the sum has overflowed.
\<close>

section \<open>The program\<close>

datatype condvar_pc =
    Cm_Spawn nat | Cm_Join_Prod nat | Cm_Finish | Cm_Join_Cons nat | Cm_Done
  | Cp_Unborn | Cp_Loop nat | Cp_Done
  | Cc_Unborn | Cc_Loop "int option" | Cc_Done "int option"

fun cc_done :: "condvar_pc \<Rightarrow> bool" where
  "cc_done (Cc_Done x) = True"
| "cc_done _ = False"

fun launched_by :: "condvar_pc \<Rightarrow> nat \<Rightarrow> bool" where
  "launched_by (Cm_Spawn k) i = (i \<le> k)"
| "launched_by m i = True"

text \<open>
  Thread 0 is the main thread; then come the \<open>p\<close> producers and the \<open>c\<close> consumers, in the order in
  which they are started.  \<open>n\<close> is the number of items, \<open>n div p\<close> of them for each producer.
\<close>

definition condvar_prog :: "nat \<Rightarrow> nat \<Rightarrow> nat \<Rightarrow> nat \<Rightarrow> condvar_pc list \<Rightarrow> unit
  \<Rightarrow> (cv_op + condvar_pc \<times> unit) option" where
  "condvar_prog n p c i ps u =
     (case ps ! i of
        Cm_Spawn k \<Rightarrow> Some (Inr (if k < p + c then Cm_Spawn (Suc k) else Cm_Join_Prod 0, u))
      | Cm_Join_Prod k \<Rightarrow>
          if k < p then if ps ! Suc k = Cp_Done then Some (Inr (Cm_Join_Prod (Suc k), u)) else None
          else Some (Inr (Cm_Finish, u))
      | Cm_Finish \<Rightarrow> Some (Inl Finish)
      | Cm_Join_Cons k \<Rightarrow>
          if k < c then if cc_done (ps ! Suc (p + k)) then Some (Inr (Cm_Join_Cons (Suc k), u)) else None
          else Some (Inr (Cm_Done, u))
      | Cm_Done \<Rightarrow> None
      | Cp_Unborn \<Rightarrow> if launched_by (ps ! 0) i then Some (Inr (Cp_Loop 0, u)) else None
      | Cp_Loop j \<Rightarrow> Some (if j < n div p then Inl (Put (int j)) else Inr (Cp_Done, u))
      | Cp_Done \<Rightarrow> None
      | Cc_Unborn \<Rightarrow> if launched_by (ps ! 0) i then Some (Inr (Cc_Loop (Some 0), u)) else None
      | Cc_Loop x \<Rightarrow> Some (Inl Next)
      | Cc_Done x \<Rightarrow> None)"

fun condvar_after :: "nat \<Rightarrow> condvar_pc \<Rightarrow> cv_ret \<Rightarrow> condvar_pc" where
  "condvar_after i (Cp_Loop j) r = Cp_Loop (Suc j)"
| "condvar_after i (Cc_Loop x) (Item (Some v)) = Cc_Loop (add_to x (Some v))"
| "condvar_after i (Cc_Loop x) r = Cc_Done x"
| "condvar_after i m r = Cm_Join_Cons 0"

definition condvar_step :: "nat \<Rightarrow> nat \<Rightarrow> nat \<Rightarrow> (condvar_pc \<times> cv_pc option, cv_queue \<times> unit) stepper" where
  "condvar_step n p c = client_step (condvar_prog n p c) condvar_after cv_entry (cv_step False)"

definition condvar_start :: "nat \<Rightarrow> nat \<Rightarrow> (condvar_pc \<times> cv_pc option, cv_queue \<times> unit) conf" where
  "condvar_start p c = client_start (Cm_Spawn 0 # replicate p Cp_Unborn @ replicate c Cc_Unborn) cv_queue_ctor ()"

text \<open>What the consumers have computed at the end.\<close>

fun cc_result :: "condvar_pc \<Rightarrow> int option" where
  "cc_result (Cc_Done x) = x"
| "cc_result (Cc_Loop x) = x"
| "cc_result m = Some 0"

section \<open>The invariant\<close>

fun in_put :: "nat \<Rightarrow> cv_pc \<Rightarrow> bool" where
  "in_put j (Put_Lock v) = (v = int j)"
| "in_put j (Put_Push v) = (v = int j)"
| "in_put j Put_Unlock = True"
| "in_put j Put_Notify = True"
| "in_put j k = False"

fun in_finish :: "cv_pc \<Rightarrow> bool" where
  "in_finish Fin_Lock = True"
| "in_finish Fin_Set = True"
| "in_finish Fin_Unlock = True"
| "in_finish Fin_Notify = True"
| "in_finish k = False"

fun in_next :: "cv_pc \<Rightarrow> bool" where
  "in_next (Put_Lock v) = False"
| "in_next (Put_Push v) = False"
| "in_next Put_Unlock = False"
| "in_next Put_Notify = False"
| "in_next Fin_Lock = False"
| "in_next Fin_Set = False"
| "in_next Fin_Unlock = False"
| "in_next Fin_Notify = False"
| "in_next (Nx_Unlock v) = (0 \<le> v)"
| "in_next k = True"

fun role_ok :: "nat \<Rightarrow> nat \<Rightarrow> nat \<Rightarrow> nat \<Rightarrow> condvar_pc \<times> cv_pc option \<Rightarrow> bool" where
  "role_ok per p c i (Cp_Unborn, k) = (0 < i \<and> i \<le> p \<and> k = None)"
| "role_ok per p c i (Cp_Loop j, k) = (0 < i \<and> i \<le> p \<and> j \<le> per \<and> case_option True (\<lambda>k. j < per \<and> in_put j k) k)"
| "role_ok per p c i (Cp_Done, k) = (0 < i \<and> i \<le> p \<and> k = None)"
| "role_ok per p c i (Cc_Unborn, k) = (p < i \<and> i \<le> p + c \<and> k = None)"
| "role_ok per p c i (Cc_Loop x, k) = (p < i \<and> i \<le> p + c \<and> case_option True (\<lambda>y. 0 \<le> y \<and> fits y) x
     \<and> case_option True in_next k)"
| "role_ok per p c i (Cc_Done x, k) = (p < i \<and> i \<le> p + c \<and> case_option True (\<lambda>y. 0 \<le> y \<and> fits y) x \<and> k = None)"
| "role_ok per p c i (Cm_Finish, k) = (i = 0 \<and> case_option True in_finish k)"
| "role_ok per p c i (Cm_Spawn j, k) = (i = 0 \<and> k = None \<and> j \<le> p + c)"
| "role_ok per p c i (Cm_Join_Prod j, k) = (i = 0 \<and> k = None \<and> j \<le> p)"
| "role_ok per p c i (Cm_Join_Cons j, k) = (i = 0 \<and> k = None \<and> j \<le> c)"
| "role_ok per p c i (Cm_Done, k) = (i = 0 \<and> k = None)"

text \<open>How many threads the main thread has joined, and whether it has set the flag.\<close>

fun producers_joined :: "nat \<Rightarrow> condvar_pc \<Rightarrow> nat" where
  "producers_joined p (Cm_Spawn k) = 0"
| "producers_joined p (Cm_Join_Prod k) = k"
| "producers_joined p m = p"

fun consumers_joined :: "nat \<Rightarrow> condvar_pc \<Rightarrow> nat" where
  "consumers_joined c (Cm_Join_Cons k) = k"
| "consumers_joined c Cm_Done = c"
| "consumers_joined c m = 0"

fun flag_set :: "condvar_pc \<times> cv_pc option \<Rightarrow> bool" where
  "flag_set (Cm_Finish, Some k) = (0 < cv_finishing k)"
| "flag_set (Cm_Join_Cons j, k) = True"
| "flag_set (Cm_Done, k) = True"
| "flag_set t = False"

text \<open>The items that a producer has pushed, and what a consumer has got of those taken out.\<close>

fun after_push :: "cv_pc \<Rightarrow> nat" where
  "after_push Put_Unlock = 1"
| "after_push Put_Notify = 1"
| "after_push k = 0"

fun pushed :: "nat \<Rightarrow> condvar_pc \<times> cv_pc option \<Rightarrow> int multiset" where
  "pushed per (Cp_Loop j, k) = mset (map int [0..<j + case_option 0 after_push k])"
| "pushed per (Cp_Done, k) = mset (map int [0..<per])"
| "pushed per t = {#}"

fun carried :: "cv_pc \<Rightarrow> nat" where
  "carried (Nx_Unlock v) = nat v"
| "carried k = 0"

definition got :: "condvar_pc \<times> cv_pc option \<Rightarrow> nat" where
  "got t = case_option 0 nat (cc_result (fst t)) + case_option 0 carried (snd t)"

definition condvar_inv :: "nat \<Rightarrow> nat \<Rightarrow> nat \<Rightarrow> (condvar_pc \<times> cv_pc option, cv_queue \<times> unit) conf \<Rightarrow> bool" where
  "condvar_inv n p c conf = (case conf of (ts, (q, u)) \<Rightarrow>
     length ts = Suc (p + c) \<and> cv_inv (map snd ts) q \<and>
     (\<forall>i < length ts. role_ok (n div p) p c i (ts ! i)) \<and>
     (\<forall>j < producers_joined p (fst (ts ! 0)). fst (ts ! Suc j) = Cp_Done) \<and>
     (\<forall>j < consumers_joined c (fst (ts ! 0)). cc_done (fst (ts ! Suc (p + j)))) \<and>
     cv_done q = flag_set (ts ! 0) \<and>
     (\<forall>i < length ts. cc_done (fst (ts ! i)) \<longrightarrow> cv_done q \<and> cv_items q = []) \<and>
     mset (cv_in q) = tmset (pushed (n div p)) ts \<and>
     ((\<forall>i < length ts. cc_result (fst (ts ! i)) \<noteq> None) \<longrightarrow> tsum got ts = sum_list (map nat (cv_out q))))"

lemma pushed_nonneg: "v \<in># pushed per t \<Longrightarrow> 0 \<le> v"
  by (cases "(per, t)" rule: pushed.cases) auto

lemma tmset_member: "v \<in># tmset w ts \<Longrightarrow> \<exists>t \<in> set ts. v \<in># w t"
  by (induction ts) auto


lemma role_cases:
  assumes "role_ok per p c i (m, Some k)"
  obtains (producer) j where "m = Cp_Loop j" "j < per" "in_put j k" "0 < i" "i \<le> p"
    | (consumer) x where "m = Cc_Loop x" "in_next k" "p < i" "i \<le> p + c" "case_option True (\<lambda>y. 0 \<le> y \<and> fits y) x"
    | (main) "m = Cm_Finish" "in_finish k" "i = 0"
  using assms by (cases m) auto

section \<open>Every step keeps the invariant\<close>

text \<open>What one action does, seen from its thread.\<close>

definition acts_well :: "nat \<Rightarrow> nat \<Rightarrow> nat \<Rightarrow> nat \<Rightarrow> cv_queue \<Rightarrow> condvar_pc \<times> cv_pc option
  \<Rightarrow> cv_queue \<Rightarrow> condvar_pc \<times> cv_pc option \<Rightarrow> bool" where
  "acts_well per p c i q t q' l \<longleftrightarrow> role_ok per p c i l
     \<and> mset (cv_in q') + pushed per t = mset (cv_in q) + pushed per l
     \<and> (cc_result (fst l) \<noteq> None \<longrightarrow> cc_result (fst t) \<noteq> None
         \<and> got l + sum_list (map nat (cv_out q)) = got t + sum_list (map nat (cv_out q')))
     \<and> (if i = 0 then cv_done q = flag_set t \<longrightarrow> cv_done q' = flag_set l else cv_done q' = cv_done q)
     \<and> (cv_items q = [] \<longrightarrow> cv_items q' = [] \<or> (\<exists>j. fst t = Cp_Loop j))
     \<and> (cc_done (fst l) \<longrightarrow> cv_done q' \<and> cv_items q' = [])
     \<and> fst t \<noteq> Cp_Done \<and> \<not> cc_done (fst t)
     \<and> (cv_done q \<longrightarrow> cv_done q')"

lemma producer_acts_well:
  assumes "j < per" "in_put j k" "0 < i" "i \<le> p" "(r, q') \<in> set (cv_step False i k q)"
  shows "acts_well per p c i q (Cp_Loop j, Some k) q'
    (case r of Inl k' \<Rightarrow> (Cp_Loop j, Some k') | Inr v \<Rightarrow> (condvar_after i (Cp_Loop j) v, None))"
  using assms by (cases k) (auto simp: acts_well_def got_def split: if_splits)

lemma main_acts_well:
  assumes "in_finish k" "(r, q') \<in> set (cv_step False 0 k q)"
  shows "acts_well per p c 0 q (Cm_Finish, Some k) q'
    (case r of Inl k' \<Rightarrow> (Cm_Finish, Some k') | Inr v \<Rightarrow> (condvar_after 0 Cm_Finish v, None))"
  using assms by (cases k) (auto simp: acts_well_def got_def split: if_splits)

lemma nat_sum_nonneg: "0 \<le> x \<Longrightarrow> 0 \<le> y \<Longrightarrow> nat (x + y) = nat x + nat y"
  by simp

lemma consumer_acts_well:
  assumes "in_next k" "p < i" "i \<le> p + c" "case_option True (\<lambda>y. 0 \<le> y \<and> fits y) x"
    and "(r, q') \<in> set (cv_step False i k q)" "cv_assert q k" "\<forall>v \<in> set (cv_items q). 0 \<le> v"
  shows "acts_well per p c i q (Cc_Loop x, Some k) q'
    (case r of Inl k' \<Rightarrow> (Cc_Loop x, Some k') | Inr v \<Rightarrow> (condvar_after i (Cc_Loop x) v, None))"
proof (cases "\<exists>v. k = Nx_Unlock v")
  case True
  then show ?thesis
    using assms by (cases x) (auto simp: acts_well_def got_def add_int_def nat_sum_nonneg split: if_splits)
next
  case False
  then show ?thesis
    using assms by (cases k; cases "cv_items q") (auto simp: acts_well_def got_def split: if_splits)
qed

lemma condvar_acts_well:
  assumes role: "role_ok (n div p) p c i (ts ! i)" and i: "i < length ts" and "0 < p"
    and assert: "case_option True (cv_assert q) (snd (ts ! i))" and items: "\<forall>v \<in> set (cv_items q). 0 \<le> v"
    and st: "(l, (q', u')) \<in> set (condvar_step n p c i ts (q, u))"
  shows "acts_well (n div p) p c i q (ts ! i) q' l"
proof -
  have in_call: "acts_well (n div p) p c i q (m, Some k) q''
      (case r of Inl k' \<Rightarrow> (m, Some k') | Inr v \<Rightarrow> (condvar_after i m v, None))"
    if "ts ! i = (m, Some k)" "(r, q'') \<in> set (cv_step False i k q)" for m k r q''
    using role unfolding that(1)
  proof (cases rule: role_cases)
    case (producer j)
    show ?thesis unfolding producer(1) using producer(2-) that(2) by (intro producer_acts_well)
  next
    case (consumer x)
    have "cv_assert q k" using assert that(1) by simp
    then show ?thesis unfolding consumer(1) using consumer(2-) that(2) items by (intro consumer_acts_well)
  next
    case main
    show ?thesis unfolding main(1,3) using main(2) that(2) unfolding main(3) by (rule main_acts_well)
  qed
  show ?thesis
    using st unfolding condvar_step_def
  proof (cases rule: client_step_cases)
    case (call m oper)
    moreover have "map fst ts ! i = m" using call i by simp
    ultimately show ?thesis
      using role by (cases m) (auto simp: condvar_prog_def acts_well_def got_def split: if_splits)
  next
    case (local m m' c'')
    moreover have "map fst ts ! i = m" using local i by simp
    ultimately show ?thesis
      using role by (cases m) (auto simp: condvar_prog_def acts_well_def got_def fits_def split: if_splits)
  next
    case (within m k k' q'')
    then show ?thesis using in_call [of m k "Inl k'" q''] by simp
  next
    case (return m k v q'')
    then show ?thesis using in_call [of m k "Inr v" q''] by simp
  qed
qed

lemma main_joins:
  assumes st: "(l, (q', u')) \<in> set (condvar_step n p c 0 ts (q, u))" and role: "role_ok (n div p) p c 0 (ts ! 0)"
    and len: "length ts = Suc (p + c)"
    and prod: "\<forall>j < producers_joined p (fst (ts ! 0)). fst (ts ! Suc j) = Cp_Done"
    and cons: "\<forall>j < consumers_joined c (fst (ts ! 0)). cc_done (fst (ts ! Suc (p + j)))"
  shows "(\<forall>j < producers_joined p (fst l). fst (ts ! Suc j) = Cp_Done)
    \<and> (\<forall>j < consumers_joined c (fst l). cc_done (fst (ts ! Suc (p + j))))"
  using st unfolding condvar_step_def
proof (cases rule: client_step_cases)
  case (call m oper)
  then show ?thesis using prod cons by simp
next
  case (local m m' c'')
  moreover have "map fst ts ! 0 = m" "\<And>j. j < p \<Longrightarrow> map fst ts ! Suc j = fst (ts ! Suc j)"
      "\<And>j. j < c \<Longrightarrow> map fst ts ! Suc (p + j) = fst (ts ! Suc (p + j))"
    using local len by simp_all
  ultimately show ?thesis
    using role prod cons len by (cases m) (auto simp: condvar_prog_def less_Suc_eq split: if_splits)
next
  case (within m k k' q'')
  then show ?thesis using prod cons by simp
next
  case (return m k v q'')
  then show ?thesis using role prod cons by (cases m) auto
qed

lemma flag_all_joined: "flag_set t \<Longrightarrow> producers_joined p (fst t) = p"
  by (cases t rule: flag_set.cases) auto

text \<open>What the contract of an action gives for the items, the sums and the drained queue.\<close>

lemma acts_items:
  assumes "acts_well per p c i q (ts ! i) q' l" "i < length ts" "mset (cv_in q) = tmset (pushed per) ts"
  shows "mset (cv_in q') = tmset (pushed per) (ts[i := l])"
proof -
  have "tmset (pushed per) (ts[i := l]) + pushed per (ts ! i) = mset (cv_in q) + pushed per l"
    using tmset_update [OF assms(2), of "pushed per" l] assms(3) by simp
  also have "\<dots> = mset (cv_in q') + pushed per (ts ! i)" using assms(1) by (simp add: acts_well_def)
  finally show ?thesis by simp
qed

lemma acts_sums:
  assumes acts: "acts_well per p c i q (ts ! i) q' l" and i: "i < length ts"
    and sums: "(\<forall>i < length ts. cc_result (fst (ts ! i)) \<noteq> None) \<longrightarrow> tsum got ts = sum_list (map nat (cv_out q))"
    and all: "\<forall>j < length (ts[i := l]). cc_result (fst (ts[i := l] ! j)) \<noteq> None"
  shows "tsum got (ts[i := l]) = sum_list (map nat (cv_out q'))"
proof -
  have "cc_result (fst l) \<noteq> None" using all i by (auto dest: spec [of _ i])
  then have *: "cc_result (fst (ts ! i)) \<noteq> None"
    "got l + sum_list (map nat (cv_out q)) = got (ts ! i) + sum_list (map nat (cv_out q'))"
    using acts unfolding acts_well_def by blast+
  have "cc_result (fst (ts ! j)) \<noteq> None" if "j < length ts" for j
    using all that *(1) by (cases "j = i") (auto dest!: spec [of _ j])
  then have "tsum got ts = sum_list (map nat (cv_out q))" using sums by blast
  then show ?thesis using tsum_update [OF i, of got l] *(2) by simp
qed

text \<open>Once the flag is set no producer is left to push.\<close>

lemma no_producer_left:
  assumes inv: "condvar_inv n p c (ts, (q, u))" and "cv_done q" and i: "i < length ts"
  shows "fst (ts ! i) \<noteq> Cp_Loop m"
proof
  have role: "role_ok (n div p) p c i (ts ! i)"
    and prod: "\<forall>j < producers_joined p (fst (ts ! 0)). fst (ts ! Suc j) = Cp_Done" and "flag_set (ts ! 0)"
    using inv i \<open>cv_done q\<close> unfolding condvar_inv_def prod.case by blast+
  assume loop: "fst (ts ! i) = Cp_Loop m"
  then have "0 < i \<and> i \<le> p" using role by (cases "ts ! i") simp
  then show False using prod loop flag_all_joined [OF \<open>flag_set (ts ! 0)\<close>] by (auto simp: gr0_conv_Suc)
qed

lemma condvar_keeps:
  assumes inv: "condvar_inv n p c (ts, (q, u))" and i: "i < length ts" and "0 < p"
    and st: "(l, (q', u')) \<in> set (condvar_step n p c i ts (q, u))"
  shows "condvar_inv n p c (ts[i := l], (q', u'))"
proof -
  let ?ts = "ts[i := l]" and ?per = "n div p"
  have len: "length ts = Suc (p + c)" and obj: "cv_inv (map snd ts) q"
    and role: "\<And>j. j < length ts \<Longrightarrow> role_ok ?per p c j (ts ! j)"
    and prod: "\<forall>j < producers_joined p (fst (ts ! 0)). fst (ts ! Suc j) = Cp_Done"
    and cons: "\<forall>j < consumers_joined c (fst (ts ! 0)). cc_done (fst (ts ! Suc (p + j)))"
    and flag: "cv_done q = flag_set (ts ! 0)"
    and drained: "\<And>j. j < length ts \<Longrightarrow> cc_done (fst (ts ! j)) \<Longrightarrow> cv_done q \<and> cv_items q = []"
    and items: "mset (cv_in q) = tmset (pushed ?per) ts"
    and sums: "(\<forall>i < length ts. cc_result (fst (ts ! i)) \<noteq> None) \<longrightarrow> tsum got ts = sum_list (map nat (cv_out q))"
    using inv unfolding condvar_inv_def prod.case by blast+
  have "\<forall>v \<in> set (cv_in q). 0 \<le> v"
    using items pushed_nonneg tmset_member by (metis set_mset_mset)
  then have nonneg: "\<forall>v \<in> set (cv_items q). 0 \<le> v" using obj by (auto simp: cv_inv_def)
  have assert: "case_option True (cv_assert q) (snd (ts ! i))"
    using obj i by (auto simp: cv_inv_def list_all_length)
  have well: "acts_well ?per p c i q (ts ! i) q' l"
    using condvar_acts_well [OF role [OF i] i \<open>0 < p\<close> assert nonneg st] .
  note acts = well [unfolded acts_well_def]
  have "cv_inv (map snd ?ts) q'"
    using obj i st unfolding condvar_step_def by (rule cv.object_client_step)
  moreover have "role_ok ?per p c j (?ts ! j)" if "j < length ?ts" for j
    using acts role that by (cases "j = i") simp_all
  moreover have "(\<forall>j < producers_joined p (fst (?ts ! 0)). fst (?ts ! Suc j) = Cp_Done)
      \<and> (\<forall>j < consumers_joined c (fst (?ts ! 0)). cc_done (fst (?ts ! Suc (p + j))))"
  proof (cases "i = 0")
    case True
    then show ?thesis using main_joins [of l q' u' n p c ts q u] st role prod cons len by simp
  next
    case False
    have "?ts ! m = ts ! m" if "fst (ts ! m) = Cp_Done \<or> cc_done (fst (ts ! m))" for m
      using acts that by (cases "m = i") auto
    then show ?thesis using prod cons False by simp
  qed
  moreover have "cv_done q' = flag_set (?ts ! 0)"
    using acts flag i by (cases "i = 0") simp_all
  moreover have "cv_done q' \<and> cv_items q' = []" if j: "j < length ?ts" "cc_done (fst (?ts ! j))" for j
  proof (cases "j = i")
    case True
    then show ?thesis using acts j by simp
  next
    case False
    then have "cv_done q" "cv_items q = []" using drained [of j] j by simp_all
    then show ?thesis using acts no_producer_left [OF inv _ i] by blast
  qed
  moreover note acts_items [OF well i items] acts_sums [OF well i sums]
  ultimately show ?thesis using len unfolding condvar_inv_def by simp
qed

lemma condvar_start_inv: "condvar_inv n p c (condvar_start p c)"
proof -
  let ?ms = "Cm_Spawn 0 # replicate p Cp_Unborn @ replicate c Cc_Unborn"
  let ?ts = "map (\<lambda>m. (m, None)) ?ms :: (condvar_pc \<times> cv_pc option) list"
  have "cv_inv (map snd ?ts) cv_queue_ctor" by (rule cv.object_start) (auto simp: list_all_iff)
  moreover have "role_ok (n div p) p c i (?ts ! i)" if "i < length ?ts" for i
    using that by (cases i) (auto simp: nth_append)
  moreover have idle: "\<not> cc_done (fst t) \<and> pushed (n div p) t = {#} \<and> got t = 0" if "t \<in> set ?ts" for t
    using that by (auto simp: got_def)
  moreover have "tmset (pushed (n div p)) ?ts = {#}" using idle by (intro tmset_empty) blast
  moreover have "tsum got ?ts = 0" unfolding tsum_eq_0_iff using idle by blast
  moreover have "\<not> cc_done (fst (?ts ! i))" if "i < length ?ts" for i
    using idle nth_mem [OF that] by blast
  ultimately show ?thesis
    unfolding condvar_start_def client_start_def condvar_inv_def prod.case
    by (simp add: cv_queue_ctor_def)
qed

section \<open>How an iteration ends\<close>

text \<open>
  All threads have returned, the queue is empty, every item of every producer has been consumed
  once, and if no consumer has overflowed, their sums add up to the sum of the items.
\<close>

definition condvar_done :: "nat \<Rightarrow> nat \<Rightarrow> nat \<Rightarrow> (condvar_pc \<times> cv_pc option, cv_queue \<times> unit) conf \<Rightarrow> bool" where
  "condvar_done n p c conf = (case conf of (ts, (q, u)) \<Rightarrow>
     (let xs = map (\<lambda>j. cc_result (fst (ts ! Suc (p + j)))) [0..<c] in
        ts = map (\<lambda>m. (m, None)) (Cm_Done # replicate p Cp_Done @ map Cc_Done xs)
        \<and> cv_items q = [] \<and> mset (cv_out q) = repeat_mset p (mset (map int [0..<n div p]))
        \<and> list_all (case_option True (\<lambda>y. 0 \<le> y \<and> fits y)) xs
        \<and> (list_all (\<lambda>x. x \<noteq> None) xs \<longrightarrow> sum_list (map (\<lambda>x. nat (the x)) xs) = sum_list (map nat (cv_out q)))))"

lemma tsum_Cc_Done: "list_all (\<lambda>x. x \<noteq> None) xs
    \<Longrightarrow> tsum got (map (\<lambda>m. (m, None)) (map Cc_Done xs)) = sum_list (map (\<lambda>x. nat (the x)) xs)"
  by (induction xs) (auto simp: got_def)

lemma condvar_end:
  assumes inv: "condvar_inv n p c (ts, (q, u))" and "0 < c"
    and main: "ts ! 0 = (Cm_Done, None)" and cons: "\<And>j. j < c \<Longrightarrow> snd (ts ! Suc (p + j)) = None"
    and prod: "\<And>j. j < p \<Longrightarrow> snd (ts ! Suc j) = None"
  shows "condvar_done n p c (ts, (q, u))"
proof -
  let ?xs = "map (\<lambda>j. cc_result (fst (ts ! Suc (p + j)))) [0..<c]"
  have len: "length ts = Suc (p + c)" and obj: "cv_inv (map snd ts) q"
    and role: "\<And>j. j < length ts \<Longrightarrow> role_ok (n div p) p c j (ts ! j)"
    and done_p: "\<And>j. j < p \<Longrightarrow> fst (ts ! Suc j) = Cp_Done"
    and done_c: "\<And>j. j < c \<Longrightarrow> cc_done (fst (ts ! Suc (p + j)))"
    and drained: "\<And>j. j < length ts \<Longrightarrow> cc_done (fst (ts ! j)) \<Longrightarrow> cv_done q \<and> cv_items q = []"
    and items: "mset (cv_in q) = tmset (pushed (n div p)) ts"
    and sums: "(\<forall>i < length ts. cc_result (fst (ts ! i)) \<noteq> None) \<longrightarrow> tsum got ts = sum_list (map nat (cv_out q))"
    using inv main unfolding condvar_inv_def prod.case by simp_all
  have shape: "ts ! Suc (p + j) = (Cc_Done (?xs ! j), None)" if "j < c" for j
    using done_c [OF that] cons [OF that] that
    by (cases "ts ! Suc (p + j)"; cases "fst (ts ! Suc (p + j))") simp_all
  have ts: "ts = map (\<lambda>m. (m, None)) (Cm_Done # replicate p Cp_Done @ map Cc_Done ?xs)"
  proof (rule nth_equalityI)
    fix i
    assume "i < length ts"
    then consider "i = 0" | j where "i = Suc j" "j < p" | j where "i = Suc (p + j)" "j < c"
      using len by (metis Suc_less_eq add_less_cancel_left le_Suc_ex not_less not0_implies_Suc)
    then show "ts ! i = map (\<lambda>m. (m, None)) (Cm_Done # replicate p Cp_Done @ map Cc_Done ?xs) ! i"
    proof cases
      case (2 j)
      then have "ts ! Suc j = (Cp_Done, None)" using done_p [of j] prod [of j] by (cases "ts ! Suc j") simp
      then show ?thesis using 2 by (simp add: nth_append)
    next
      case (3 j)
      then show ?thesis using shape by (simp add: nth_append)
    qed (use main in simp)
  qed (use len in simp)
  have empty: "cv_items q = []" using drained [of "Suc p"] done_c [of 0] \<open>0 < c\<close> len by simp
  have "tmset (pushed (n div p)) (replicate k (Cp_Done, None)) = repeat_mset k (mset (map int [0..<n div p]))" for k
    by (induction k) simp_all
  moreover have "tmset (pushed (n div p)) (map (\<lambda>m. (m, None)) (map Cc_Done ?xs)) = {#}"
    by (auto intro!: tmset_empty)
  ultimately have "mset (cv_out q) = repeat_mset p (mset (map int [0..<n div p]))"
    using items obj empty by (subst (asm) ts) (simp add: cv_inv_def)
  moreover have "case_option True (\<lambda>y. 0 \<le> y \<and> fits y) (?xs ! j)" if j: "j < c" for j
  proof -
    obtain y where "ts ! Suc (p + j) = (Cc_Done y, None)" using shape [OF j] by blast
    then show ?thesis using role [of "Suc (p + j)"] j len by simp
  qed
  then have "list_all (case_option True (\<lambda>y. 0 \<le> y \<and> fits y)) ?xs" by (simp add: list_all_length)
  moreover have "sum_list (map (\<lambda>x. nat (the x)) ?xs) = sum_list (map nat (cv_out q))"
    if "list_all (\<lambda>x. x \<noteq> None) ?xs"
  proof -
    have "cc_result (fst t) \<noteq> None" if "t \<in> set ts" for t
      using that \<open>list_all (\<lambda>x. x \<noteq> None) ?xs\<close> by (subst (asm) ts) (auto simp: list_all_iff)
    then have "tsum got ts = sum_list (map nat (cv_out q))" using sums by simp
    moreover have "tsum got ts = sum_list (map (\<lambda>x. nat (the x)) ?xs)"
      using tsum_Cc_Done [OF that] by (subst ts) (simp add: got_def)
    ultimately show ?thesis by simp
  qed
  ultimately show ?thesis using ts empty unfolding condvar_done_def Let_def prod.case by blast
qed

text \<open>When no thread has an action, a call in progress waits for items, and the flag is not set.\<close>

lemma condvar_waits:
  assumes obj: "cv_inv (map snd ts) q" and i: "i < length ts" "snd (ts ! i) = Some k"
    and stuck: "\<And>i. i < length ts \<Longrightarrow> condvar_step n p c i ts (q, u) = []"
  shows "k = Nx_Blocked \<and> \<not> cv_done q"
proof -
  have "k = Nx_Blocked \<and> i \<in> set (cv_waiters q) \<and> cv_items q = [] \<and> \<not> cv_done q"
  proof (rule cv_blocked [OF obj])
    fix j kj
    assume "j < length (map snd ts)" "map snd ts ! j = Some kj"
    then show "cv_step False j kj q = []"
      using stuck [of j] by (cases "ts ! j") (simp add: condvar_step_def client_step.simps)
  qed (use i in simp_all)
  then show ?thesis by blast
qed

lemma condvar_stuck:
  assumes inv: "condvar_inv n p c (ts, (q, u))" and "0 < c"
    and stuck: "\<And>i. i < length ts \<Longrightarrow> condvar_step n p c i ts (q, u) = []"
  shows "condvar_done n p c (ts, (q, u))"
proof -
  have len: "length ts = Suc (p + c)" and obj: "cv_inv (map snd ts) q"
    and role: "\<And>j. j < length ts \<Longrightarrow> role_ok (n div p) p c j (ts ! j)"
    and prod: "\<forall>j < producers_joined p (fst (ts ! 0)). fst (ts ! Suc j) = Cp_Done"
    and flag: "cv_done q = flag_set (ts ! 0)"
    using inv unfolding condvar_inv_def prod.case by simp_all
  note waits = condvar_waits [OF obj _ _ stuck]
  have none: "condvar_prog n p c i (map fst ts) u = None" if "i < length ts" "snd (ts ! i) = None" for i
    using stuck [OF that(1)] that
    by (cases "ts ! i") (auto simp: condvar_step_def client_step.simps split: option.splits sum.splits)
  have pc: "map fst ts ! i = fst (ts ! i)" if "i < length ts" for i using that by simp
  obtain m k where main: "ts ! 0 = (m, k)" by force
  have first: "map fst ts ! 0 = m" using pc [of 0] main len by simp
  have "k = None"
    using role [of 0] main len waits [of 0] by (cases k; cases m) auto
  have started: "launched_by m i" for i
    using none [of 0] pc [of 0] main \<open>k = None\<close> role [of 0] len
    by (cases m) (auto simp: condvar_prog_def split: if_splits)
  have producer: "ts ! Suc j = (Cp_Done, None)" if "j < p" for j
  proof -
    obtain t kt where t: "ts ! Suc j = (t, kt)" by force
    moreover have "Suc j < length ts" using that len by simp
    ultimately show ?thesis
      using role [of "Suc j"] none [of "Suc j"] waits [of "Suc j"] pc [of "Suc j"] pc [of 0] main started that len
      by (cases t; cases kt) (auto simp: condvar_prog_def split: if_splits)
  qed
  have flagged: "cv_done q" "\<And>j. m \<noteq> Cm_Join_Prod j"
  proof -
    have at_0: "condvar_prog n p c 0 (map fst ts) u = None" "map fst ts ! 0 = m"
      using none [of 0] pc [of 0] main \<open>k = None\<close> len by simp_all
    have "map fst ts ! Suc j = Cp_Done" if "j < p" for j
      using pc [of "Suc j"] producer [OF that] that len by simp
    then show "cv_done q" "\<And>j. m \<noteq> Cm_Join_Prod j"
      using at_0 flag main \<open>k = None\<close> role [of 0] len
      by (cases m; auto simp: condvar_prog_def split: if_splits)+
  qed
  have no_call: "snd (ts ! i) = None" if "i < length ts" for i
    using waits [OF that] flagged(1) by (cases "snd (ts ! i)") simp_all
  have consumer: "cc_done (fst (ts ! Suc (p + j)))" if "j < c" for j
  proof -
    have i: "Suc (p + j) < length ts" using that len by simp
    obtain t where t: "ts ! Suc (p + j) = (t, None)" using no_call [OF i] by (cases "ts ! Suc (p + j)") simp
    show ?thesis
      using role [OF i] none [OF i] pc [OF i] first started t i
      by (cases t) (auto simp: condvar_prog_def split: if_splits)
  qed
  have "m = Cm_Done"
  proof -
    have at_0: "condvar_prog n p c 0 (map fst ts) u = None" "map fst ts ! 0 = m"
      using none [of 0] pc [of 0] main \<open>k = None\<close> len by simp_all
    have "cc_done (map fst ts ! Suc (p + j))" if "j < c" for j
      using pc [of "Suc (p + j)"] consumer [OF that] that len by simp
    then show ?thesis
      using at_0 flagged role [of 0] main len
      by (cases m) (auto simp: condvar_prog_def split: if_splits)
  qed
  then show ?thesis
    using condvar_end [OF inv \<open>0 < c\<close>] main \<open>k = None\<close> no_call len by simp
qed

section \<open>Every run is bounded\<close>

text \<open>
  12 steps for every item in the queue, which its consumer needs, and 8 for every thread that is not
  waiting, which is what its next time round the wait loop costs; \<open>w\<close> is the number of threads.
\<close>

fun cv_pc_rank :: "nat \<Rightarrow> cv_pc \<Rightarrow> nat" where
  "cv_pc_rank w (Put_Lock v) = 24"
| "cv_pc_rank w (Put_Push v) = 23"
| "cv_pc_rank w Put_Unlock = 10"
| "cv_pc_rank w Put_Notify = 9"
| "cv_pc_rank w Nx_Lock = 8"
| "cv_pc_rank w Nx_Test = 5"
| "cv_pc_rank w Nx_Wait = 2"
| "cv_pc_rank w Nx_Blocked = 9"
| "cv_pc_rank w Nx_Relock = 8"
| "cv_pc_rank w Nx_Check = 4"
| "cv_pc_rank w Nx_Break = 1"
| "cv_pc_rank w Nx_Take = 3"
| "cv_pc_rank w (Nx_Unlock v) = 10"
| "cv_pc_rank w Fin_Lock = 8 * w + 4"
| "cv_pc_rank w Fin_Set = 8 * w + 3"
| "cv_pc_rank w Fin_Unlock = 8 * w + 2"
| "cv_pc_rank w Fin_Notify = 8 * w + 1"

fun cv_left :: "nat \<Rightarrow> cv_pc + cv_ret \<Rightarrow> nat" where
  "cv_left w (Inl k) = cv_pc_rank w k"
| "cv_left w (Inr (Item (Some v))) = 9"
| "cv_left w (Inr r) = 0"

definition cv_load :: "nat \<Rightarrow> cv_queue \<Rightarrow> nat" where
  "cv_load w q = 12 * length (cv_items q) + 8 * (w - length (cv_waiters q))"

lemma cv_step_load:
  assumes "(r, q') \<in> set (cv_step False i k q)" "cv_assert q k" "distinct (cv_waiters q)"
    "length (cv_waiters q') \<le> w"
  shows "cv_left w r + cv_load w q' < cv_pc_rank w k + cv_load w q"
proof (cases "k = Put_Notify")
  case True
  then show ?thesis
    using assms by (auto simp: cv_load_def dest!: length_notify_one)
next
  case False
  then show ?thesis
    using assms by (cases k; cases "cv_items q") (auto simp: cv_load_def split: if_splits)
qed

fun condvar_rank1 :: "nat \<Rightarrow> nat \<Rightarrow> nat \<Rightarrow> condvar_pc \<times> cv_pc option \<Rightarrow> nat" where
  "condvar_rank1 per p c (Cm_Spawn j, k) = (p + c - j) + p + c + 8 * Suc (p + c) + 10"
| "condvar_rank1 per p c (Cm_Join_Prod j, k) = (p - j) + c + 8 * Suc (p + c) + 9"
| "condvar_rank1 per p c (Cm_Finish, k) = c + 2 + case_option (8 * Suc (p + c) + 5) (cv_pc_rank (Suc (p + c))) k"
| "condvar_rank1 per p c (Cm_Join_Cons j, k) = (c - j) + 1"
| "condvar_rank1 per p c (Cm_Done, k) = 0"
| "condvar_rank1 per p c (Cp_Unborn, k) = per * 26 + 2"
| "condvar_rank1 per p c (Cp_Loop j, k) = (case k of None \<Rightarrow> (per - j) * 26 + 1
     | Some k \<Rightarrow> (per - Suc j) * 26 + 1 + cv_pc_rank (Suc (p + c)) k)"
| "condvar_rank1 per p c (Cp_Done, k) = 0"
| "condvar_rank1 per p c (Cc_Unborn, k) = 10"
| "condvar_rank1 per p c (Cc_Loop x, k) = case_option 9 (cv_pc_rank (Suc (p + c))) k"
| "condvar_rank1 per p c (Cc_Done x, k) = 0"

definition condvar_rank :: "nat \<Rightarrow> nat \<Rightarrow> nat \<Rightarrow> (condvar_pc \<times> cv_pc option, cv_queue \<times> unit) conf \<Rightarrow> nat" where
  "condvar_rank n p c conf = (case conf of (ts, (q, u)) \<Rightarrow>
     tsum (condvar_rank1 (n div p) p c) ts + cv_load (Suc (p + c)) q)"

lemma diff_Suc_less_26: "j < n \<Longrightarrow> (n - Suc j) * 26 + 25 < (n - j) * 26" for j n :: nat
  by simp

lemma condvar_call_rank:
  assumes "role_ok per p c i (m, Some k)" and "cv_left (Suc (p + c)) r + x' < cv_pc_rank (Suc (p + c)) k + x"
    and "(r, q') \<in> set (cv_step False i k q)"
  shows "condvar_rank1 per p c (case r of Inl k' \<Rightarrow> (m, Some k') | Inr v \<Rightarrow> (condvar_after i m v, None)) + x'
    < condvar_rank1 per p c (m, Some k) + x"
  using assms(1)
proof (cases rule: role_cases)
  case (producer j)
  then show ?thesis using assms(2) by (cases r) simp_all
next
  case (consumer y)
  show ?thesis
  proof (cases r)
    case (Inr v)
    with consumer show ?thesis using assms(2,3) by (cases k) (auto split: if_splits)
  qed (use assms(2) consumer in simp)
next
  case main
  then show ?thesis using assms(2) by (cases r) simp_all
qed

lemma condvar_decrease:
  assumes inv: "condvar_inv n p c (ts, (q, u))" and i: "i < length ts" and "0 < p"
    and st: "(l, (q', u')) \<in> set (condvar_step n p c i ts (q, u))"
  shows "condvar_rank n p c (ts[i := l], (q', u')) < condvar_rank n p c (ts, (q, u))"
proof -
  let ?rank = "condvar_rank1 (n div p) p c" and ?w = "Suc (p + c)"
  have len: "length ts = ?w" and obj: "cv_inv (map snd ts) q" and role: "role_ok (n div p) p c i (ts ! i)"
    using inv i unfolding condvar_inv_def prod.case by simp_all
  have assert: "case_option True (cv_assert q) (snd (ts ! i))" and dist: "distinct (cv_waiters q)"
    using obj i by (auto simp: cv_inv_def list_all_length)
  have "cv_inv (map snd (ts[i := l])) q'"
    using obj i st unfolding condvar_step_def by (rule cv.object_client_step)
  then have "distinct (cv_waiters q')" "set (cv_waiters q') \<subseteq> {..<?w}" using len by (auto simp: cv_inv_def)
  then have room: "length (cv_waiters q') \<le> ?w" by (metis card_lessThan card_mono distinct_card finite_lessThan)
  have one: "?rank l + cv_load ?w q' < ?rank (ts ! i) + cv_load ?w q"
    using st unfolding condvar_step_def
  proof (cases rule: client_step_cases)
    case (call m oper)
    moreover have "map fst ts ! i = m" using call i by simp
    ultimately show ?thesis
      using role diff_Suc_less_26 by (cases m) (auto simp: condvar_prog_def split: if_splits)
  next
    case (local m m' c'')
    moreover have "map fst ts ! i = m" using local i by simp
    ultimately show ?thesis
      using role by (cases m) (auto simp: condvar_prog_def split: if_splits)
  next
    case (within m k k' q'')
    then show ?thesis
      using condvar_call_rank [of "n div p" p c i m k "Inl k'" "cv_load ?w q'" "cv_load ?w q" q'' q]
        cv_step_load [of "Inl k'" q'' i k q ?w] assert dist room role by simp
  next
    case (return m k v q'')
    then show ?thesis
      using condvar_call_rank [of "n div p" p c i m k "Inr v" "cv_load ?w q'" "cv_load ?w q" q'' q]
        cv_step_load [of "Inr v" q'' i k q ?w] assert dist room role by simp
  qed
  show ?thesis
    using tsum_update [OF i, of ?rank l] one by (simp add: condvar_rank_def)
qed

lemma condvar_live:
  "live_interleaving (condvar_step n (Suc p) (Suc c)) (condvar_start (Suc p) (Suc c))
    (condvar_inv n (Suc p) (Suc c)) (condvar_done n (Suc p) (Suc c)) (condvar_rank n (Suc p) (Suc c))"
  using condvar_start_inv condvar_keeps [OF _ _ zero_less_Suc] condvar_stuck [OF _ zero_less_Suc]
    condvar_decrease [OF _ _ zero_less_Suc]
  by (rule live_by_rank)

lemma condvar_start_rank:
  "condvar_rank n p c (condvar_start p c) = 26 * (p * (n div p)) + 20 * p + 28 * c + 26"
  by (simp add: condvar_rank_def condvar_start_def client_start_def cv_load_def cv_queue_ctor_def algebra_simps)

text \<open>
  C3. PC\_CondVar, with any number of producers, consumers and items: every run of an iteration ends
  with all threads joined and the queue empty, whatever the scheduling and whichever waiter each
  notification wakes; no wake-up is lost.  Every item of every producer is consumed exactly once.
\<close>

theorem pc_condvar_finishes:
  "finishes (condvar_step n (Suc p) (Suc c)) (condvar_start (Suc p) (Suc c)) (condvar_done n (Suc p) (Suc c))
    (26 * (Suc p * (n div Suc p)) + 20 * Suc p + 28 * Suc c + 26)"
  by (rule live_interleaving.always_finishes [OF condvar_live]) (simp add: condvar_start_rank)

section \<open>The sums of the consumers\<close>

lemma sum_of_items: "sum_list (map nat (map int [0..<k])) = k * (k - 1) div 2"
proof (induction k)
  case (Suc k)
  then show ?case by (cases k) simp_all
qed simp

lemma sum_image_repeat: "sum_mset (image_mset f (repeat_mset k A)) = k * sum_mset (image_mset f A)" for f :: "'a \<Rightarrow> nat"
  by (induction k) simp_all

lemma condvar_done_sum:
  assumes "condvar_done n p c (ts, (q, u))"
  shows "sum_list (map nat (cv_out q)) = p * ((n div p) * (n div p - 1) div 2)"
proof -
  have "sum_list (map nat (cv_out q)) = sum_mset (image_mset nat (mset (cv_out q)))"
    by (simp flip: sum_mset_sum_list)
  also have "mset (cv_out q) = repeat_mset p (mset (map int [0..<n div p]))"
    using assms by (simp add: condvar_done_def Let_def)
  also have "sum_mset (image_mset nat (repeat_mset p (mset (map int [0..<n div p]))))
      = p * sum_list (map nat (map int [0..<n div p]))"
    unfolding sum_image_repeat mset_map [symmetric] sum_mset_sum_list ..
  finally show ?thesis unfolding sum_of_items .
qed

lemma sum_of_fitting:
  "list_all (case_option True (\<lambda>y. 0 \<le> y \<and> fits y)) xs \<Longrightarrow> list_all (\<lambda>x. x \<noteq> None) xs \<Longrightarrow> xs \<noteq> []
    \<Longrightarrow> sum_list (map (\<lambda>x. nat (the x)) xs) < length xs * 2 ^ 31"
proof (induction xs)
  case (Cons x xs)
  then show ?case by (cases "xs = []") (auto simp: fits_def)
qed simp

lemma condvar_overflow:
  assumes final: "condvar_done n p c (ts, (q, u))" and large: "c * 2 ^ 31 \<le> p * ((n div p) * (n div p - 1) div 2)"
    and "0 < c"
  shows "\<exists>j < c. ts ! Suc (p + j) = (Cc_Done None, None)"
proof (rule ccontr)
  let ?xs = "map (\<lambda>j. cc_result (fst (ts ! Suc (p + j)))) [0..<c]"
  assume none: "\<not> ?thesis"
  have ts: "ts = map (\<lambda>m. (m, None)) (Cm_Done # replicate p Cp_Done @ map Cc_Done ?xs)"
    and small: "list_all (case_option True (\<lambda>y. 0 \<le> y \<and> fits y)) ?xs"
    and sums: "list_all (\<lambda>x. x \<noteq> None) ?xs \<longrightarrow> sum_list (map (\<lambda>x. nat (the x)) ?xs) = sum_list (map nat (cv_out q))"
    using final unfolding condvar_done_def Let_def prod.case by blast+
  have at_j: "ts ! Suc (p + j) = (Cc_Done (?xs ! j), None)" if "j < c" for j
    using that by (subst ts) (simp add: nth_append)
  have "?xs ! j \<noteq> None" if "j < c" for j
    using none at_j [OF that] that by metis
  then have defined: "list_all (\<lambda>x. x \<noteq> None) ?xs" by (simp add: list_all_length)
  have "?xs \<noteq> []" using \<open>0 < c\<close> by simp
  from sum_of_fitting [OF small defined this]
  have "sum_list (map (\<lambda>x. nat (the x)) ?xs) < c * 2 ^ 31" by simp
  moreover have "sum_list (map (\<lambda>x. nat (the x)) ?xs) = sum_list (map nat (cv_out q))"
    using sums defined by blast
  ultimately show False using large condvar_done_sum [OF final] by linarith
qed

text \<open>
  C35. In each of the three registered configurations, one, two or four producers and consumers, every
  run ends with the sum of some consumer overflown: \<open>x += q.front()\<close> is undefined there.
\<close>

theorem pc_condvar_overflows:
  "list_all (\<lambda>m. finishes (condvar_step 1000000 m m) (condvar_start m m)
      (\<lambda>(ts, s). \<exists>j < m. ts ! Suc (m + j) = (Cc_Done None, None)) (26 * 1000000 + 48 * m + 26)) [1, 2, 4]"
proof -
  let ?ends = "\<lambda>m. finishes (condvar_step 1000000 m m) (condvar_start m m)
    (\<lambda>(ts, s). \<exists>j < m. ts ! Suc (m + j) = (Cc_Done None, None)) (26 * 1000000 + 48 * m + 26)"
  have "?ends m" if "0 < m" and large: "m * 2 ^ 31 \<le> m * ((1000000 div m) * (1000000 div m - 1) div 2)" for m
  proof (rule finishes_mono)
    obtain k where m: "m = Suc k" using \<open>0 < m\<close> by (cases m) simp_all
    show "finishes (condvar_step 1000000 m m) (condvar_start m m)
        (condvar_done 1000000 m m) (26 * (m * (1000000 div m)) + 20 * m + 28 * m + 26)"
      unfolding m by (rule live_interleaving.always_finishes [OF condvar_live]) (simp only: condvar_start_rank order_refl)
    show "26 * (m * (1000000 div m)) + 20 * m + 28 * m + 26 \<le> 26 * 1000000 + 48 * m + 26"
      using times_div_less_eq_dividend [of m 1000000] by linarith
    fix conf
    assume "condvar_done 1000000 m m conf"
    then show "case conf of (ts, s) \<Rightarrow> \<exists>j < m. ts ! Suc (m + j) = (Cc_Done None, None)"
      using condvar_overflow [OF _ large \<open>0 < m\<close>] by (cases conf; cases "snd conf") (simp add: split_def)
  qed
  note ends = this
  have "?ends 1" "?ends 2" "?ends 4" by (rule ends; simp)+
  then show ?thesis by (simp only: list.pred_inject simp_thms)
qed

end
