(* ===== verification/Rw_Mutex.thy ===== *)
theory Rw_Mutex
  imports Clients Signed_Int "HOL-Library.AList"
begin

text \<open>
  \<open>ReadWriteData\<close> of src/bench\_rw\_shared\_mutex.cpp: two \<open>std::unordered_map<int, int>\<close>, one behind
  a \<open>std::shared_mutex\<close>, which many readers or one writer can hold, and one behind a \<open>std::mutex\<close>.
  A map is its association list, with distinct keys; \<open>data[key] = value\<close> is \<open>AList.update\<close>.
\<close>

section \<open>The state\<close>

type_synonym int_map = "(int \<times> int) list"

record rw_data =
  writing :: bool
  reading :: nat
  exclusive_mtx :: bool
  shared_data :: int_map
  exclusive_data :: int_map

text \<open>\<open>static_cast<int>\<close> of a \<open>size_t\<close>.\<close>

definition as_int :: "nat \<Rightarrow> int" where
  "as_int k = sint (word_of_nat k :: 32 word)"

fun initialize :: "nat \<Rightarrow> int_map \<Rightarrow> int_map" where
  "initialize 0 data = data"
| "initialize (Suc i) data = AList.update (as_int i) (as_int (i * 2)) (initialize i data)"

definition rw_data_ctor :: "nat \<Rightarrow> rw_data" where
  "rw_data_ctor initial_size = \<lparr>writing = False, reading = 0, exclusive_mtx = False,
     shared_data = initialize initial_size [], exclusive_data = initialize initial_size []\<rparr>"

text \<open>\<open>it != end() ? it->second : -1\<close>\<close>

definition find_or :: "int_map \<Rightarrow> int \<Rightarrow> int" where
  "find_or data key = (case map_of data key of Some v \<Rightarrow> v | None \<Rightarrow> -1)"

section \<open>The operations\<close>

datatype rw_pc =
    Rd_Lock int | Rd_Find int | Rd_Unlock int int
  | Wr_Lock int int | Wr_Set int int | Wr_Unlock int int
  | Xr_Lock int | Xr_Find int | Xr_Unlock int int
  | Xw_Lock int int | Xw_Set int int | Xw_Unlock int int
  | Sz_Lock | Sz_Count | Sz_Unlock nat

datatype rw_op = Shared_Read int | Shared_Write int int | Exclusive_Read int | Exclusive_Write int int | Size

datatype rw_ret = Value int | Stored | Counted nat

fun rw_entry :: "rw_op \<Rightarrow> rw_pc" where
  "rw_entry (Shared_Read key) = Rd_Lock key"
| "rw_entry (Shared_Write key v) = Wr_Lock key v"
| "rw_entry (Exclusive_Read key) = Xr_Lock key"
| "rw_entry (Exclusive_Write key v) = Xw_Lock key v"
| "rw_entry Size = Sz_Lock"

fun rw_step :: "nat \<Rightarrow> rw_pc \<Rightarrow> rw_data \<Rightarrow> ((rw_pc + rw_ret) \<times> rw_data) list" where
  "rw_step i (Rd_Lock key) d = (if writing d then [] else [(Inl (Rd_Find key), d\<lparr>reading := reading d + 1\<rparr>)])"
| "rw_step i (Rd_Find key) d = [(Inl (Rd_Unlock key (find_or (shared_data d) key)), d)]"
| "rw_step i (Rd_Unlock key v) d = [(Inr (Value v), d\<lparr>reading := reading d - 1\<rparr>)]"
| "rw_step i (Wr_Lock key v) d =
     (if writing d \<or> 0 < reading d then [] else [(Inl (Wr_Set key v), d\<lparr>writing := True\<rparr>)])"
| "rw_step i (Wr_Set key v) d = [(Inl (Wr_Unlock key v), d\<lparr>shared_data := AList.update key v (shared_data d)\<rparr>)]"
| "rw_step i (Wr_Unlock key v) d = [(Inr Stored, d\<lparr>writing := False\<rparr>)]"
| "rw_step i (Xr_Lock key) d = (if exclusive_mtx d then [] else [(Inl (Xr_Find key), d\<lparr>exclusive_mtx := True\<rparr>)])"
| "rw_step i (Xr_Find key) d = [(Inl (Xr_Unlock key (find_or (exclusive_data d) key)), d)]"
| "rw_step i (Xr_Unlock key v) d = [(Inr (Value v), d\<lparr>exclusive_mtx := False\<rparr>)]"
| "rw_step i (Xw_Lock key v) d = (if exclusive_mtx d then [] else [(Inl (Xw_Set key v), d\<lparr>exclusive_mtx := True\<rparr>)])"
| "rw_step i (Xw_Set key v) d =
     [(Inl (Xw_Unlock key v), d\<lparr>exclusive_data := AList.update key v (exclusive_data d)\<rparr>)]"
| "rw_step i (Xw_Unlock key v) d = [(Inr Stored, d\<lparr>exclusive_mtx := False\<rparr>)]"
| "rw_step i Sz_Lock d = (if writing d then [] else [(Inl Sz_Count, d\<lparr>reading := reading d + 1\<rparr>)])"
| "rw_step i Sz_Count d = [(Inl (Sz_Unlock (length (shared_data d))), d)]"
| "rw_step i (Sz_Unlock s) d = [(Inr (Counted s), d\<lparr>reading := reading d - 1\<rparr>)]"

section \<open>The locks\<close>

fun reads_shared :: "rw_pc \<Rightarrow> nat" where
  "reads_shared (Rd_Find key) = 1"
| "reads_shared (Rd_Unlock key v) = 1"
| "reads_shared Sz_Count = 1"
| "reads_shared (Sz_Unlock s) = 1"
| "reads_shared k = 0"

fun writes_shared :: "rw_pc \<Rightarrow> nat" where
  "writes_shared (Wr_Set key v) = 1"
| "writes_shared (Wr_Unlock key v) = 1"
| "writes_shared k = 0"

fun holds_exclusive :: "rw_pc \<Rightarrow> nat" where
  "holds_exclusive (Xr_Find key) = 1"
| "holds_exclusive (Xr_Unlock key v) = 1"
| "holds_exclusive (Xw_Set key v) = 1"
| "holds_exclusive (Xw_Unlock key v) = 1"
| "holds_exclusive k = 0"

text \<open>What a call has read or written is still so as long as it holds the lock.\<close>

fun rw_assert :: "rw_data \<Rightarrow> rw_pc \<Rightarrow> bool" where
  "rw_assert d (Rd_Unlock key v) = (find_or (shared_data d) key = v)"
| "rw_assert d (Wr_Unlock key v) = (map_of (shared_data d) key = Some v)"
| "rw_assert d (Xr_Unlock key v) = (find_or (exclusive_data d) key = v)"
| "rw_assert d (Xw_Unlock key v) = (map_of (exclusive_data d) key = Some v)"
| "rw_assert d (Sz_Unlock s) = (length (shared_data d) = s)"
| "rw_assert d k = True"

definition rw_inv :: "rw_pc option list \<Rightarrow> rw_data \<Rightarrow> bool" where
  "rw_inv qs d \<longleftrightarrow>
     tsum (case_option 0 reads_shared) qs = reading d \<and>
     tsum (case_option 0 writes_shared) qs = of_bool (writing d) \<and>
     tsum (case_option 0 holds_exclusive) qs = of_bool (exclusive_mtx d) \<and>
     \<not> (writing d \<and> 0 < reading d) \<and>
     distinct (map fst (shared_data d)) \<and> distinct (map fst (exclusive_data d)) \<and>
     list_all (case_option True (rw_assert d)) qs"

lemma rw_step_locks:
  assumes "(r, d') \<in> set (rw_step i k d)"
    and "reads' + reads_shared k = reading d + case_option 0 reads_shared (still r)" "reads_shared k \<le> reading d"
    and "writes' + writes_shared k = of_bool (writing d) + case_option 0 writes_shared (still r)"
      "writes_shared k \<le> of_bool (writing d)"
    and "holds' + holds_exclusive k = of_bool (exclusive_mtx d) + case_option 0 holds_exclusive (still r)"
      "holds_exclusive k \<le> of_bool (exclusive_mtx d)"
    and "\<not> (writing d \<and> 0 < reading d)"
  shows "reads' = reading d' \<and> writes' = of_bool (writing d') \<and> holds' = of_bool (exclusive_mtx d')
    \<and> \<not> (writing d' \<and> 0 < reading d')"
  using assms by (cases "writing d"; cases "exclusive_mtx d"; cases k) (auto split: if_splits)

lemma rw_step_data:
  assumes "(r, d') \<in> set (rw_step i k d)"
  shows "(shared_data d' = shared_data d \<or> writes_shared k = 1)
    \<and> (exclusive_data d' = exclusive_data d \<or> holds_exclusive k = 1)
    \<and> (distinct (map fst (shared_data d)) \<longrightarrow> distinct (map fst (shared_data d')))
    \<and> (distinct (map fst (exclusive_data d)) \<longrightarrow> distinct (map fst (exclusive_data d')))
    \<and> (rw_assert d k \<longrightarrow> case_option True (rw_assert d') (still r))"
  using assms by (cases k) (auto simp: AList.distinct_update update_conv' split: if_splits)

lemma rw_assert_frame:
  "rw_assert d k \<Longrightarrow> shared_data d' = shared_data d \<or> reads_shared k + writes_shared k = 0
    \<Longrightarrow> exclusive_data d' = exclusive_data d \<or> holds_exclusive k = 0 \<Longrightarrow> rw_assert d' k"
  by (cases k) auto

lemma rw_keeps:
  assumes inv: "rw_inv qs d" and i: "i < length qs" and k: "qs ! i = Some k"
    and st: "(r, d') \<in> set (rw_step i k d)"
  shows "rw_inv (qs[i := still r]) d'"
proof -
  let ?qs = "qs[i := still r]"
  note inv = inv [unfolded rw_inv_def]
  have asserts: "list_all (case_option True (rw_assert d)) qs" using inv by blast
  have ak: "rw_assert d k" using asserts i k by (auto simp: list_all_length dest!: spec [of _ i])
  have upd: "tsum (case_option 0 w) ?qs + w k = tsum (case_option 0 w) qs + case_option 0 w (still r)" for w
    using tsum_update [OF i, of "case_option 0 w" "still r"] k by simp
  have mine: "w k \<le> tsum (case_option 0 w) qs" for w
    using tsum_member [OF i, of "case_option 0 w"] k by simp
  have locks: "tsum (case_option 0 reads_shared) ?qs = reading d' \<and> tsum (case_option 0 writes_shared) ?qs = of_bool (writing d')
      \<and> tsum (case_option 0 holds_exclusive) ?qs = of_bool (exclusive_mtx d') \<and> \<not> (writing d' \<and> 0 < reading d')"
    by (rule rw_step_locks [OF st])
      (use upd [of reads_shared] upd [of writes_shared] upd [of holds_exclusive] mine [of reads_shared]
        mine [of writes_shared] mine [of holds_exclusive] inv in simp_all)
  note data = rw_step_data [OF st]
  have "list_all (case_option True (rw_assert d')) ?qs"
  proof (rule list_all_update_others [OF asserts i])
    show "case_option True (rw_assert d') (still r)" using data ak by blast
    fix j
    assume "j < length qs" "j \<noteq> i" and aj: "case_option True (rw_assert d) (qs ! j)"
    then have two: "w k + case_option 0 w (qs ! j) \<le> tsum (case_option 0 w) qs" for w
      using tsum_two [OF i, of j "case_option 0 w"] k by simp
    have other: "case_option 0 w (qs ! j) \<le> tsum (case_option 0 w) qs" for w
      using tsum_member [OF \<open>j < length qs\<close>, of "case_option 0 w"] by simp
    show "case_option True (rw_assert d') (qs ! j)"
    proof (cases "qs ! j")
      case (Some kj)
      have "shared_data d' = shared_data d \<or> reads_shared kj + writes_shared kj = 0"
        using data two [of writes_shared] other [of reads_shared] mine [of writes_shared] inv Some
        by (cases "writing d") auto
      moreover have "exclusive_data d' = exclusive_data d \<or> holds_exclusive kj = 0"
        using data two [of holds_exclusive] inv Some by (cases "exclusive_mtx d") auto
      ultimately show ?thesis using aj Some by (auto intro: rw_assert_frame)
    qed simp
  qed
  then show ?thesis using locks data inv unfolding rw_inv_def by blast
qed

lemma rw_inv_call:
  assumes inv: "rw_inv qs d" and i: "i < length qs" and none: "qs ! i = None"
  shows "rw_inv (qs[i := Some (rw_entry oper)]) d"
proof -
  let ?qs = "qs[i := Some (rw_entry oper)]"
  have entry: "reads_shared (rw_entry oper) = 0" "writes_shared (rw_entry oper) = 0"
    "holds_exclusive (rw_entry oper) = 0" "rw_assert d (rw_entry oper)"
    by (cases oper; simp)+
  have "tsum (case_option 0 w) ?qs = tsum (case_option 0 w) qs + w (rw_entry oper)" for w
    using tsum_update [OF i, of "case_option 0 w" "Some (rw_entry oper)"] none by simp
  then show ?thesis using inv entry by (auto simp: rw_inv_def intro: list_all_update)
qed

lemma initialize_distinct: "distinct (map fst (initialize initial_size []))"
  by (induction initial_size) (simp_all add: AList.distinct_update)

lemma rw_inv_idle:
  assumes "list_all (\<lambda>q. q = None) qs" "\<not> writing d" "reading d = 0" "\<not> exclusive_mtx d"
    "distinct (map fst (shared_data d))" "distinct (map fst (exclusive_data d))"
  shows "rw_inv qs d"
proof -
  have "tsum (case_option 0 w) qs = 0" for w :: "rw_pc \<Rightarrow> nat"
    using assms(1) by (auto simp: tsum_eq_0_iff list_all_iff)
  then show ?thesis using assms by (auto simp: rw_inv_def list_all_iff)
qed

interpretation rw: shared_object rw_step rw_entry rw_inv "rw_data_ctor initial_size" for initial_size
proof unfold_locales
  fix qs :: "rw_pc option list"
  assume "list_all (\<lambda>q. q = None) qs"
  then show "rw_inv qs (rw_data_ctor initial_size)"
    by (rule rw_inv_idle) (simp_all add: rw_data_ctor_def initialize_distinct)
next
  fix qs i k k' d d'
  assume "rw_inv qs d" "i < length qs" "qs ! i = Some k" "(Inl k', d') \<in> set (rw_step i k d)"
  then show "rw_inv (qs[i := Some k']) d'" using rw_keeps by fastforce
next
  fix qs i k v d d'
  assume "rw_inv qs d" "i < length qs" "qs ! i = Some k" "(Inr v, d') \<in> set (rw_step i k d)"
  then show "rw_inv (qs[i := None]) d'" using rw_keeps by fastforce
qed (rule rw_inv_call)

text \<open>While a call is in progress, some call can take a step.\<close>

lemma rw_progress:
  assumes inv: "rw_inv qs d" and i: "i < length qs" "qs ! i = Some k"
  shows "\<exists>j k. j < length qs \<and> qs ! j = Some k \<and> rw_step j k d \<noteq> []"
proof (rule ccontr)
  assume "\<not> ?thesis"
  then have blocked: "rw_step j k d = []" if "j < length qs" "qs ! j = Some k" for j k using that by blast
  have "reads_shared k = 0 \<and> writes_shared k = 0 \<and> holds_exclusive k = 0" if "j < length qs" "qs ! j = Some k" for j k
    using blocked [OF that] by (cases k) simp_all
  then have "tsum (case_option 0 reads_shared) qs = 0" "tsum (case_option 0 writes_shared) qs = 0"
    "tsum (case_option 0 holds_exclusive) qs = 0"
    by (blast intro: tsum_option_0)+
  then have "reading d = 0" "\<not> writing d" "\<not> exclusive_mtx d" using inv by (simp_all add: rw_inv_def)
  then show False using blocked [OF i] by (cases k) simp_all
qed

section \<open>Exclusion\<close>

text \<open>
  C10. The locks of ReadWriteData, for any clients: while a thread writes to the shared map no other
  thread reads or writes it; at most one thread is at the exclusive map; and a value that a
  reader has looked up is still the value of its key when it releases the lock.
\<close>

theorem rw_exclusion:
  assumes st: "steps (client_step prog after rw_entry rw_step) (client_start ps (rw_data_ctor initial_size) c0) (ts, (d, c))"
    and i: "i < length ts" "snd (ts ! i) = Some k" and j: "j < length ts" "snd (ts ! j) = Some k2" and "i \<noteq> j"
  shows "(writes_shared k = 1 \<longrightarrow> writes_shared k2 = 0 \<and> reads_shared k2 = 0)
    \<and> (holds_exclusive k = 1 \<longrightarrow> holds_exclusive k2 = 0)
    \<and> (\<forall>key v. k = Rd_Unlock key v \<longrightarrow> find_or (shared_data d) key = v)
    \<and> (\<forall>key v. k = Xr_Unlock key v \<longrightarrow> find_or (exclusive_data d) key = v)"
proof -
  let ?qs = "map snd ts"
  have inv: "rw_inv ?qs d" using rw.object_reach [OF st] .
  have two: "w k + w k2 \<le> tsum (case_option 0 w) ?qs" for w
    using tsum_two [of i ?qs j "case_option 0 w"] i j \<open>i \<noteq> j\<close> by simp
  have other: "w k2 \<le> tsum (case_option 0 w) ?qs" "w k \<le> tsum (case_option 0 w) ?qs" for w
    using tsum_member [of j ?qs "case_option 0 w"] tsum_member [of i ?qs "case_option 0 w"] i j by simp_all
  have "rw_assert d k" using inv i by (auto simp: rw_inv_def list_all_length dest!: spec [of _ i])
  moreover have "writes_shared k = 1 \<Longrightarrow> writes_shared k2 = 0 \<and> reads_shared k2 = 0"
    using two [of writes_shared] other [of reads_shared] other(2) [of writes_shared] inv
    by (cases "writing d") (auto simp: rw_inv_def)
  moreover have "holds_exclusive k = 1 \<Longrightarrow> holds_exclusive k2 = 0"
    using two [of holds_exclusive] inv by (cases "exclusive_mtx d") (auto simp: rw_inv_def)
  ultimately show ?thesis by auto
qed

lemmas rw_evals = client_step.simps client_start_def rw_data_ctor_def calls_prog_def calls_after_def

lemma two_readers_run:
  "exec (client_step calls_prog calls_after rw_entry rw_step)
     (client_start [[Shared_Read 0], [Shared_Read 5]] (rw_data_ctor 0) ()) (replicate 3 (0, 0) @ replicate 2 (1, 0))
   = Some ([([Shared_Read 0], Some (Rd_Unlock 0 (-1))), ([Shared_Read 5], Some (Rd_Find 5))],
       ((rw_data_ctor 0)\<lparr>reading := 2\<rparr>, ()))"
  by (simp add: numeral_eq_Suc rw_evals find_or_def)

theorem rw_exclusion_witness:
  "\<exists>ts d. steps (client_step calls_prog calls_after rw_entry rw_step)
      (client_start [[Shared_Read 0], [Shared_Read 5]] (rw_data_ctor 0) ()) (ts, (d, ()))
    \<and> snd (ts ! 0) = Some (Rd_Unlock 0 (-1)) \<and> find_or (shared_data d) 0 = -1"
proof -
  note st = exec_steps [OF two_readers_run]
  have "find_or (shared_data ((rw_data_ctor 0)\<lparr>reading := 2\<rparr>)) 0 = -1"
    using rw_exclusion [OF st, of 0 "Rd_Unlock 0 (-1)" 1 "Rd_Find 5"] by simp
  with st show ?thesis by (intro exI conjI) (assumption, simp_all)
qed

section \<open>Reading back\<close>

lemma as_int_small: "k < 2 ^ 31 \<Longrightarrow> as_int k = int k"
  by (simp add: as_int_def sint_of_nat_small)

lemma find_or_update [simp]: "find_or (AList.update key v data) key' = (if key' = key then v else find_or data key')"
  by (simp add: find_or_def update_conv')

lemma initialize_lookup:
  "initial_size \<le> 2 ^ 30 \<Longrightarrow> map_of (initialize initial_size []) key
    = (if 0 \<le> key \<and> key < int initial_size then Some (2 * key) else None)"
  by (induction initial_size) (auto simp: update_conv' as_int_small)

text \<open>
  The reference: two maps, and what each call returns and leaves.  Every call, from any number of
  threads, takes effect at one moment between its beginning and its end.
\<close>

type_synonym rw_maps = "(int \<rightharpoonup> int) \<times> (int \<rightharpoonup> int)"

fun rw_effect :: "rw_op \<Rightarrow> rw_maps \<Rightarrow> rw_ret \<times> rw_maps" where
  "rw_effect (Shared_Read key) (sh, ex) = (Value (case sh key of Some v \<Rightarrow> v | None \<Rightarrow> -1), (sh, ex))"
| "rw_effect (Shared_Write key v) (sh, ex) = (Stored, (sh(key \<mapsto> v), ex))"
| "rw_effect (Exclusive_Read key) (sh, ex) = (Value (case ex key of Some v \<Rightarrow> v | None \<Rightarrow> -1), (sh, ex))"
| "rw_effect (Exclusive_Write key v) (sh, ex) = (Stored, (sh, ex(key \<mapsto> v)))"
| "rw_effect Size (sh, ex) = (Counted (card (dom sh)), (sh, ex))"

datatype maps_pc = Maps_Asked rw_op | Maps_Answer rw_ret

fun maps_step :: "nat \<Rightarrow> maps_pc \<Rightarrow> rw_maps \<Rightarrow> ((maps_pc + rw_ret) \<times> rw_maps) list" where
  "maps_step i (Maps_Asked oper) m = (case rw_effect oper m of (r, m') \<Rightarrow> [(Inl (Maps_Answer r), m')])"
| "maps_step i (Maps_Answer r) m = [(Inr r, m)]"

fun maps_pc_of :: "rw_pc \<Rightarrow> maps_pc" where
  "maps_pc_of (Rd_Lock key) = Maps_Asked (Shared_Read key)"
| "maps_pc_of (Rd_Find key) = Maps_Asked (Shared_Read key)"
| "maps_pc_of (Rd_Unlock key v) = Maps_Answer (Value v)"
| "maps_pc_of (Wr_Lock key v) = Maps_Asked (Shared_Write key v)"
| "maps_pc_of (Wr_Set key v) = Maps_Asked (Shared_Write key v)"
| "maps_pc_of (Wr_Unlock key v) = Maps_Answer Stored"
| "maps_pc_of (Xr_Lock key) = Maps_Asked (Exclusive_Read key)"
| "maps_pc_of (Xr_Find key) = Maps_Asked (Exclusive_Read key)"
| "maps_pc_of (Xr_Unlock key v) = Maps_Answer (Value v)"
| "maps_pc_of (Xw_Lock key v) = Maps_Asked (Exclusive_Write key v)"
| "maps_pc_of (Xw_Set key v) = Maps_Asked (Exclusive_Write key v)"
| "maps_pc_of (Xw_Unlock key v) = Maps_Answer Stored"
| "maps_pc_of Sz_Lock = Maps_Asked Size"
| "maps_pc_of Sz_Count = Maps_Asked Size"
| "maps_pc_of (Sz_Unlock s) = Maps_Answer (Counted s)"

definition maps_of :: "rw_data \<Rightarrow> rw_maps" where
  "maps_of d = (map_of (shared_data d), map_of (exclusive_data d))"

lemma card_dom_map_of: "distinct (map fst data) \<Longrightarrow> card (dom (map_of data)) = length data"
  by (metis distinct_card dom_map_of_conv_image_fst length_map set_map)

lemma rw_simulated:
  assumes "rw_inv qs d" "(r, d') \<in> set (rw_step i k d)"
  shows "(call_move maps_step i)\<^sup>*\<^sup>* (maps_pc_of k, maps_of d) (case r of Inl k' \<Rightarrow> maps_pc_of k' | Inr v \<Rightarrow> Maps_Answer v, maps_of d')"
proof -
  have "card (dom (map_of (shared_data d))) = length (shared_data d)"
    using assms(1) by (simp add: rw_inv_def card_dom_map_of)
  then have "(case r of Inl k' \<Rightarrow> maps_pc_of k' | Inr v \<Rightarrow> Maps_Answer v, maps_of d') = (maps_pc_of k, maps_of d)
    \<or> call_move maps_step i (maps_pc_of k, maps_of d) (case r of Inl k' \<Rightarrow> maps_pc_of k' | Inr v \<Rightarrow> Maps_Answer v, maps_of d')"
    using assms(2) by (cases k) (auto simp: call_move_def maps_of_def find_or_def update_conv' split: if_splits)
  then show ?thesis by auto
qed

interpretation rw_maps: object_simulation rw_step rw_entry rw_inv "rw_data_ctor initial_size"
  maps_step Maps_Asked maps_pc_of "\<lambda>qs. maps_of" for initial_size
proof unfold_locales
  show "maps_pc_of (rw_entry oper) = Maps_Asked oper" for oper by (cases oper) simp_all
  show "\<exists>a s. (call_move maps_step i)\<^sup>*\<^sup>* (maps_pc_of k, maps_of d) (a, s) \<and> (Inr v, maps_of d') \<in> set (maps_step i a s)"
    if "rw_inv qs d" "(Inr v, d') \<in> set (rw_step i k d)" for qs i k v d d'
    using rw_simulated [OF that] by (intro exI [of _ "Maps_Answer v"] exI [of _ "maps_of d'"]) simp
  show "(call_move maps_step i)\<^sup>*\<^sup>* (maps_pc_of k, maps_of d) (maps_pc_of k', maps_of d')"
    if "rw_inv qs d" "(Inl k', d') \<in> set (rw_step i k d)" for qs i k k' d d'
    using rw_simulated [OF that] by simp
qed simp

text \<open>ReadWriteData is linearizable: its clients cannot tell it from the two maps.\<close>

theorem rw_refines_maps:
  assumes "steps (client_step prog after rw_entry rw_step) (client_start ps (rw_data_ctor initial_size) c0) (ts, (d, c))"
  shows "steps (client_step prog after Maps_Asked maps_step) (client_start ps (maps_of (rw_data_ctor initial_size)) c0)
    (map (apsnd (map_option maps_pc_of)) ts, (maps_of d, c))"
proof -
  have "rw_maps.abs_conf (client_start ps (rw_data_ctor initial_size) c0) = client_start ps (maps_of (rw_data_ctor initial_size)) c0"
    by (simp add: rw_maps.abs_conf_def client_start_def comp_def)
  moreover have "rw_maps.abs_conf (ts, (d, c)) = (map (apsnd (map_option maps_pc_of)) ts, (maps_of d, c))"
    by (simp add: rw_maps.abs_conf_def)
  ultimately show ?thesis using rw_maps.simulated [OF assms] by simp
qed

text \<open>Calls that run one after the other, each by some thread.\<close>

fun rw_calls :: "(nat \<times> rw_op) list \<Rightarrow> rw_data \<Rightarrow> (rw_ret list \<times> rw_data) option" where
  "rw_calls [] d = Some ([], d)"
| "rw_calls ((i, oper) # calls) d =
     (case run_call 3 (rw_step i) (rw_entry oper) d of
        None \<Rightarrow> None
      | Some (r, d') \<Rightarrow> map_option (apfst (Cons r)) (rw_calls calls d'))"

fun rw_results :: "(nat \<times> rw_op) list \<Rightarrow> rw_maps \<Rightarrow> rw_ret list \<times> rw_maps" where
  "rw_results [] m = ([], m)"
| "rw_results ((i, oper) # calls) m = (case rw_effect oper m of (r, m') \<Rightarrow> apfst (Cons r) (rw_results calls m'))"

lemma rw_call_alone:
  assumes "rw_inv [] d"
  shows "\<exists>d'. run_call 3 (rw_step i) (rw_entry oper) d = Some (fst (rw_effect oper (maps_of d)), d')
    \<and> maps_of d' = snd (rw_effect oper (maps_of d)) \<and> rw_inv [] d'"
  using assms
  by (cases oper)
    (auto simp: numeral_eq_Suc rw_inv_def maps_of_def find_or_def update_conv' card_dom_map_of AList.distinct_update)

lemma rw_calls_alone:
  "rw_inv [] d \<Longrightarrow> \<exists>d'. rw_calls calls d = Some (fst (rw_results calls (maps_of d)), d')
    \<and> maps_of d' = snd (rw_results calls (maps_of d)) \<and> rw_inv [] d'"
proof (induction calls arbitrary: d)
  case (Cons call calls)
  obtain i oper where call: "call = (i, oper)" by force
  from rw_call_alone [OF Cons.prems, of i oper] obtain d1 where
    1: "run_call 3 (rw_step i) (rw_entry oper) d = Some (fst (rw_effect oper (maps_of d)), d1)"
      "maps_of d1 = snd (rw_effect oper (maps_of d))" "rw_inv [] d1" by blast
  from Cons.IH [OF 1(3)] show ?case using 1 call by (auto split: prod.splits)
qed simp

lemma rw_results_append:
  "rw_results (calls @ calls') m = (case rw_results calls m of (rs, m') \<Rightarrow> apfst ((@) rs) (rw_results calls' m'))"
  by (induction calls arbitrary: m) (auto simp: apfst_def map_prod_def split: prod.splits)

lemma shared_kept:
  "list_all (\<lambda>t. \<forall>w. snd t \<noteq> Shared_Write key w) calls \<Longrightarrow> fst (snd (rw_results calls m)) key = fst m key"
proof (induction calls arbitrary: m)
  case (Cons call calls)
  then show ?case by (cases m; cases call; cases "snd call") (auto split: prod.splits)
qed simp

lemma exclusive_kept:
  "list_all (\<lambda>t. \<forall>w. snd t \<noteq> Exclusive_Write key w) calls \<Longrightarrow> snd (snd (rw_results calls m)) key = snd m key"
proof (induction calls arbitrary: m)
  case (Cons call calls)
  then show ?case by (cases m; cases call; cases "snd call") (auto split: prod.splits)
qed simp

lemma last_result: "last (fst (rw_results (calls @ [(j, oper)]) m)) = fst (rw_effect oper (snd (rw_results calls m)))"
  by (simp add: rw_results_append split: prod.splits)

text \<open>
  C26. Round trip through ReadWriteData.  In any state that clients can reach and in which no call is in
  progress, every call alone returns, \<open>size\<close> included, and a sequence of calls by any threads has the results
  that the two maps give.  So a read returns the value of the last write under its key to
  its map, whatever reads, size calls and writes of other keys or to the other map are in between.  The maps
  begin with the constructor's values, and -1 is read for a key that is not in the map.
\<close>

theorem rw_round_trip:
  assumes "steps (client_step prog after rw_entry rw_step) (client_start ps (rw_data_ctor initial_size) c0) (ts, (d, c))"
    and "list_all (\<lambda>t. snd t = None) ts"
    and "list_all (\<lambda>t. \<forall>w. snd t \<noteq> Shared_Write key w) calls"
    and "list_all (\<lambda>t. \<forall>w. snd t \<noteq> Exclusive_Write key w) calls'"
    and "initial_size \<le> 2 ^ 30"
  shows "map_option (\<lambda>(rs, d'). (rs, maps_of d')) (rw_calls any_calls d) = Some (rw_results any_calls (maps_of d))
    \<and> map_option (\<lambda>(rs, d'). last rs) (rw_calls ((i, Shared_Write key v) # calls @ [(j, Shared_Read key)]) d) = Some (Value v)
    \<and> map_option (\<lambda>(rs, d'). last rs) (rw_calls ((i, Exclusive_Write key v) # calls' @ [(j, Exclusive_Read key)]) d) = Some (Value v)
    \<and> maps_of (rw_data_ctor initial_size)
      = (\<lambda>k. if 0 \<le> k \<and> k < int initial_size then Some (2 * k) else None,
         \<lambda>k. if 0 \<le> k \<and> k < int initial_size then Some (2 * k) else None)"
proof -
  have "rw_inv (map snd ts) d" using rw.object_reach [OF assms(1)] .
  moreover have "map snd ts = replicate (length ts) None"
    using assms(2) by (auto simp: list_all_length intro!: nth_equalityI)
  ultimately have inv: "rw_inv [] d" by (simp add: rw_inv_def)
  have all: "map_option (\<lambda>(rs, d'). (rs, maps_of d')) (rw_calls cs d) = Some (rw_results cs (maps_of d))" for cs
    using rw_calls_alone [OF inv, of cs] by auto
  have final: "map_option (\<lambda>(rs, d'). last rs) (rw_calls ((i, first) # cs @ [(j, final)]) d)
      = Some (fst (rw_effect final (snd (rw_results cs (snd (rw_effect first (maps_of d)))))))" for first final cs
    using rw_calls_alone [OF inv, of "(i, first) # cs @ [(j, final)]"] last_result [of "(i, first) # cs" j final "maps_of d"]
    by (auto split: prod.splits)
  have "snd (rw_effect (Shared_Write key v) m) = ((fst m)(key \<mapsto> v), snd m)"
    "snd (rw_effect (Exclusive_Write key v) m) = (fst m, (snd m)(key \<mapsto> v))"
    "fst (rw_effect (Shared_Read key) m) = Value (case fst m key of Some v \<Rightarrow> v | None \<Rightarrow> -1)"
    "fst (rw_effect (Exclusive_Read key) m) = Value (case snd m key of Some v \<Rightarrow> v | None \<Rightarrow> -1)" for m
    by (cases m; simp)+
  then have reads: "fst (rw_effect (Shared_Read key) (snd (rw_results calls (snd (rw_effect (Shared_Write key v) (maps_of d)))))) = Value v"
    "fst (rw_effect (Exclusive_Read key) (snd (rw_results calls' (snd (rw_effect (Exclusive_Write key v) (maps_of d)))))) = Value v"
    by (simp_all add: shared_kept [OF assms(3)] exclusive_kept [OF assms(4)])
  have "maps_of (rw_data_ctor initial_size)
      = (\<lambda>k. if 0 \<le> k \<and> k < int initial_size then Some (2 * k) else None,
         \<lambda>k. if 0 \<le> k \<and> k < int initial_size then Some (2 * k) else None)"
    by (simp add: maps_of_def rw_data_ctor_def initialize_lookup [OF assms(5)] fun_eq_iff)
  then show ?thesis by (intro conjI) (simp_all only: all final reads)
qed

theorem rw_round_trip_witness:
  "map_option (\<lambda>(rs, d'). last rs) (rw_calls [(0, Shared_Write 7 9), (1, Size), (2, Exclusive_Write 7 1), (1, Shared_Read 7)]
     (rw_data_ctor 3)) = Some (Value 9)"
proof -
  have "steps (client_step calls_prog calls_after rw_entry rw_step) (client_start [] (rw_data_ctor 3) ()) ([], (rw_data_ctor 3, ()))"
    by (simp add: client_start_def)
  from rw_round_trip [OF this, of 7 "[(1, Size), (2, Exclusive_Write 7 1)]" "[]" "[]" 0 9 1] show ?thesis by simp
qed

end
