(* ===== verification/Rw_Bench.thy ===== *)
theory Rw_Bench
  imports Rw_Mutex Scripts Fairness
begin

text \<open>
  The four benchmarks of src/bench\_rw\_shared\_mutex.cpp.  \<open>draw tid j\<close> is what \<open>percent(gen)\<close> returns
  to thread \<open>tid\<close> in round \<open>j\<close>.  A round is a call on the data and then, as atomic actions, the
  recording (in SharedMutex\_ReadHeavy\_90\_10 only) and the count.
\<close>

section \<open>The programs\<close>

text \<open>\<open>generate_keys\<close>: \<open>dis i\<close> is the \<open>i\<close>th value of the distribution over 0 .. \<open>max_key - 1\<close>.\<close>

definition generate_keys :: "(int \<Rightarrow> nat \<Rightarrow> int) \<Rightarrow> nat \<Rightarrow> int \<Rightarrow> int list" where
  "generate_keys dis key_count max_key = foldl (\<lambda>keys i. keys @ [dis (max_key - 1) i]) [] [0..<key_count]"

record rw_tally =
  reader_tracker :: variance_tracker
  writer_tracker :: variance_tracker
  total_reads :: uint64
  total_writes :: uint64

definition rw_tally_start :: "nat \<Rightarrow> rw_tally" where
  "rw_tally_start num_threads = \<lparr>reader_tracker = reset_counts (variance_tracker_ctor num_threads),
     writer_tracker = reset_counts (variance_tracker_ctor num_threads), total_reads = 0, total_writes = 0\<rparr>"

definition rw_call :: "bool \<Rightarrow> int \<Rightarrow> int list \<Rightarrow> (nat \<Rightarrow> nat \<Rightarrow> int) \<Rightarrow> nat \<Rightarrow> nat \<Rightarrow> rw_op" where
  "rw_call shared read_percentage keys draw thread_id j =
     (let key = keys ! (j mod length keys) in
      if draw thread_id j < read_percentage
      then if shared then Shared_Read key else Exclusive_Read key
      else if shared then Shared_Write key (as_int j) else Exclusive_Write key (as_int j))"

definition rw_record :: "int \<Rightarrow> (nat \<Rightarrow> nat \<Rightarrow> int) \<Rightarrow> nat \<Rightarrow> nat \<Rightarrow> rw_tally \<Rightarrow> rw_tally" where
  "rw_record read_percentage draw thread_id j c =
     (if draw thread_id j < read_percentage
      then c\<lparr>reader_tracker := record_operation thread_id (reader_tracker c)\<rparr>
      else c\<lparr>writer_tracker := record_operation thread_id (writer_tracker c)\<rparr>)"

definition rw_count :: "int \<Rightarrow> (nat \<Rightarrow> nat \<Rightarrow> int) \<Rightarrow> nat \<Rightarrow> nat \<Rightarrow> rw_tally \<Rightarrow> rw_tally" where
  "rw_count read_percentage draw thread_id j c =
     (if draw thread_id j < read_percentage
      then c\<lparr>total_reads := total_reads c + 1\<rparr> else c\<lparr>total_writes := total_writes c + 1\<rparr>)"

text \<open>The instructions of a thread, three a round with the recording and two without it.\<close>

definition rw_tracked_code :: "int \<Rightarrow> int list \<Rightarrow> (nat \<Rightarrow> nat \<Rightarrow> int) \<Rightarrow> nat \<Rightarrow> nat \<Rightarrow> (rw_op, rw_tally) instr" where
  "rw_tracked_code read_percentage keys draw thread_id m =
     (let j = m div 3 in
      if m mod 3 = 0 then Call (rw_call True read_percentage keys draw thread_id j)
      else if m mod 3 = 1 then Do (rw_record read_percentage draw thread_id j)
      else Do (rw_count read_percentage draw thread_id j))"

definition rw_code :: "bool \<Rightarrow> int \<Rightarrow> int list \<Rightarrow> (nat \<Rightarrow> nat \<Rightarrow> int) \<Rightarrow> nat \<Rightarrow> nat \<Rightarrow> (rw_op, rw_tally) instr" where
  "rw_code shared read_percentage keys draw thread_id m =
     (let j = m div 2 in
      if m mod 2 = 0 then Call (rw_call shared read_percentage keys draw thread_id j)
      else Do (rw_count read_percentage draw thread_id j))"

definition read_heavy_step :: "nat \<Rightarrow> int list \<Rightarrow> (nat \<Rightarrow> nat \<Rightarrow> int)
  \<Rightarrow> (script_pc \<times> rw_pc option, rw_data \<times> rw_tally) stepper" where
  "read_heavy_step num_threads keys draw =
     script_step rw_entry rw_step num_threads (3 * 10000) (rw_tracked_code 90 keys draw)"

definition balanced_step :: "nat \<Rightarrow> int list \<Rightarrow> (nat \<Rightarrow> nat \<Rightarrow> int)
  \<Rightarrow> (script_pc \<times> rw_pc option, rw_data \<times> rw_tally) stepper" where
  "balanced_step num_threads keys draw =
     script_step rw_entry rw_step num_threads (2 * 10000) (rw_code True 70 keys draw)"

definition exclusive_step :: "nat \<Rightarrow> int list \<Rightarrow> (nat \<Rightarrow> nat \<Rightarrow> int)
  \<Rightarrow> (script_pc \<times> rw_pc option, rw_data \<times> rw_tally) stepper" where
  "exclusive_step num_threads keys draw =
     script_step rw_entry rw_step num_threads (2 * 10000) (rw_code False 90 keys draw)"

definition write_heavy_step :: "nat \<Rightarrow> int list \<Rightarrow> (nat \<Rightarrow> nat \<Rightarrow> int)
  \<Rightarrow> (script_pc \<times> rw_pc option, rw_data \<times> rw_tally) stepper" where
  "write_heavy_step num_threads keys draw =
     script_step rw_entry rw_step num_threads (2 * 5000) (rw_code True 50 keys draw)"

definition rw_bench_start :: "nat \<Rightarrow> rw_data \<Rightarrow> (script_pc \<times> rw_pc option, rw_data \<times> rw_tally) conf" where
  "rw_bench_start num_threads d = script_start num_threads d (rw_tally_start num_threads)"

section \<open>What the threads have counted\<close>

text \<open>How many of the first \<open>m\<close> rounds of a thread are reads, and how many writes.\<close>

definition reads_of :: "int \<Rightarrow> (nat \<Rightarrow> nat \<Rightarrow> int) \<Rightarrow> nat \<Rightarrow> nat \<Rightarrow> nat" where
  "reads_of pct draw tid m = length (filter (\<lambda>j. draw tid j < pct) [0..<m])"

definition writes_of :: "int \<Rightarrow> (nat \<Rightarrow> nat \<Rightarrow> int) \<Rightarrow> nat \<Rightarrow> nat \<Rightarrow> nat" where
  "writes_of pct draw tid m = length (filter (\<lambda>j. \<not> draw tid j < pct) [0..<m])"

lemma reads_of_0 [simp]: "reads_of pct draw tid 0 = 0" and writes_of_0 [simp]: "writes_of pct draw tid 0 = 0"
  by (simp_all add: reads_of_def writes_of_def)

lemma reads_of_Suc: "reads_of pct draw tid (Suc m) = reads_of pct draw tid m + (if draw tid m < pct then 1 else 0)"
  and writes_of_Suc: "writes_of pct draw tid (Suc m) = writes_of pct draw tid m + (if draw tid m < pct then 0 else 1)"
  by (simp_all add: reads_of_def writes_of_def)

lemma reads_and_writes: "reads_of pct draw tid m + writes_of pct draw tid m = m"
  by (induction m) (simp_all add: reads_of_Suc writes_of_Suc)

text \<open>Between iterations: no lock is held, and the initial keys have values that are not negative.\<close>

definition rw_ready :: "nat \<Rightarrow> rw_data \<Rightarrow> bool" where
  "rw_ready size0 d \<longleftrightarrow> \<not> writing d \<and> reading d = 0 \<and> \<not> exclusive_mtx d
     \<and> distinct (map fst (shared_data d)) \<and> distinct (map fst (exclusive_data d))
     \<and> (\<forall>key. 0 \<le> key \<and> key < int size0 \<longrightarrow> 0 \<le> find_or (shared_data d) key \<and> 0 \<le> find_or (exclusive_data d) key)"

fun rw_call_ok :: "nat \<Rightarrow> rw_pc \<Rightarrow> bool" where
  "rw_call_ok size0 (Rd_Lock key) = (0 \<le> key \<and> key < int size0)"
| "rw_call_ok size0 (Rd_Find key) = (0 \<le> key \<and> key < int size0)"
| "rw_call_ok size0 (Rd_Unlock key v) = (0 \<le> v)"
| "rw_call_ok size0 (Wr_Lock key v) = (0 \<le> v)"
| "rw_call_ok size0 (Wr_Set key v) = (0 \<le> v)"
| "rw_call_ok size0 (Xr_Lock key) = (0 \<le> key \<and> key < int size0)"
| "rw_call_ok size0 (Xr_Find key) = (0 \<le> key \<and> key < int size0)"
| "rw_call_ok size0 (Xr_Unlock key v) = (0 \<le> v)"
| "rw_call_ok size0 (Xw_Lock key v) = (0 \<le> v)"
| "rw_call_ok size0 (Xw_Set key v) = (0 \<le> v)"
| "rw_call_ok size0 k = True"

text \<open>
  \<open>counted m\<close> and \<open>recorded m\<close> are the rounds counted and recorded after \<open>m\<close> instructions.
\<close>

definition rw_counting :: "nat \<Rightarrow> nat \<Rightarrow> int \<Rightarrow> (nat \<Rightarrow> nat \<Rightarrow> int) \<Rightarrow> (nat \<Rightarrow> nat) \<Rightarrow> (nat \<Rightarrow> nat)
  \<Rightarrow> (nat \<Rightarrow> nat) \<Rightarrow> rw_pc option list \<Rightarrow> rw_data \<Rightarrow> rw_tally \<Rightarrow> bool" where
  "rw_counting n size0 pct draw counted recorded P qs d c \<longleftrightarrow>
     rw_inv qs d \<and> list_all (case_option True (rw_call_ok size0)) qs \<and>
     (\<forall>key. 0 \<le> key \<and> key < int size0 \<longrightarrow> 0 \<le> find_or (shared_data d) key \<and> 0 \<le> find_or (exclusive_data d) key) \<and>
     total_reads c = of_nat (\<Sum>tid < n. reads_of pct draw tid (counted (P tid))) \<and>
     total_writes c = of_nat (\<Sum>tid < n. writes_of pct draw tid (counted (P tid))) \<and>
     thread_counts (reader_tracker c) = map (\<lambda>tid. of_nat (reads_of pct draw tid (recorded (P tid)))) [0..<n] \<and>
     thread_counts (writer_tracker c) = map (\<lambda>tid. of_nat (writes_of pct draw tid (recorded (P tid)))) [0..<n]"

lemma rw_step_call_ok:
  assumes "(r, d') \<in> set (rw_step i k d)" "rw_call_ok size0 k"
    and "\<forall>key. 0 \<le> key \<and> key < int size0 \<longrightarrow> 0 \<le> find_or (shared_data d) key \<and> 0 \<le> find_or (exclusive_data d) key"
  shows "case_option True (rw_call_ok size0) (still r)
    \<and> (\<forall>key. 0 \<le> key \<and> key < int size0 \<longrightarrow> 0 \<le> find_or (shared_data d') key \<and> 0 \<le> find_or (exclusive_data d') key)"
  using assms by (cases k) (auto split: if_splits)

text \<open>Calls, and instructions that neither count nor record, leave the tallies alone.\<close>

lemma rw_counting_cong:
  assumes "rw_counting n size0 pct draw counted recorded P qs d c"
    and "rw_inv qs' d'" "list_all (case_option True (rw_call_ok size0)) qs'"
      "\<forall>key. 0 \<le> key \<and> key < int size0 \<longrightarrow> 0 \<le> find_or (shared_data d') key \<and> 0 \<le> find_or (exclusive_data d') key"
    and "\<And>tid. tid < n \<Longrightarrow> counted (P' tid) = counted (P tid) \<and> recorded (P' tid) = recorded (P tid)"
  shows "rw_counting n size0 pct draw counted recorded P' qs' d' c"
  using assms by (simp add: rw_counting_def cong: sum.cong_simp)

lemma rw_counting_count:
  assumes inv: "rw_counting n size0 pct draw counted recorded P qs d c" and "tid < n" and m: "P tid = m"
    and upd: "counted (Suc m) = Suc (counted m)" "recorded (Suc m) = recorded m"
  shows "rw_counting n size0 pct draw counted recorded (P(tid := Suc m)) qs d (rw_count pct draw tid (counted m) c)"
proof -
  let ?r = "\<lambda>t p. reads_of pct draw t (counted p)" and ?w = "\<lambda>t p. writes_of pct draw t (counted p)"
  note reads = sum_fun_upd [OF \<open>tid < n\<close>, of ?r P "Suc m"] and writes = sum_fun_upd [OF \<open>tid < n\<close>, of ?w P "Suc m"]
  have same: "recorded ((P(tid := Suc m)) t) = recorded (P t)" for t using upd m by simp
  show ?thesis
  proof (cases "draw tid (counted m) < pct")
    case True
    then have "(\<Sum>t < n. ?r t ((P(tid := Suc m)) t)) = (\<Sum>t < n. ?r t (P t)) + 1"
        "(\<Sum>t < n. ?w t ((P(tid := Suc m)) t)) = (\<Sum>t < n. ?w t (P t))"
      using reads writes m upd by (simp_all add: reads_of_Suc writes_of_Suc)
    then show ?thesis using inv True unfolding rw_counting_def rw_count_def same by simp
  next
    case False
    then have "(\<Sum>t < n. ?r t ((P(tid := Suc m)) t)) = (\<Sum>t < n. ?r t (P t))"
        "(\<Sum>t < n. ?w t ((P(tid := Suc m)) t)) = (\<Sum>t < n. ?w t (P t)) + 1"
      using reads writes m upd by (simp_all add: reads_of_Suc writes_of_Suc)
    then show ?thesis using inv False unfolding rw_counting_def rw_count_def same by simp
  qed
qed

lemma rw_counting_record:
  assumes inv: "rw_counting n size0 pct draw counted recorded P qs d c" and "tid < n" and m: "P tid = m"
    and upd: "recorded (Suc m) = Suc (recorded m)" "counted (Suc m) = counted m"
  shows "rw_counting n size0 pct draw counted recorded (P(tid := Suc m)) qs d (rw_record pct draw tid (recorded m) c)"
proof -
  have same: "counted ((P(tid := Suc m)) t) = counted (P t)" for t using upd m by simp
  let ?r = "\<lambda>Q t. of_nat (reads_of pct draw t (recorded (Q t))) :: uint64"
    and ?w = "\<lambda>Q t. of_nat (writes_of pct draw t (recorded (Q t))) :: uint64"
  let ?P = "P(tid := Suc m)"
  have "thread_counts (reader_tracker (rw_record pct draw tid (recorded m) c)) = map (?r ?P) [0..<n]
      \<and> thread_counts (writer_tracker (rw_record pct draw tid (recorded m) c)) = map (?w ?P) [0..<n]"
  proof (cases "draw tid (recorded m) < pct")
    case True
    then have "(?r P)(tid := ?r P tid + 1) = ?r ?P" "?w ?P = ?w P"
      using m upd by (auto simp: fun_eq_iff reads_of_Suc writes_of_Suc)
    then show ?thesis
      using inv True record_operation_map [OF \<open>tid < n\<close>, of "reader_tracker c" "?r P"]
      by (simp add: rw_counting_def rw_record_def)
  next
    case False
    then have "(?w P)(tid := ?w P tid + 1) = ?w ?P" "?r ?P = ?r P"
      using m upd by (auto simp: fun_eq_iff reads_of_Suc writes_of_Suc)
    then show ?thesis
      using inv False record_operation_map [OF \<open>tid < n\<close>, of "writer_tracker c" "?w P"]
      by (simp add: rw_counting_def rw_record_def)
  qed
  moreover have "total_reads (rw_record pct draw tid j c) = total_reads c"
    "total_writes (rw_record pct draw tid j c) = total_writes c" for j
    by (simp_all add: rw_record_def)
  ultimately show ?thesis using inv unfolding rw_counting_def same by simp
qed

lemma rw_counting_start:
  assumes "rw_ready size0 d" and "counted 0 = 0" "recorded 0 = 0"
  shows "rw_counting n size0 pct draw counted recorded (\<lambda>_. 0) (replicate m None) d (rw_tally_start n)"
proof -
  have "rw_inv (replicate m None) d" using assms(1) by (intro rw_inv_idle) (simp_all add: rw_ready_def list_all_iff)
  then show ?thesis
    using assms
    by (auto simp: rw_counting_def rw_ready_def rw_tally_start_def reset_counts_def variance_tracker_ctor_def
        list_all_iff map_replicate_const)
qed

lemma rw_counting_ready: "rw_counting n size0 pct draw counted recorded P (replicate m None) d c \<Longrightarrow> rw_ready size0 d"
  by (auto simp: rw_counting_def rw_ready_def rw_inv_def)

fun rw_left :: "rw_pc \<Rightarrow> nat" where
  "rw_left (Rd_Lock key) = 2" | "rw_left (Rd_Find key) = 1"
| "rw_left (Wr_Lock key v) = 2" | "rw_left (Wr_Set key v) = 1"
| "rw_left (Xr_Lock key) = 2" | "rw_left (Xr_Find key) = 1"
| "rw_left (Xw_Lock key v) = 2" | "rw_left (Xw_Set key v) = 1"
| "rw_left Sz_Lock = 2" | "rw_left Sz_Count = 1"
| "rw_left k = 0"

text \<open>Any code whose calls are rounds, and whose other instructions count or record, is a counting script.\<close>

lemma rw_scripted:
  assumes ready: "rw_ready size0 d" and start: "counted 0 = 0" "recorded 0 = 0"
    and calls: "\<And>tid m oper. m < len \<Longrightarrow> code tid m = Call oper \<Longrightarrow> rw_call_ok size0 (rw_entry oper)
      \<and> counted (Suc m) = counted m \<and> recorded (Suc m) = recorded m"
    and dos: "\<And>tid m f. m < len \<Longrightarrow> code tid m = Do f \<Longrightarrow>
        f = rw_count pct draw tid (counted m) \<and> counted (Suc m) = Suc (counted m) \<and> recorded (Suc m) = recorded m
      \<or> f = rw_record pct draw tid (recorded m) \<and> recorded (Suc m) = Suc (recorded m) \<and> counted (Suc m) = counted m"
  shows "scripted rw_step rw_entry n len code d (rw_tally_start n)
    (rw_counting n size0 pct draw counted recorded) rw_left 3"
proof unfold_locales
  show "rw_counting n size0 pct draw counted recorded (\<lambda>_. 0) (replicate (Suc n) None) d (rw_tally_start n)"
    using ready start by (rule rw_counting_start)
next
  fix P qs d c tid oper
  assume inv: "rw_counting n size0 pct draw counted recorded P qs d c" and "length qs = Suc n" "tid < n"
    "qs ! Suc tid = None" "P tid < len" "code tid (P tid) = Call oper"
  then show "rw_counting n size0 pct draw counted recorded P (qs[Suc tid := Some (rw_entry oper)]) d c"
    using calls [of "P tid" tid oper]
    by (intro rw_counting_cong [OF inv]) (auto simp: rw_counting_def intro: rw_inv_call list_all_update)
next
  fix P qs d c tid f
  assume inv: "rw_counting n size0 pct draw counted recorded P qs d c" and tid: "tid < n"
    and m: "P tid < len" "code tid (P tid) = Do f"
  from dos [OF m] show "rw_counting n size0 pct draw counted recorded (P(tid := Suc (P tid))) qs d (f c)"
    using rw_counting_count [OF inv tid refl] rw_counting_record [OF inv tid refl] by auto
next
  fix P qs d c tid k oper k' d'
  assume inv: "rw_counting n size0 pct draw counted recorded P qs d c" and "length qs = Suc n" "tid < n"
    "qs ! Suc tid = Some k" and st: "(Inl k', d') \<in> set (rw_step (Suc tid) k d)"
  then show "rw_counting n size0 pct draw counted recorded P (qs[Suc tid := Some k']) d' c"
    using rw_step_call_ok [OF st, of size0] rw_keeps [OF _ _ _ st, of qs]
    by (intro rw_counting_cong [OF inv]) (auto simp: rw_counting_def list_all_length nth_list_update)
next
  fix P qs d c tid k oper v d'
  assume inv: "rw_counting n size0 pct draw counted recorded P qs d c" and "length qs = Suc n" "tid < n"
    "qs ! Suc tid = Some k" and m: "P tid < len" "code tid (P tid) = Call oper"
    and st: "(Inr v, d') \<in> set (rw_step (Suc tid) k d)"
  then show "rw_counting n size0 pct draw counted recorded (P(tid := Suc (P tid))) (qs[Suc tid := None]) d' c"
    using rw_step_call_ok [OF st, of size0] rw_keeps [OF _ _ _ st, of qs] calls [OF m]
    by (intro rw_counting_cong [OF inv]) (auto simp: rw_counting_def list_all_length nth_list_update)
next
  fix P qs d c i
  assume "rw_counting n size0 pct draw counted recorded P qs d c" "i < length qs" "qs ! i \<noteq> None"
  then show "\<exists>j k. j < length qs \<and> qs ! j = Some k \<and> rw_step j k d \<noteq> []"
    using rw_progress [of qs d i] by (auto simp: rw_counting_def)
next
  show "rw_left (rw_entry oper) < 3" for oper by (cases oper) simp_all
next
  show "(Inl k', d') \<in> set (rw_step i k d) \<Longrightarrow> rw_left k' < rw_left k" for k' d' i k d
    by (cases k) (auto split: if_splits)
qed

section \<open>The reports\<close>

text \<open>What an iteration of \<open>ops\<close> rounds per thread leaves behind.\<close>

definition rw_reported :: "nat \<Rightarrow> nat \<Rightarrow> nat \<Rightarrow> int \<Rightarrow> (nat \<Rightarrow> nat \<Rightarrow> int)
  \<Rightarrow> (script_pc \<times> rw_pc option, rw_data \<times> rw_tally) conf \<Rightarrow> bool" where
  "rw_reported n size0 ops pct draw conf = (case conf of (ts, (d, c)) \<Rightarrow>
     ts = script_end n \<and> rw_ready size0 d
     \<and> total_reads c = of_nat (\<Sum>tid < n. reads_of pct draw tid ops)
     \<and> total_reads c + total_writes c = of_nat (n * ops))"

definition rw_tracked_reported :: "nat \<Rightarrow> nat \<Rightarrow> nat \<Rightarrow> int \<Rightarrow> (nat \<Rightarrow> nat \<Rightarrow> int)
  \<Rightarrow> (script_pc \<times> rw_pc option, rw_data \<times> rw_tally) conf \<Rightarrow> bool" where
  "rw_tracked_reported n size0 ops pct draw conf = (case conf of (ts, (d, c)) \<Rightarrow>
     rw_reported n size0 ops pct draw conf
     \<and> get_counts (reader_tracker c) = map (\<lambda>tid. of_nat (reads_of pct draw tid ops)) [0..<n]
     \<and> get_counts (writer_tracker c) = map (\<lambda>tid. of_nat (writes_of pct draw tid ops)) [0..<n])"

definition keys_within :: "int list \<Rightarrow> nat \<Rightarrow> bool" where
  "keys_within keys size0 \<longleftrightarrow> keys \<noteq> [] \<and> list_all (\<lambda>key. 0 \<le> key \<and> key < int size0) keys"

lemma rw_call_entry:
  assumes "keys_within keys size0" "j < 2 ^ 31"
  shows "rw_call_ok size0 (rw_entry (rw_call shared pct keys draw tid j))"
proof -
  have "keys ! (j mod length keys) \<in> set keys" using assms(1) by (simp add: keys_within_def)
  then show ?thesis
    using assms by (auto simp: rw_call_def keys_within_def list_all_iff Let_def as_int_small)
qed

lemma rw_totals:
  assumes "rw_counting n size0 pct draw counted recorded P qs d c" "\<And>tid. tid < n \<Longrightarrow> counted (P tid) = ops"
  shows "total_reads c = of_nat (\<Sum>tid < n. reads_of pct draw tid ops) \<and> total_reads c + total_writes c = of_nat (n * ops)"
proof -
  have "(\<Sum>tid < n. reads_of pct draw tid ops) + (\<Sum>tid < n. writes_of pct draw tid ops) = n * ops"
    unfolding sum.distrib [symmetric] reads_and_writes by simp
  then have "(of_nat (\<Sum>tid < n. reads_of pct draw tid ops) :: uint64) + of_nat (\<Sum>tid < n. writes_of pct draw tid ops)
      = of_nat (n * ops)" by (metis of_nat_add)
  moreover have "(\<Sum>tid < n. f tid (counted (P tid))) = (\<Sum>tid < n. f tid ops)" for f :: "nat \<Rightarrow> nat \<Rightarrow> nat"
    using assms(2) by simp
  ultimately show ?thesis using assms(1) by (simp only: rw_counting_def)
qed

lemma rw_reportedI:
  assumes "ts = script_end n \<and> rw_counting n size0 pct draw counted recorded P (replicate m None) d c"
    and "\<And>tid. tid < n \<Longrightarrow> counted (P tid) = ops"
  shows "rw_reported n size0 ops pct draw (ts, (d, c))"
  using rw_totals [OF conjunct2 [OF assms(1)] assms(2)] rw_counting_ready [OF conjunct2 [OF assms(1)]] assms(1)
  unfolding rw_reported_def prod.case by blast

lemma rw_tracked_scripted:
  assumes "rw_ready size0 d" "keys_within keys size0"
  shows "scripted rw_step rw_entry n (3 * 10000) (rw_tracked_code pct keys draw) d (rw_tally_start n)
    (rw_counting n size0 pct draw (\<lambda>m. m div 3) (\<lambda>m. (m + 1) div 3)) rw_left 3"
proof (rule rw_scripted [OF assms(1)])
  fix tid m oper
  assume m: "m < 3 * 10000" "rw_tracked_code pct keys draw tid m = Call oper"
  then have "m mod 3 = 0" "oper = rw_call True pct keys draw tid (m div 3)"
    by (auto simp: rw_tracked_code_def Let_def split: if_splits)
  moreover have "m div 3 < 2 ^ 31" using m by simp
  ultimately show "rw_call_ok size0 (rw_entry oper) \<and> Suc m div 3 = m div 3 \<and> (Suc m + 1) div 3 = (m + 1) div 3"
    using rw_call_entry [OF assms(2)] by (simp add: div_Suc mod_Suc)
next
  fix tid m f
  assume "rw_tracked_code pct keys draw tid m = Do f"
  then have "m mod 3 = 1 \<and> f = rw_record pct draw tid (m div 3) \<or> m mod 3 = 2 \<and> f = rw_count pct draw tid (m div 3)"
    by (auto simp: rw_tracked_code_def Let_def split: if_splits)
  moreover have "m mod 3 = 1 \<Longrightarrow> (m + 1) div 3 = m div 3 \<and> (Suc m + 1) div 3 = Suc (m div 3) \<and> Suc m div 3 = m div 3"
    "m mod 3 = 2 \<Longrightarrow> Suc m div 3 = Suc (m div 3) \<and> (Suc m + 1) div 3 = (m + 1) div 3"
    by (simp_all add: div_Suc mod_Suc)
  ultimately show "f = rw_count pct draw tid (m div 3) \<and> Suc m div 3 = Suc (m div 3) \<and> (Suc m + 1) div 3 = (m + 1) div 3
      \<or> f = rw_record pct draw tid ((m + 1) div 3) \<and> (Suc m + 1) div 3 = Suc ((m + 1) div 3) \<and> Suc m div 3 = m div 3"
    by auto
qed simp_all

lemma rw_code_scripted:
  assumes "rw_ready size0 d" "keys_within keys size0" "ops \<le> 2 ^ 31"
  shows "scripted rw_step rw_entry n (2 * ops) (rw_code shared pct keys draw) d (rw_tally_start n)
    (rw_counting n size0 pct draw (\<lambda>m. m div 2) (\<lambda>m. 0)) rw_left 3"
proof (rule rw_scripted [OF assms(1)])
  fix tid m oper
  assume m: "m < 2 * ops" "rw_code shared pct keys draw tid m = Call oper"
  then have "m mod 2 = 0" "oper = rw_call shared pct keys draw tid (m div 2)"
    by (auto simp: rw_code_def Let_def split: if_splits)
  moreover have "m div 2 < 2 ^ 31" using m assms(3) by simp
  ultimately show "rw_call_ok size0 (rw_entry oper) \<and> Suc m div 2 = m div 2 \<and> (0 :: nat) = 0"
    using rw_call_entry [OF assms(2)] by (simp add: div_Suc mod_Suc)
next
  fix tid m f
  assume "rw_code shared pct keys draw tid m = Do f"
  then have "m mod 2 = 1 \<and> f = rw_count pct draw tid (m div 2)"
    by (auto simp: rw_code_def Let_def split: if_splits)
  moreover have "m mod 2 = 1 \<Longrightarrow> Suc m div 2 = Suc (m div 2)" by (simp add: div_Suc mod_Suc)
  ultimately show "f = rw_count pct draw tid (m div 2) \<and> Suc m div 2 = Suc (m div 2) \<and> (0 :: nat) = 0
      \<or> f = rw_record pct draw tid 0 \<and> 0 = Suc 0 \<and> Suc m div 2 = m div 2" by simp
qed simp_all

lemma generate_keys_eq: "generate_keys dis key_count max_key = map (dis (max_key - 1)) [0..<key_count]"
proof -
  have "foldl (\<lambda>keys i. keys @ [f i]) acc js = acc @ map f js" for f :: "nat \<Rightarrow> int" and acc js
    by (induction js arbitrary: acc) simp_all
  then show ?thesis by (simp add: generate_keys_def)
qed

lemma generate_keys_within:
  assumes "0 < key_count" "\<And>m i. 0 \<le> m \<Longrightarrow> 0 \<le> dis m i \<and> dis m i \<le> m" "0 < size0"
  shows "keys_within (generate_keys dis key_count (int size0)) size0"
proof -
  have "0 \<le> dis (int size0 - 1) i \<and> dis (int size0 - 1) i < int size0" for i
    using assms(2) [of "int size0 - 1" i] \<open>0 < size0\<close> by linarith
  then show ?thesis using \<open>0 < key_count\<close> by (simp add: generate_keys_eq keys_within_def list_all_iff)
qed

text \<open>
  C25. The reader/writer benchmarks, from any state of the data between two iterations, for keys from a
  generator that keeps to its range, and whatever the threads draw: every run of an iteration
  ends, without deadlock, ready for the next one, and the two totals count every operation of
  every thread exactly once; SharedMutex\_ReadHeavy\_90\_10 also counts them right per thread.
\<close>

theorem rw_benchmarks_report:
  assumes "\<And>m i. 0 \<le> m \<Longrightarrow> 0 \<le> dis m i \<and> dis m i \<le> m" and "rw_ready 1000 d" "rw_ready 500 d2"
  shows "finishes (read_heavy_step n (generate_keys dis 10000 1000) draw) (rw_bench_start n d)
      (rw_tracked_reported n 1000 10000 90 draw) (n * 120004 + 2)
    \<and> finishes (balanced_step n (generate_keys dis 10000 1000) draw) (rw_bench_start n d)
      (rw_reported n 1000 10000 70 draw) (n * 80004 + 2)
    \<and> finishes (exclusive_step n (generate_keys dis 10000 1000) draw) (rw_bench_start n d)
      (rw_reported n 1000 10000 90 draw) (n * 80004 + 2)
    \<and> finishes (write_heavy_step n (generate_keys dis 5000 500) draw) (rw_bench_start n d2)
      (rw_reported n 500 5000 50 draw) (n * 40004 + 2)"
proof -
  have keys: "keys_within (generate_keys dis 10000 1000) 1000" "keys_within (generate_keys dis 5000 500) 500"
    using generate_keys_within [of 10000 dis 1000] generate_keys_within [of 5000 dis 500] assms(1) by simp_all
  have plain: "rw_reported n size0 ops pct draw (ts, (d, c))"
    if "ts = script_end n \<and> rw_counting n size0 pct draw (\<lambda>m. m div 2) (\<lambda>m. 0)
      (\<lambda>tid. if tid < n then 2 * ops else 0) (replicate (Suc n) None) d c" for size0 ops pct ts d c
    by (rule rw_reportedI [OF that]) simp
  have tracked: "rw_tracked_reported n 1000 10000 90 draw (ts, (d, c))"
    if "ts = script_end n \<and> rw_counting n 1000 90 draw (\<lambda>m. m div 3) (\<lambda>m. (m + 1) div 3)
      (\<lambda>tid. if tid < n then 3 * 10000 else 0) (replicate (Suc n) None) d c" for ts d c
  proof -
    have "rw_reported n 1000 10000 90 draw (ts, (d, c))"
      by (rule rw_reportedI [OF that]) simp
    then show ?thesis
      using that unfolding rw_tracked_reported_def prod.case rw_counting_def get_counts_eq
      by (elim conjE) (intro conjI, assumption, simp_all)
  qed
  note finish = scripted.script_finishes [OF rw_code_scripted, THEN finishes_mono]
  show ?thesis
    unfolding read_heavy_step_def balanced_step_def exclusive_step_def write_heavy_step_def rw_bench_start_def
    by (intro conjI finish scripted.script_finishes [OF rw_tracked_scripted [OF assms(2) keys(1)], THEN finishes_mono])
      (use assms keys plain tracked in auto)
qed

lemma rw_ready_ctor: "initial_size \<le> 2 ^ 30 \<Longrightarrow> rw_ready initial_size (rw_data_ctor initial_size)"
  by (simp add: rw_ready_def rw_data_ctor_def initialize_distinct find_or_def initialize_lookup)

theorem rw_benchmarks_report_witness:
  "finishes (balanced_step 1 (generate_keys (\<lambda>m i. 0) 10000 1000) (\<lambda>tid j. 0)) (rw_bench_start 1 (rw_data_ctor 1000))
    (rw_reported 1 1000 10000 70 (\<lambda>tid j. 0)) 80006"
  using rw_benchmarks_report [of "\<lambda>m i. 0" "rw_data_ctor 1000" "rw_data_ctor 500" 1 "\<lambda>tid j. 0"]
    rw_ready_ctor [of 1000] rw_ready_ctor [of 500] by simp

text \<open>
  Every lookup of SharedMutex\_ReadHeavy\_90\_10 finds its key: in every reachable state, a reader
  that holds the lock has read a value that is not negative, so never the -1 of a missing key.
\<close>

theorem rw_lookups_hit:
  assumes "\<And>m i. 0 \<le> m \<Longrightarrow> 0 \<le> dis m i \<and> dis m i \<le> m" and "rw_ready 1000 d"
    and st: "steps (read_heavy_step n (generate_keys dis 10000 1000) draw) (rw_bench_start n d) (ts, (d', c))"
    and "i < length ts" "snd (ts ! i) = Some (Rd_Unlock key v)"
  shows "0 \<le> v \<and> find_or (shared_data d') key = v"
proof -
  have "keys_within (generate_keys dis 10000 1000) 1000"
    using generate_keys_within [of 10000 dis 1000] assms(1) by simp
  from scripted.script_reach [OF rw_tracked_scripted [OF assms(2) this]] st
  have "rw_counting n 1000 90 draw (\<lambda>m. m div 3) (\<lambda>m. (m + 1) div 3) (positions n (3 * 10000) (map fst ts)) (map snd ts) d' c"
    unfolding read_heavy_step_def rw_bench_start_def by blast
  then have "list_all (case_option True (rw_call_ok 1000)) (map snd ts)" "list_all (case_option True (rw_assert d')) (map snd ts)"
    by (simp_all add: rw_counting_def rw_inv_def)
  then show ?thesis using assms(4,5) by (auto simp: list_all_length dest!: spec [of _ i])
qed

lemma first_lookup_run:
  "exec (read_heavy_step 1 (generate_keys (\<lambda>m i. 0) 10000 1000) (\<lambda>tid j. 0)) (rw_bench_start 1 (rw_data_ctor 1000))
     ((0, 0) # replicate 4 (1, 0))
   = Some ([(Sh_Spawn 1, None), (Sw_At 0, Some (Rd_Unlock 0 0))],
       ((rw_data_ctor 1000)\<lparr>reading := 1\<rparr>, rw_tally_start 1))"
proof -
  have "find_or (initialize 1000 []) 0 = 0" by (simp add: find_or_def initialize_lookup)
  moreover have "replicate 4 (1 :: nat, 0 :: nat) = [(1, 0), (1, 0), (1, 0), (1, 0)]" by (simp add: numeral_eq_Suc)
  ultimately show ?thesis
    by (simp add: generate_keys_eq read_heavy_step_def script_step_def client_step.simps script_prog_def
        rw_bench_start_def script_start_def client_start_def rw_data_ctor_def rw_tracked_code_def rw_call_def)
qed

theorem rw_lookups_hit_witness:
  "\<exists>ts d c. steps (read_heavy_step 1 (generate_keys (\<lambda>m i. 0) 10000 1000) (\<lambda>tid j. 0)) (rw_bench_start 1 (rw_data_ctor 1000)) (ts, (d, c))
    \<and> snd (ts ! 1) = Some (Rd_Unlock 0 0) \<and> find_or (shared_data d) 0 = 0"
proof -
  note st = exec_steps [OF first_lookup_run]
  have "find_or (shared_data ((rw_data_ctor 1000)\<lparr>reading := 1\<rparr>)) 0 = 0"
    using rw_lookups_hit [OF _ _ st, of 1 0 0] rw_ready_ctor [of 1000] by simp
  with st show ?thesis by (intro exI conjI) (assumption, simp_all)
qed

end
