(* ===== verification/Gate_Bench.thy ===== *)
theory Gate_Bench
  imports Scripts Fairness
begin

text \<open>
  \<open>BinarySemaphore_vs_Mutex\<close> of src/bench\_pc\_semaphore.cpp: the same critical section behind a
  binary semaphore and behind a mutex.  A critical section is one operation of an object: the
  lock, the counter and, for the mutex, the tracker, which is recorded before the unlock; with
  the semaphore the recording comes after the release.
\<close>

section \<open>The critical sections\<close>

record gate =
  gate_held :: bool
  gate_counter :: uint64
  gate_tracker :: variance_tracker

definition gate_ctor :: "nat \<Rightarrow> gate" where
  "gate_ctor num_threads = \<lparr>gate_held = False, gate_counter = 0, gate_tracker = variance_tracker_ctor num_threads\<rparr>"

datatype gate_pc = Bin_Acquire | Bin_Add | Bin_Release | Mut_Lock | Mut_Add | Mut_Record | Mut_Unlock

datatype gate_op = Binary | Guarded

fun gate_entry :: "gate_op \<Rightarrow> gate_pc" where
  "gate_entry Binary = Bin_Acquire"
| "gate_entry Guarded = Mut_Lock"

fun gate_step :: "nat \<Rightarrow> gate_pc \<Rightarrow> gate \<Rightarrow> ((gate_pc + unit) \<times> gate) list" where
  "gate_step i Bin_Acquire g = (if gate_held g then [] else [(Inl Bin_Add, g\<lparr>gate_held := True\<rparr>)])"
| "gate_step i Bin_Add g = [(Inl Bin_Release, g\<lparr>gate_counter := gate_counter g + 1\<rparr>)]"
| "gate_step i Bin_Release g = [(Inr (), g\<lparr>gate_held := False\<rparr>)]"
| "gate_step i Mut_Lock g = (if gate_held g then [] else [(Inl Mut_Add, g\<lparr>gate_held := True\<rparr>)])"
| "gate_step i Mut_Add g = [(Inl Mut_Record, g\<lparr>gate_counter := gate_counter g + 1\<rparr>)]"
| "gate_step i Mut_Record g = [(Inl Mut_Unlock, g\<lparr>gate_tracker := record_operation (i - 1) (gate_tracker g)\<rparr>)]"
| "gate_step i Mut_Unlock g = [(Inr (), g\<lparr>gate_held := False\<rparr>)]"

section \<open>The two rounds of threads\<close>

text \<open>Worker \<open>tid\<close> is thread \<open>tid + 1\<close>.\<close>

definition binary_code :: "nat \<Rightarrow> nat \<Rightarrow> (gate_op, variance_tracker) instr" where
  "binary_code thread_id m = (if m mod 2 = 0 then Call Binary else Do (record_operation thread_id))"

definition mutex_code :: "nat \<Rightarrow> nat \<Rightarrow> (gate_op, unit) instr" where
  "mutex_code thread_id m = Call Guarded"

definition binary_step :: "nat \<Rightarrow> (script_pc \<times> gate_pc option, gate \<times> variance_tracker) stepper" where
  "binary_step num_threads = script_step gate_entry gate_step num_threads (2 * 10000) binary_code"

definition binary_start :: "nat \<Rightarrow> (script_pc \<times> gate_pc option, gate \<times> variance_tracker) conf" where
  "binary_start num_threads = script_start num_threads (gate_ctor num_threads) (variance_tracker_ctor num_threads)"

definition mutex_step :: "nat \<Rightarrow> (script_pc \<times> gate_pc option, gate \<times> unit) stepper" where
  "mutex_step num_threads = script_step gate_entry gate_step num_threads 10000 mutex_code"

definition mutex_start :: "nat \<Rightarrow> (script_pc \<times> gate_pc option, gate \<times> unit) conf" where
  "mutex_start num_threads = script_start num_threads (gate_ctor num_threads) ()"

section \<open>What they count\<close>

fun gate_holds :: "gate_pc \<Rightarrow> nat" where
  "gate_holds Bin_Acquire = 0"
| "gate_holds Mut_Lock = 0"
| "gate_holds k = 1"

fun added :: "gate_pc \<Rightarrow> nat" where
  "added Bin_Release = 1"
| "added Mut_Record = 1"
| "added Mut_Unlock = 1"
| "added k = 0"

fun recorded :: "gate_pc \<Rightarrow> nat" where
  "recorded Mut_Unlock = 1"
| "recorded k = 0"

fun of_kind :: "gate_op \<Rightarrow> gate_pc \<Rightarrow> bool" where
  "of_kind Binary k = (k = Bin_Acquire \<or> k = Bin_Add \<or> k = Bin_Release)"
| "of_kind Guarded k = (k = Mut_Lock \<or> k = Mut_Add \<or> k = Mut_Record \<or> k = Mut_Unlock)"

fun gate_left :: "gate_pc \<Rightarrow> nat" where
  "gate_left Bin_Acquire = 2" | "gate_left Bin_Add = 1" | "gate_left Bin_Release = 0"
| "gate_left Mut_Lock = 3" | "gate_left Mut_Add = 2" | "gate_left Mut_Record = 1" | "gate_left Mut_Unlock = 0"

text \<open>\<open>calls m\<close> of the first \<open>m\<close> instructions are calls.\<close>

definition gate_inv :: "nat \<Rightarrow> gate_op \<Rightarrow> (nat \<Rightarrow> nat) \<Rightarrow> (nat \<Rightarrow> nat) \<Rightarrow> gate_pc option list \<Rightarrow> gate \<Rightarrow> bool" where
  "gate_inv n oper calls P qs g \<longleftrightarrow>
     tsum (case_option 0 gate_holds) qs = of_bool (gate_held g) \<and>
     list_all (case_option True (of_kind oper)) qs \<and>
     gate_counter g = of_nat ((\<Sum>tid < n. calls (P tid)) + tsum (case_option 0 added) qs)"

definition binary_counting :: "nat \<Rightarrow> (nat \<Rightarrow> nat) \<Rightarrow> gate_pc option list \<Rightarrow> gate \<Rightarrow> variance_tracker \<Rightarrow> bool" where
  "binary_counting n P qs g t \<longleftrightarrow> gate_inv n Binary (\<lambda>m. (m + 1) div 2) P qs g
     \<and> thread_counts t = map (\<lambda>tid. of_nat (P tid div 2)) [0..<n]"

definition mutex_counting :: "nat \<Rightarrow> (nat \<Rightarrow> nat) \<Rightarrow> gate_pc option list \<Rightarrow> gate \<Rightarrow> unit \<Rightarrow> bool" where
  "mutex_counting n P qs g u \<longleftrightarrow> gate_inv n Guarded (\<lambda>m. m) P qs g
     \<and> thread_counts (gate_tracker g)
       = map (\<lambda>tid. of_nat (P tid + case_option 0 recorded (qs ! Suc tid))) [0..<n]"

lemma gate_inv_start: "calls 0 = 0 \<Longrightarrow> gate_inv n oper calls (\<lambda>_. 0) (replicate m None) (gate_ctor n)"
  by (simp add: gate_inv_def gate_ctor_def list_all_iff)

lemma gate_inv_call:
  assumes "gate_inv n oper calls P qs g" "i < length qs" "qs ! i = None"
  shows "gate_inv n oper calls P (qs[i := Some (gate_entry oper)]) g"
proof -
  have "tsum (case_option 0 w) (qs[i := Some (gate_entry oper)]) = tsum (case_option 0 w) qs + w (gate_entry oper)" for w
    using tsum_update [OF assms(2), of "case_option 0 w" "Some (gate_entry oper)"] assms(3) by simp
  moreover have "gate_holds (gate_entry oper) = 0" "added (gate_entry oper) = 0" "of_kind oper (gate_entry oper)"
    by (cases oper; simp)+
  ultimately show ?thesis using assms(1) by (auto simp: gate_inv_def intro: list_all_update)
qed

text \<open>A step of a call: the counter goes up when it adds, and a return hands its addition over.\<close>

lemma gate_step_counts:
  assumes "(r, g') \<in> set (gate_step i k g)" "of_kind oper k"
    and "h' + gate_holds k = of_bool (gate_held g) + case_option 0 gate_holds (still r)" "gate_holds k \<le> of_bool (gate_held g)"
  shows "h' = of_bool (gate_held g') \<and> case_option True (of_kind oper) (still r)
    \<and> (case still r of None \<Rightarrow> gate_counter g' = gate_counter g \<and> added k = 1
       | Some k' \<Rightarrow> gate_counter g' = gate_counter g + of_nat (added k' - added k) \<and> added k \<le> added k')"
  using assms by (cases "gate_held g"; cases oper; cases k) (auto split: if_splits)

lemma gate_inv_step:
  assumes inv: "gate_inv n oper calls P qs g" and i: "i < length qs" and k: "qs ! i = Some k"
    and st: "(r, g') \<in> set (gate_step i k g)"
    and ret: "still r = None \<Longrightarrow> (\<Sum>tid < n. calls (P' tid)) = Suc (\<Sum>tid < n. calls (P tid))"
    and stay: "still r \<noteq> None \<Longrightarrow> P' = P"
  shows "gate_inv n oper calls P' (qs[i := still r]) g'"
proof -
  let ?qs = "qs[i := still r]"
  have kind: "of_kind oper k" using inv i k by (auto simp: gate_inv_def list_all_length dest!: spec [of _ i])
  have upd: "tsum (case_option 0 w) ?qs + w k = tsum (case_option 0 w) qs + case_option 0 w (still r)" for w
    using tsum_update [OF i, of "case_option 0 w" "still r"] k by simp
  have mine: "gate_holds k \<le> of_bool (gate_held g)"
    using tsum_member [OF i, of "case_option 0 gate_holds"] k inv by (simp add: gate_inv_def)
  have holds: "tsum (case_option 0 gate_holds) ?qs + gate_holds k = of_bool (gate_held g) + case_option 0 gate_holds (still r)"
    using upd [of gate_holds] inv by (simp add: gate_inv_def)
  note step = gate_step_counts [OF st kind holds mine]
  have "gate_counter g' = of_nat ((\<Sum>tid < n. calls (P' tid)) + tsum (case_option 0 added) ?qs)"
  proof (cases "still r")
    case None
    then have "tsum (case_option 0 added) qs = Suc (tsum (case_option 0 added) ?qs)"
      using upd [of added] step by simp
    then show ?thesis using step None ret inv by (simp add: gate_inv_def)
  next
    case (Some k')
    then have "tsum (case_option 0 added) ?qs = tsum (case_option 0 added) qs + (added k' - added k)"
      using upd [of added] step by simp
    then show ?thesis using step Some stay inv by (simp add: gate_inv_def)
  qed
  then show ?thesis using inv step by (simp add: gate_inv_def list_all_update)
qed

lemma gate_progress:
  assumes inv: "gate_inv n oper calls P qs g" and i: "i < length qs" "qs ! i \<noteq> None"
  shows "\<exists>j k. j < length qs \<and> qs ! j = Some k \<and> gate_step j k g \<noteq> []"
proof (rule ccontr)
  assume "\<not> ?thesis"
  then have blocked: "gate_step j k g = []" if "j < length qs" "qs ! j = Some k" for j k using that by blast
  have "gate_holds k = 0" if "j < length qs" "qs ! j = Some k" for j k
    using blocked [OF that] by (cases k) auto
  then have "\<not> gate_held g" using inv tsum_option_0 [of qs gate_holds] by (simp add: gate_inv_def)
  then show False using blocked [OF i(1)] i(2) by (cases "the (qs ! i)") auto
qed

section \<open>Both rounds end\<close>

lemma map_upt_const: "(\<And>i. i < n \<Longrightarrow> f i = x) \<Longrightarrow> map f [0..<n] = replicate n x"
  by (auto intro!: nth_equalityI)


lemma gate_left_step: "(Inl k', g') \<in> set (gate_step i k g) \<Longrightarrow> gate_left k' < gate_left k"
  by (cases k) (auto split: if_splits)

lemma sum_Suc_at:
  fixes n :: nat
  assumes "tid < n" "calls (Suc (P tid)) = Suc (calls (P tid))"
  shows "(\<Sum>t < n. calls ((P(tid := Suc (P tid))) t)) = Suc (\<Sum>t < n. calls (P t))"
  using sum_fun_upd [OF assms(1), of "\<lambda>_. calls" P "Suc (P tid)"] assms(2) by simp

lemma gate_inv_cong:
  "gate_inv n oper calls P qs g \<Longrightarrow> (\<And>tid. tid < n \<Longrightarrow> calls (P' tid) = calls (P tid)) \<Longrightarrow> gate_inv n oper calls P' qs g"
  by (simp add: gate_inv_def cong: sum.cong_simp)

interpretation binary: scripted gate_step gate_entry n "2 * 10000" binary_code "gate_ctor n" "variance_tracker_ctor n"
  "binary_counting n" gate_left 4 for n
proof unfold_locales
  show "binary_counting n (\<lambda>_. 0) (replicate (Suc n) None) (gate_ctor n) (variance_tracker_ctor n)"
    by (simp add: binary_counting_def gate_inv_start variance_tracker_ctor_def map_replicate_const del: replicate_Suc)
next
  fix P qs g c tid oper
  assume "binary_counting n P qs g c" "length qs = Suc n" "tid < n" "qs ! Suc tid = None"
    "binary_code tid (P tid) = Call oper"
  then show "binary_counting n P (qs[Suc tid := Some (gate_entry oper)]) g c"
    using gate_inv_call [of n Binary _ P qs g "Suc tid"] by (simp add: binary_counting_def binary_code_def split: if_splits)
next
  fix P qs g c tid f
  assume inv: "binary_counting n P qs g c" and tid: "tid < n" and "binary_code tid (P tid) = Do f"
  then have m: "P tid mod 2 = 1" "f = record_operation tid" by (auto simp: binary_code_def split: if_splits)
  then have div: "Suc (P tid) div 2 = Suc (P tid div 2)" by (simp add: div_Suc mod_Suc)
  have "gate_inv n Binary (\<lambda>m. (m + 1) div 2) (P(tid := Suc (P tid))) qs g"
    by (rule gate_inv_cong [of n Binary "\<lambda>m. (m + 1) div 2" P qs g "P(tid := Suc (P tid))", rotated])
      (use inv div in \<open>simp_all add: binary_counting_def\<close>)
  moreover have "thread_counts (record_operation tid c) = map (\<lambda>t. of_nat ((P(tid := Suc (P tid))) t div 2)) [0..<n]"
    using inv div record_operation_map [OF tid, of c "\<lambda>t. of_nat (P t div 2)"] by (simp add: binary_counting_def)
  ultimately show "binary_counting n (P(tid := Suc (P tid))) qs g (f c)" by (simp add: binary_counting_def m)
next
  fix P qs g c tid k oper k' g'
  assume "binary_counting n P qs g c" "length qs = Suc n" "tid < n" "qs ! Suc tid = Some k"
    "(Inl k', g') \<in> set (gate_step (Suc tid) k g)"
  then show "binary_counting n P (qs[Suc tid := Some k']) g' c"
    using gate_inv_step [of n Binary _ P qs g "Suc tid" k "Inl k'" g' P] by (simp add: binary_counting_def)
next
  fix P qs g c tid k oper v g'
  assume inv: "binary_counting n P qs g c" and "length qs = Suc n" "tid < n" "qs ! Suc tid = Some k"
    "binary_code tid (P tid) = Call oper" "(Inr v, g') \<in> set (gate_step (Suc tid) k g)"
  moreover from this have "P tid mod 2 = 0" by (simp add: binary_code_def split: if_splits)
  then have div: "Suc (P tid) div 2 = P tid div 2" "Suc (Suc (P tid)) div 2 = Suc (P tid div 2)"
    by (simp_all add: div_Suc mod_Suc)
  ultimately show "binary_counting n (P(tid := Suc (P tid))) (qs[Suc tid := None]) g' c"
    using gate_inv_step [of n Binary "\<lambda>m. (m + 1) div 2" P qs g "Suc tid" k "Inr v" g' "P(tid := Suc (P tid))"]
      sum_Suc_at [of tid n "\<lambda>m. (m + 1) div 2" P]
    by (simp add: binary_counting_def)
next
  show "binary_counting n P qs g c \<Longrightarrow> i < length qs \<Longrightarrow> qs ! i \<noteq> None
      \<Longrightarrow> \<exists>j k. j < length qs \<and> qs ! j = Some k \<and> gate_step j k g \<noteq> []" for P qs g c i
    unfolding binary_counting_def by (blast intro: gate_progress)
next
  show "gate_left (gate_entry oper) < 4" for oper by (cases oper) simp_all
qed (rule gate_left_step)

interpretation mutex: scripted gate_step gate_entry n 10000 mutex_code "gate_ctor n" "()" "mutex_counting n" gate_left 4 for n
proof unfold_locales
  show "mutex_counting n (\<lambda>_. 0) (replicate (Suc n) None) (gate_ctor n) ()"
    unfolding mutex_counting_def
    using gate_inv_start [of "\<lambda>m. m" n Guarded "Suc n"]
    by (auto simp: gate_ctor_def variance_tracker_ctor_def simp del: replicate_Suc intro!: map_upt_const [symmetric])
next
  fix P qs g c tid oper
  assume "mutex_counting n P qs g c" "length qs = Suc n" "tid < n" "qs ! Suc tid = None"
    "mutex_code tid (P tid) = Call oper"
  then show "mutex_counting n P (qs[Suc tid := Some (gate_entry oper)]) g c"
    using gate_inv_call [of n Guarded _ P qs g "Suc tid"]
    by (auto simp: mutex_counting_def mutex_code_def nth_list_update)
next
  fix P qs g c tid f
  assume "mutex_code tid (P tid) = Do f"
  then show "mutex_counting n (P(tid := Suc (P tid))) qs g (f c)" by (simp add: mutex_code_def)
next
  fix P qs g c tid k oper k' g'
  assume inv: "mutex_counting n P qs g c" and len: "length qs = Suc n" "tid < n" "qs ! Suc tid = Some k"
    and st: "(Inl k', g') \<in> set (gate_step (Suc tid) k g)"
  have "thread_counts (gate_tracker g')
      = map (\<lambda>t. of_nat (P t + case_option 0 recorded (qs[Suc tid := Some k'] ! Suc t))) [0..<n]"
  proof (cases "k = Mut_Record")
    case True
    then have *: "k' = Mut_Unlock" "gate_tracker g' = record_operation tid (gate_tracker g)" using st by simp_all
    show ?thesis
      unfolding * using inv len True record_operation_map [OF len(2), of "gate_tracker g"
          "\<lambda>t. of_nat (P t + case_option 0 recorded (qs ! Suc t))"]
      by (auto simp: mutex_counting_def nth_list_update)
  next
    case False
    then have "gate_tracker g' = gate_tracker g" "recorded k' = recorded k"
      using st by (cases k; auto split: if_splits)+
    then show ?thesis using inv len by (auto simp: mutex_counting_def nth_list_update)
  qed
  then show "mutex_counting n P (qs[Suc tid := Some k']) g' c"
    using gate_inv_step [of n Guarded _ P qs g "Suc tid" k "Inl k'" g' P] inv len st by (simp add: mutex_counting_def)
next
  fix P qs g c tid k oper v g'
  assume inv: "mutex_counting n P qs g c" and len: "length qs = Suc n" "tid < n" "qs ! Suc tid = Some k"
    and st: "(Inr v, g') \<in> set (gate_step (Suc tid) k g)"
  have "of_kind Guarded k"
    using inv len by (auto simp: mutex_counting_def gate_inv_def list_all_length dest!: spec [of _ "Suc tid"])
  then have "k = Mut_Unlock" "gate_tracker g' = gate_tracker g" using st by (cases k; auto split: if_splits)+
  then have "thread_counts (gate_tracker g')
      = map (\<lambda>t. of_nat ((P(tid := Suc (P tid))) t + case_option 0 recorded (qs[Suc tid := None] ! Suc t))) [0..<n]"
    using inv len by (auto simp: mutex_counting_def nth_list_update)
  then show "mutex_counting n (P(tid := Suc (P tid))) (qs[Suc tid := None]) g' c"
    using gate_inv_step [of n Guarded "\<lambda>m. m" P qs g "Suc tid" k "Inr v" g' "P(tid := Suc (P tid))"]
      sum_Suc_at [of tid n "\<lambda>m. m" P] inv len st by (simp add: mutex_counting_def)
next
  show "mutex_counting n P qs g c \<Longrightarrow> i < length qs \<Longrightarrow> qs ! i \<noteq> None
      \<Longrightarrow> \<exists>j k. j < length qs \<and> qs ! j = Some k \<and> gate_step j k g \<noteq> []" for P qs g c i
    unfolding mutex_counting_def by (blast intro: gate_progress)
next
  show "gate_left (gate_entry oper) < 4" for oper by (cases oper) simp_all
qed (rule gate_left_step)

lemma binary_vs_mutex_ends:
  assumes "n \<le> 2 ^ 39"
  shows "finishes (binary_step n) (binary_start n) (\<lambda>(ts, (g, t)). ts = script_end n
      \<and> gate_counter g = of_nat (n * 10000) \<and> \<not> gate_held g \<and> coefficient_of_variation t = 0) (n * 100004 + 2)
    \<and> finishes (mutex_step n) (mutex_start n) (\<lambda>(ts, (g, u)). ts = script_end n
      \<and> gate_counter g = of_nat (n * 10000) \<and> \<not> gate_held g \<and> coefficient_of_variation (gate_tracker g) = 0) (n * 50004 + 2)"
proof
  have fair: "coefficient_of_variation t = 0" if "thread_counts t = replicate n 10000" for t
    using that assms binary64.equal_counts_cv [of n 10000] by (simp add: coefficient_of_variation_def get_counts_eq)
  show "finishes (binary_step n) (binary_start n) (\<lambda>(ts, (g, t)). ts = script_end n
      \<and> gate_counter g = of_nat (n * 10000) \<and> \<not> gate_held g \<and> coefficient_of_variation t = 0) (n * 100004 + 2)"
    unfolding binary_step_def binary_start_def
    by (rule finishes_mono [OF binary.script_finishes])
      (auto simp: binary_counting_def gate_inv_def intro!: fair map_upt_const)
  show "finishes (mutex_step n) (mutex_start n) (\<lambda>(ts, (g, u)). ts = script_end n
      \<and> gate_counter g = of_nat (n * 10000) \<and> \<not> gate_held g \<and> coefficient_of_variation (gate_tracker g) = 0) (n * 50004 + 2)"
    unfolding mutex_step_def mutex_start_def
    by (rule finishes_mono [OF mutex.script_finishes])
      (auto simp: mutex_counting_def gate_inv_def intro!: fair map_upt_const)
qed

text \<open>
  C29. BinarySemaphore\_vs\_Mutex: in both rounds every run ends with every increment counted, 10000
  per thread, and with a fairness of exactly 0 reported, whatever the scheduling was.
\<close>

theorem binary_vs_mutex_report:
  assumes "n \<le> 2 ^ 39"
  shows "finishes (binary_step n) (binary_start n) (\<lambda>(ts, (g, t)). ts = script_end n
      \<and> gate_counter g = of_nat (n * 10000) \<and> \<not> gate_held g \<and> coefficient_of_variation t = 0) (n * 100004 + 2)
    \<and> finishes (mutex_step n) (mutex_start n) (\<lambda>(ts, (g, u)). ts = script_end n
      \<and> gate_counter g = of_nat (n * 10000) \<and> \<not> gate_held g \<and> coefficient_of_variation (gate_tracker g) = 0) (n * 50004 + 2)"
  using assms by (rule binary_vs_mutex_ends)

theorem binary_vs_mutex_report_witness:
  "finishes (binary_step 2) (binary_start 2) (\<lambda>(ts, (g, t)). ts = script_end 2
      \<and> gate_counter g = 20000 \<and> \<not> gate_held g \<and> coefficient_of_variation t = 0) 200010"
  using binary_vs_mutex_report [of 2] by simp

end
