(* ===== verification/Async_Bench.thy ===== *)
theory Async_Bench
  imports Scripts Task_Bench
begin

text \<open>
  The runs of the task benchmarks: those with \<open>std::async(std::launch::async, ...)\<close>, in which every
  task is a thread that stores its result in its future and the main thread gets the futures in
  order, and those with the thread pool, which are sessions of one burst of tasks or of five.
\<close>

section \<open>std::async\<close>

text \<open>A task is one action; there is no other shared object.\<close>

definition async_code :: "(nat \<Rightarrow> 'r) \<Rightarrow> nat \<Rightarrow> nat \<Rightarrow> (unit, 'r option list) instr" where
  "async_code work i m = Do (\<lambda>futures. futures[i := Some (work i)])"

definition no_call :: "nat \<Rightarrow> unit \<Rightarrow> unit \<Rightarrow> ((unit + unit) \<times> unit) list" where
  "no_call i k g = []"

definition async_step :: "(nat \<Rightarrow> 'r) \<Rightarrow> nat \<Rightarrow> (script_pc \<times> unit option, unit \<times> 'r option list) stepper" where
  "async_step work num_tasks = script_step (\<lambda>oper. ()) no_call num_tasks 1 (async_code work)"

definition async_start :: "nat \<Rightarrow> (script_pc \<times> unit option, unit \<times> 'r option list) conf" where
  "async_start num_tasks = script_start num_tasks () (replicate num_tasks None)"

definition async_counting :: "(nat \<Rightarrow> 'r) \<Rightarrow> nat \<Rightarrow> (nat \<Rightarrow> nat) \<Rightarrow> unit option list \<Rightarrow> unit \<Rightarrow> 'r option list \<Rightarrow> bool" where
  "async_counting work n P qs g futures \<longleftrightarrow> list_all (\<lambda>q. q = None) qs
     \<and> futures = map (\<lambda>i. if P i = 0 then None else Some (work i)) [0..<n]"

interpretation async: scripted no_call "\<lambda>oper. ()" n 1 "async_code work" "()" "replicate n None" "async_counting work n"
  "\<lambda>k. 0" 1 for work n
proof unfold_locales
  fix P qs g tid f futures
  assume "async_counting work n P qs g futures" "tid < n" "async_code work tid (P tid) = Do f"
  then show "async_counting work n (P(tid := Suc (P tid))) qs g (f futures)"
    by (auto simp: async_counting_def async_code_def nth_list_update intro!: nth_equalityI)
qed (auto simp: async_counting_def async_code_def no_call_def list_all_iff map_replicate_const)

lemma async_finishes:
  "finishes (async_step work n) (async_start n)
    (\<lambda>(ts, (g, futures)). ts = script_end n \<and> futures = map (\<lambda>i. Some (work i)) [0..<n]) (n * 6 + 2)"
  unfolding async_step_def async_start_def
  by (rule finishes_mono [OF async.script_finishes]) (auto simp: async_counting_def)

text \<open>Getting all the results: a task whose value is undefined makes the total undefined.\<close>

definition future_total :: "int option option list \<Rightarrow> int option" where
  "future_total futures = sum_results (map (\<lambda>v. Option.bind v id) futures)"

text \<open>The function that the tasks run is an argument; the code runs \<open>cpu_intensive_task\<close> and \<open>cpu_work\<close>.\<close>

definition async_cpu_bound_step :: "(int \<Rightarrow> int option) \<Rightarrow> nat \<Rightarrow> (script_pc \<times> unit option, unit \<times> int option option list) stepper" where
  "async_cpu_bound_step task = async_step (\<lambda>i. Option.bind (add_int 10000 (int i)) task)"

definition launch_async_step :: "(int \<Rightarrow> int option) \<Rightarrow> nat \<Rightarrow> (script_pc \<times> unit option, unit \<times> int option option list) stepper" where
  "launch_async_step work = async_step (\<lambda>i. Option.bind (add_int 10000 (int i)) work)"

definition exception_step :: "(nat \<Rightarrow> real) \<Rightarrow> nat
  \<Rightarrow> (script_pc \<times> unit option, unit \<times> (string + int) option option list) stepper" where
  "exception_step draws = async_step (risky_outcome draws)"

definition async_io_step :: "nat \<Rightarrow> (script_pc \<times> unit option, unit \<times> unit option list) stepper" where
  "async_io_step = async_step (\<lambda>i. ())"

text \<open>
  The std::async benchmarks: every run of an iteration ends with every future holding the result
  of its own task, so the totals and the exception count are functions of the tasks alone,
  whatever the tasks compute and whatever the scheduling was.
\<close>

lemma future_total_some: "future_total (map (\<lambda>i. Some (task_value task a i)) [0..<n]) = tasks_total task a n"
  by (simp add: future_total_def tasks_total_def comp_def)

theorem async_benchmarks_finish:
  "finishes (async_cpu_bound_step task n) (async_start n)
      (\<lambda>(ts, (g, futures)). ts = script_end n \<and> futures = map (\<lambda>i. Some (task_value task 10000 i)) [0..<n]
        \<and> future_total futures = tasks_total task 10000 n) (n * 6 + 2)
    \<and> finishes (launch_async_step work n) (async_start n)
      (\<lambda>(ts, (g, futures)). ts = script_end n \<and> futures = map (\<lambda>i. Some (task_value work 10000 i)) [0..<n]
        \<and> future_total futures = tasks_total work 10000 n) (n * 6 + 2)
    \<and> finishes (exception_step draws n) (async_start n)
      (\<lambda>(ts, (g, futures)). ts = script_end n \<and> futures = map (\<lambda>i. Some (risky_outcome draws i)) [0..<n]
        \<and> foldl collect_outcome (Some 0, 0) (map (\<lambda>v. Option.bind v id) futures) = exception_handling draws n) (n * 6 + 2)
    \<and> finishes (async_io_step n) (async_start n)
      (\<lambda>(ts, (g, futures)). ts = script_end n \<and> futures = replicate n (Some ())) (n * 6 + 2)"
  unfolding async_cpu_bound_step_def launch_async_step_def exception_step_def async_io_step_def
  by (intro conjI finishes_mono [OF async_finishes])
    (auto simp: future_total_some exception_handling_def comp_def map_replicate_const simp flip: task_value_def)

section \<open>The thread pool\<close>

text \<open>
  Task \<open>(b, i)\<close> is number \<open>i\<close> of burst \<open>b\<close>.  The benchmarks run on a pool of the default size for \<open>hw\<close>
  hardware threads; the function of their tasks, \<open>task\<close>, is \<open>cpu_intensive_task\<close> in the code, or
  \<open>mixed_task\<close>.
\<close>

definition thread_pool_cpu_bound_step :: "(int \<Rightarrow> int option) \<Rightarrow> nat \<Rightarrow> nat
  \<Rightarrow> (int option pool_thread \<times> (nat \<times> nat) pool_pc option, (nat \<times> nat, int option) pool \<times> unit) stepper" where
  "thread_pool_cpu_bound_step task hw num_tasks =
     pool_session_step (\<lambda>(burst, i). Option.bind (add_int 10000 (int i)) task) (pool_size hw) (burst_jobs 1 num_tasks)"

definition thread_pool_io_bound_step :: "nat \<Rightarrow> nat
  \<Rightarrow> (unit pool_thread \<times> (nat \<times> nat) pool_pc option, (nat \<times> nat, unit) pool \<times> unit) stepper" where
  "thread_pool_io_bound_step hw num_tasks = pool_session_step (\<lambda>_. ()) (pool_size hw) (burst_jobs 1 num_tasks)"

definition thread_pool_mixed_step :: "(int \<Rightarrow> int option) \<Rightarrow> nat \<Rightarrow> nat
  \<Rightarrow> (int option pool_thread \<times> (nat \<times> nat) pool_pc option, (nat \<times> nat, int option) pool \<times> unit) stepper" where
  "thread_pool_mixed_step task hw num_tasks =
     pool_session_step (\<lambda>(burst, i). Option.bind (add_int 5000 (int i)) task) (pool_size hw) (burst_jobs 1 num_tasks)"

definition thread_pool_scalability_step :: "(int \<Rightarrow> int option) \<Rightarrow> nat \<Rightarrow> nat
  \<Rightarrow> (int option pool_thread \<times> (nat \<times> nat) pool_pc option, (nat \<times> nat, int option) pool \<times> unit) stepper" where
  "thread_pool_scalability_step task hw num_tasks =
     pool_session_step (\<lambda>_. task (1000000 div int num_tasks)) (pool_size hw) (burst_jobs 1 num_tasks)"

definition thread_pool_burst_workload_step :: "(int \<Rightarrow> int option) \<Rightarrow> nat \<Rightarrow> nat
  \<Rightarrow> (int option pool_thread \<times> (nat \<times> nat) pool_pc option, (nat \<times> nat, int option) pool \<times> unit) stepper" where
  "thread_pool_burst_workload_step task hw tasks_per_burst =
     pool_session_step (\<lambda>_. task 8000) (pool_size hw) (burst_jobs 5 tasks_per_burst)"

text \<open>
  How an iteration ends: all tasks run once and all futures ready, and the destructor has returned
  or hangs.  \<open>collected\<close> are the results that the main thread has got from the futures, which it adds
  up, in the burst benchmark for each burst.
\<close>

definition pool_ended :: "('t \<Rightarrow> 'v) \<Rightarrow> nat \<Rightarrow> 't job list
  \<Rightarrow> ('v pool_thread \<times> 't pool_pc option, ('t, 'v) pool \<times> unit) conf \<Rightarrow> bool" where
  "pool_ended run hw jobs conf \<longleftrightarrow> pool_complete run (pool_size hw) jobs conf \<or> pool_hung run (pool_size hw) jobs conf"

definition collected :: "('v pool_thread \<times> 't pool_pc option, ('t, 'v) pool \<times> unit) conf \<Rightarrow> 'v list" where
  "collected conf = (case fst (fst conf ! 0) of Main vs m \<Rightarrow> vs | _ \<Rightarrow> [])"

definition burst_sums :: "nat \<Rightarrow> int option list \<Rightarrow> int option list" where
  "burst_sums tasks_per_burst vs = map (\<lambda>burst. sum_results (take tasks_per_burst (drop (burst * tasks_per_burst) vs))) [0..<5]"

lemma pool_ended_collected:
  assumes "pool_ended run hw jobs conf"
  shows "collected conf = map run (awaited jobs)"
proof (cases conf)
  case (fields ts p c)
  then show ?thesis
    using assms by (auto simp: pool_ended_def pool_complete_def pool_hung_def collected_def)
qed

lemma pool_iteration_ends:
  assumes "\<And>conf. pool_ended run hw (burst_jobs bs n) conf
    \<Longrightarrow> collected conf = concat (map (\<lambda>b. map (\<lambda>i. run (b, i)) [0..<n]) [0..<bs]) \<Longrightarrow> P conf"
    and "k = 28 * pool_size hw + 62 * (bs * n) + 6"
  shows "finishes (pool_session_step run (pool_size hw) (burst_jobs bs n)) (pool_session_start (pool_size hw)) P k"
proof -
  obtain v where v: "pool_size hw = Suc v" by (cases hw) (simp_all add: pool_size_def)
  have "finishes (pool_session_step run (pool_size hw) (burst_jobs bs n)) (pool_session_start (pool_size hw))
      (pool_ended run hw (burst_jobs bs n)) k"
    unfolding pool_ended_def [abs_def] v assms(2) by (rule pool_benchmark_ends)
  then show ?thesis
  proof (rule finishes_mono)
    fix conf
    assume "pool_ended run hw (burst_jobs bs n) conf"
    then show "P conf"
      using pool_ended_collected [of run hw "burst_jobs bs n" conf] assms(1)
      by (simp add: awaited_burst_jobs map_concat comp_def)
  qed simp
qed

lemma burst_sums_equal: "burst_sums n (replicate (5 * n) x) = replicate 5 (sum_results (replicate n x))"
  by (simp add: burst_sums_def upt_rec min_def numeral_eq_Suc)

text \<open>
  C23. The thread pool benchmarks, on a pool of the default size: every run of an iteration is bounded
  and ends with all the tasks of all its bursts run once.  The results that the main thread has
  got are those of the tasks, each for its own index, in the order of submission, and they add
  up to the totals of the benchmark, in the burst benchmark to the same total for each of the five
  bursts.  This holds whatever the function of the tasks computes, the code's being
  \<open>cpu_intensive_task\<close> and \<open>mixed_task\<close>; only the destructor may not return.
\<close>

theorem pool_benchmarks_end:
  "finishes (thread_pool_cpu_bound_step task hw n) (pool_session_start (pool_size hw))
      (\<lambda>conf. pool_ended (\<lambda>t. task_value task 10000 (snd t)) hw (burst_jobs 1 n) conf
        \<and> collected conf = map (task_value task 10000) [0..<n]
        \<and> sum_results (collected conf) = tasks_total task 10000 n) (28 * pool_size hw + 62 * n + 6)
    \<and> finishes (thread_pool_io_bound_step hw n) (pool_session_start (pool_size hw))
      (\<lambda>conf. pool_ended (\<lambda>_. ()) hw (burst_jobs 1 n) conf \<and> length (collected conf) = n) (28 * pool_size hw + 62 * n + 6)
    \<and> finishes (thread_pool_mixed_step task hw n) (pool_session_start (pool_size hw))
      (\<lambda>conf. pool_ended (\<lambda>t. task_value task 5000 (snd t)) hw (burst_jobs 1 n) conf
        \<and> collected conf = map (task_value task 5000) [0..<n]
        \<and> sum_results (collected conf) = tasks_total task 5000 n) (28 * pool_size hw + 62 * n + 6)
    \<and> finishes (thread_pool_scalability_step task hw (Suc m)) (pool_session_start (pool_size hw))
      (\<lambda>conf. pool_ended (\<lambda>_. task (1000000 div int (Suc m))) hw (burst_jobs 1 (Suc m)) conf
        \<and> collected conf = replicate (Suc m) (task (1000000 div int (Suc m)))
        \<and> sum_results (collected conf) = split_total task (Suc m)) (28 * pool_size hw + 62 * Suc m + 6)
    \<and> finishes (thread_pool_burst_workload_step task hw n) (pool_session_start (pool_size hw))
      (\<lambda>conf. pool_ended (\<lambda>_. task 8000) hw (burst_jobs 5 n) conf
        \<and> collected conf = replicate (5 * n) (task 8000)
        \<and> burst_sums n (collected conf) = replicate 5 (burst_total task n)) (28 * pool_size hw + 310 * n + 6)"
proof -
  have run: "(\<lambda>(burst :: nat, i). Option.bind (add_int a (int i)) task) = (\<lambda>t. task_value task a (snd t))" for a
    by (auto simp: task_value_def)
  have same: "concat (map (\<lambda>b. replicate k x) [0..<bs]) = replicate (bs * k) x" for x :: "int option" and k bs :: nat
    by (induction bs) (simp_all add: add.commute flip: replicate_add)
  have each: "map (\<lambda>i. x) [0..<k] = replicate k x" for x :: "int option" and k by (simp add: map_replicate_const)
  have one: "[0..<Suc 0] = [0]" by simp
  show ?thesis
    unfolding thread_pool_cpu_bound_step_def thread_pool_io_bound_step_def thread_pool_mixed_step_def
      thread_pool_scalability_step_def thread_pool_burst_workload_step_def run
    by (intro conjI pool_iteration_ends)
      (simp_all add: same one each tasks_total_def split_total_def burst_total_def burst_sums_equal del: upt_Suc replicate_Suc)
qed

theorem pool_benchmarks_end_witness:
  "finishes (thread_pool_cpu_bound_step Some 2 3) (pool_session_start 2)
    (\<lambda>conf. collected conf = [Some 10000, Some 10001, Some 10002] \<and> sum_results (collected conf) = Some 30003) 248"
proof -
  have size: "pool_size 2 = 2" by (simp add: pool_size_def)
  have results: "map (task_value Some 10000) [0..<3] = [Some 10000, Some 10001, Some 10002]"
    by (simp add: task_value_def add_int_def fits_def upt_rec)
  show ?thesis
    by (rule finishes_mono [OF pool_benchmarks_end [THEN conjunct1, of Some 2 3, unfolded size results]])
      (auto simp: sum_results_def add_int_def fits_def)
qed

end
