(* ===== verification/Futures.thy ===== *)
theory Futures
  imports Async_Bench
begin

text \<open>
  StdAsync\_Chaining and StdAsync\_Timeout of src/bench\_async\_future.cpp: tasks launched with
  \<open>std::launch::async\<close>, each a thread of its own, that may first get the future of an earlier task;
  the main thread launches them in order and then gets some of the futures, in the timeout benchmark
  after a \<open>wait_for\<close> that ends with the task or with the time, whichever the scheduler makes first.
\<close>

section \<open>Tasks that wait for futures\<close>

record 'r futures =
  slots :: "'r option list"
  got_values :: "'r list"
  completed_count :: nat
  timeout_count :: nat

datatype 'r future_pc =
    Fu_Launch nat | Fu_Wait nat | Fu_Get nat | Fu_End
  | Fu_Idle | Fu_Await | Fu_Work "'r option" | Fu_Over

text \<open>
  A benchmark: the number of tasks, the task whose future a task gets, what it computes from that
  value, the futures that the main thread gets, and whether it calls \<open>wait_for\<close> first.
\<close>

record 'r future_bench =
  task_count :: nat
  awaits :: "nat \<Rightarrow> nat option"
  task_work :: "nat \<Rightarrow> 'r option \<Rightarrow> 'r"
  finals :: "nat list"
  timed :: bool

fun launched_task :: "'r future_pc \<Rightarrow> nat \<Rightarrow> bool" where
  "launched_task (Fu_Launch k) i = (i < k)"
| "launched_task pc i = True"

text \<open>The next future of the main thread.\<close>

definition next_future :: "'r future_bench \<Rightarrow> nat \<Rightarrow> 'r future_pc" where
  "next_future b j = (if j < length (finals b) then if timed b then Fu_Wait j else Fu_Get j else Fu_End)"

definition future_main_step :: "'r future_bench \<Rightarrow> 'r futures \<Rightarrow> 'r future_pc \<Rightarrow> ('r future_pc \<times> 'r futures) list" where
  "future_main_step b s pc = (case pc of
     Fu_Launch k \<Rightarrow> [(if k < task_count b then Fu_Launch (Suc k) else next_future b 0, s)]
   | Fu_Wait j \<Rightarrow>
       [if slots s ! (finals b ! j) \<noteq> None then (Fu_Get j, s\<lparr>completed_count := completed_count s + 1\<rparr>)
        else (Fu_Get j, s\<lparr>timeout_count := timeout_count s + 1\<rparr>)]
   | Fu_Get j \<Rightarrow> (case slots s ! (finals b ! j) of
        None \<Rightarrow> []
      | Some v \<Rightarrow> [(next_future b (Suc j), s\<lparr>got_values := got_values s @ [v]\<rparr>)])
   | _ \<Rightarrow> [])"

definition task_step :: "'r future_bench \<Rightarrow> nat \<Rightarrow> 'r future_pc list \<Rightarrow> 'r futures \<Rightarrow> 'r future_pc
  \<Rightarrow> ('r future_pc \<times> 'r futures) list" where
  "task_step b i ts s pc = (case pc of
     Fu_Idle \<Rightarrow> (if launched_task (ts ! 0) i then [(Fu_Await, s)] else [])
   | Fu_Await \<Rightarrow> (case awaits b i of
        None \<Rightarrow> [(Fu_Work None, s)]
      | Some j \<Rightarrow> (case slots s ! j of None \<Rightarrow> [] | Some v \<Rightarrow> [(Fu_Work (Some v), s)]))
   | Fu_Work v \<Rightarrow> [(Fu_Over, s\<lparr>slots := (slots s)[i := Some (task_work b i v)]\<rparr>)]
   | _ \<Rightarrow> [])"

definition future_step :: "'r future_bench \<Rightarrow> ('r future_pc, 'r futures) stepper" where
  "future_step b i ts s =
     (if i = 0 then future_main_step b s (ts ! 0) else task_step b (i - 1) ts s (ts ! i))"

definition future_start :: "'r future_bench \<Rightarrow> ('r future_pc, 'r futures) conf" where
  "future_start b = (Fu_Launch 0 # replicate (task_count b) Fu_Idle,
     \<lparr>slots = replicate (task_count b) None, got_values = [], completed_count = 0, timeout_count = 0\<rparr>)"

section \<open>The two benchmarks\<close>

text \<open>
  A chain is five tasks in a row; the last one's future is kept.  \<open>work\<close> is the function that the steps
  run, in the code \<open>cpu_work\<close>.
\<close>

definition chaining_bench :: "(int \<Rightarrow> int option) \<Rightarrow> nat \<Rightarrow> int option future_bench" where
  "chaining_bench work num_chains =
     \<lparr>task_count = num_chains * 5,
      awaits = (\<lambda>i. if i mod 5 = 0 then None else Some (i - 1)),
      task_work = (\<lambda>i prev. case prev of None \<Rightarrow> work 2000 | Some prev_result \<Rightarrow> add_to prev_result (work 2000)),
      finals = map (\<lambda>chain. chain * 5 + 4) [0..<num_chains],
      timed = False\<rparr>"

definition timeout_bench :: "nat \<Rightarrow> unit future_bench" where
  "timeout_bench num_tasks =
     \<lparr>task_count = num_tasks, awaits = (\<lambda>i. None), task_work = (\<lambda>i v. ()), finals = [0..<num_tasks], timed = True\<rparr>"

section \<open>The values of the futures\<close>

primrec future_values :: "'r future_bench \<Rightarrow> nat \<Rightarrow> 'r list" where
  "future_values b 0 = []"
| "future_values b (Suc n) =
     future_values b n @ [task_work b n (map_option (\<lambda>j. future_values b n ! j) (awaits b n))]"

definition value_of :: "'r future_bench \<Rightarrow> nat \<Rightarrow> 'r" where
  "value_of b i = future_values b (Suc i) ! i"

definition bench_ok :: "'r future_bench \<Rightarrow> bool" where
  "bench_ok b \<longleftrightarrow> (\<forall>i j. awaits b i = Some j \<longrightarrow> j < i) \<and> list_all (\<lambda>i. i < task_count b) (finals b)"

lemma length_future_values [simp]: "length (future_values b n) = n"
  by (induction n) simp_all

lemma future_values_nth: "i < n \<Longrightarrow> future_values b n ! i = value_of b i"
proof (induction n)
  case (Suc n)
  then show ?case by (cases "i = n") (auto simp: value_of_def nth_append less_Suc_eq)
qed simp

lemma value_of_unfold:
  assumes "bench_ok b"
  shows "value_of b i = task_work b i (map_option (value_of b) (awaits b i))"
proof -
  have "map_option (\<lambda>j. future_values b i ! j) (awaits b i) = map_option (value_of b) (awaits b i)"
    using assms by (cases "awaits b i") (auto simp: bench_ok_def future_values_nth)
  then show ?thesis by (simp add: value_of_def nth_append)
qed

section \<open>Every run ends with these values\<close>

fun main_future :: "'r future_pc \<Rightarrow> bool" where
  "main_future (Fu_Launch k) = True" | "main_future (Fu_Wait j) = True" | "main_future (Fu_Get j) = True"
| "main_future Fu_End = True" | "main_future pc = False"

text \<open>How many futures the main thread has got, and how many it has waited for.\<close>

fun gotten :: "'r future_bench \<Rightarrow> 'r future_pc \<Rightarrow> nat" where
  "gotten b (Fu_Wait j) = j" | "gotten b (Fu_Get j) = j" | "gotten b Fu_End = length (finals b)" | "gotten b pc = 0"

fun waited :: "'r future_bench \<Rightarrow> 'r future_pc \<Rightarrow> nat" where
  "waited b (Fu_Wait j) = j" | "waited b (Fu_Get j) = Suc j" | "waited b Fu_End = length (finals b)" | "waited b pc = 0"

definition main_future_ok :: "'r future_bench \<Rightarrow> 'r future_pc \<Rightarrow> 'r futures \<Rightarrow> bool" where
  "main_future_ok b m s \<longleftrightarrow> main_future m
     \<and> (case m of Fu_Wait j \<Rightarrow> timed b \<and> j < length (finals b) | Fu_Get j \<Rightarrow> j < length (finals b) | _ \<Rightarrow> True)
     \<and> got_values s = map (value_of b) (take (gotten b m) (finals b))
     \<and> list_all (\<lambda>i. slots s ! i \<noteq> None) (take (gotten b m) (finals b))
     \<and> completed_count s + timeout_count s = (if timed b then waited b m else 0)"

definition task_ok :: "'r future_bench \<Rightarrow> 'r futures \<Rightarrow> nat \<Rightarrow> 'r future_pc \<Rightarrow> bool" where
  "task_ok b s i t \<longleftrightarrow> \<not> main_future t \<and> slots s ! i = (if t = Fu_Over then Some (value_of b i) else None)
     \<and> (\<forall>v. t = Fu_Work v \<longrightarrow> v = map_option (value_of b) (awaits b i))"

definition future_inv :: "'r future_bench \<Rightarrow> ('r future_pc, 'r futures) conf \<Rightarrow> bool" where
  "future_inv b conf = (case conf of (ts, s) \<Rightarrow> length ts = Suc (task_count b) \<and> length (slots s) = task_count b
     \<and> main_future_ok b (ts ! 0) s \<and> (\<forall>i < task_count b. task_ok b s i (ts ! Suc i)))"

definition future_done :: "'r future_bench \<Rightarrow> ('r future_pc, 'r futures) conf \<Rightarrow> bool" where
  "future_done b conf = (case conf of (ts, s) \<Rightarrow>
     ts = Fu_End # replicate (task_count b) Fu_Over
     \<and> slots s = map (\<lambda>i. Some (value_of b i)) [0..<task_count b]
     \<and> got_values s = map (value_of b) (finals b)
     \<and> completed_count s + timeout_count s = (if timed b then length (finals b) else 0))"

fun future_rank1 :: "'r future_bench \<Rightarrow> 'r future_pc \<Rightarrow> nat" where
  "future_rank1 b (Fu_Launch k) = (task_count b - k) + 2 * length (finals b) + 1"
| "future_rank1 b (Fu_Wait j) = 2 * (length (finals b) - j)"
| "future_rank1 b (Fu_Get j) = 2 * (length (finals b) - j) - 1"
| "future_rank1 b Fu_End = 0"
| "future_rank1 b Fu_Idle = 3"
| "future_rank1 b Fu_Await = 2"
| "future_rank1 b (Fu_Work v) = 1"
| "future_rank1 b Fu_Over = 0"

definition future_rank :: "'r future_bench \<Rightarrow> ('r future_pc, 'r futures) conf \<Rightarrow> nat" where
  "future_rank b conf = tsum (future_rank1 b) (fst conf)"

lemma future_start_inv: "future_inv b (future_start b)"
  by (auto simp: future_inv_def future_start_def main_future_ok_def task_ok_def)

lemma next_future_ok:
  "main_future (next_future b j)"
  "gotten b (next_future b j) = (if j < length (finals b) then j else length (finals b))"
  by (simp_all add: next_future_def)

lemma next_future_main:
  assumes "bench_ok b" "j \<le> length (finals b)"
    and "got_values s = map (value_of b) (take j (finals b))"
    and "list_all (\<lambda>i. slots s ! i \<noteq> None) (take j (finals b))"
    and "completed_count s + timeout_count s = (if timed b then j else 0)"
  shows "main_future_ok b (next_future b j) s"
  using assms by (auto simp: main_future_ok_def next_future_def)

lemma future_main_keeps:
  assumes ok: "main_future_ok b m s" "bench_ok b"
    and tasks: "\<And>i v. i < task_count b \<Longrightarrow> slots s ! i = Some v \<Longrightarrow> v = value_of b i"
    and st: "(m', s') \<in> set (future_main_step b s m)"
  shows "main_future_ok b m' s'"
proof (cases m)
  case (Fu_Launch k)
  then show ?thesis
    using ok st next_future_main [of b 0 s] by (auto simp: future_main_step_def main_future_ok_def split: if_splits)
next
  case (Fu_Wait j)
  then show ?thesis using ok st
    by (auto simp: future_main_step_def main_future_ok_def split: if_splits)
next
  case (Fu_Get j)
  then have j: "j < length (finals b)" using ok by (simp add: main_future_ok_def)
  then have task: "finals b ! j < task_count b" using ok(2) by (simp add: bench_ok_def list_all_length)
  show ?thesis
  proof (cases "slots s ! (finals b ! j)")
    case None
    then show ?thesis using st Fu_Get by (simp add: future_main_step_def)
  next
    case (Some v)
    then have next_pc: "m' = next_future b (Suc j)" "s' = s\<lparr>got_values := got_values s @ [v]\<rparr>"
      using st Fu_Get by (simp_all add: future_main_step_def)
    show ?thesis
      unfolding next_pc using ok Fu_Get j tasks [OF task Some]
      by (intro next_future_main) (simp_all add: main_future_ok_def take_Suc_conv_app_nth Some)
  qed
qed (use st in \<open>simp_all add: future_main_step_def\<close>)

lemma main_slots: "(m', s') \<in> set (future_main_step b s m) \<Longrightarrow> slots s' = slots s"
  by (cases m) (auto simp: future_main_step_def split: if_splits option.splits)

lemma task_fills: "(t', s') \<in> set (task_step b x ts s t) \<Longrightarrow> x < length (slots s) \<Longrightarrow> slots s ! y \<noteq> None \<Longrightarrow> slots s' ! y \<noteq> None"
  by (cases t) (auto simp: task_step_def nth_list_update split: if_splits option.splits)

lemma task_frame: "(t', s') \<in> set (task_step b x ts s t)
  \<Longrightarrow> got_values s' = got_values s \<and> completed_count s' = completed_count s \<and> timeout_count s' = timeout_count s
    \<and> (\<forall>y. y \<noteq> x \<longrightarrow> slots s' ! y = slots s ! y) \<and> length (slots s') = length (slots s)"
  by (cases t) (auto simp: task_step_def split: if_splits option.splits)

lemma task_keeps:
  assumes ok: "bench_ok b" "task_ok b s x t" "x < length (slots s)"
    and tasks: "\<And>i v. i < x \<Longrightarrow> slots s ! i = Some v \<Longrightarrow> v = value_of b i"
    and st: "(t', s') \<in> set (task_step b x ts s t)"
  shows "task_ok b s' x t'"
proof (cases t)
  case Fu_Await
  show ?thesis
  proof (cases "awaits b x")
    case None
    then show ?thesis using ok(2) st Fu_Await by (auto simp: task_step_def task_ok_def)
  next
    case (Some j)
    then have "j < x" using ok(1) by (simp add: bench_ok_def)
    then show ?thesis
      using ok(2) st Fu_Await Some tasks [of j]
      by (cases "slots s ! j") (auto simp: task_step_def task_ok_def)
  qed
next
  case (Fu_Work v)
  then show ?thesis using ok st value_of_unfold [OF ok(1), of x] by (auto simp: task_step_def task_ok_def)
qed (use ok st in \<open>auto simp: task_step_def task_ok_def split: if_splits\<close>)

lemma future_inv_slot: "future_inv b (ts, s) \<Longrightarrow> i < task_count b \<Longrightarrow> slots s ! i = Some v \<Longrightarrow> v = value_of b i"
  by (auto simp: future_inv_def task_ok_def split: if_splits)

lemma future_keeps:
  assumes b: "bench_ok b" and inv: "future_inv b (ts, s)" and i: "i < length ts"
    and st: "(l, s') \<in> set (future_step b i ts s)"
  shows "future_inv b (ts[i := l], s')"
proof (cases i)
  case 0
  then have main: "(l, s') \<in> set (future_main_step b s (ts ! 0))" using st by (simp add: future_step_def)
  have "main_future_ok b l s'"
    using future_main_keeps [OF _ b future_inv_slot [OF inv] main] inv by (simp add: future_inv_def)
  then show ?thesis
    using inv 0 i main_slots [OF main] by (auto simp: future_inv_def task_ok_def)
next
  case (Suc x)
  then have task: "(l, s') \<in> set (task_step b x ts s (ts ! Suc x))" using st by (simp add: future_step_def)
  have x: "x < task_count b" using inv i Suc by (simp add: future_inv_def)
  have "task_ok b s' x l"
  proof (rule task_keeps [OF b _ _ _ task])
    show "v = value_of b j" if "j < x" "slots s ! j = Some v" for j v
      using future_inv_slot [OF inv _ that(2)] that(1) x by simp
  qed (use inv x in \<open>auto simp: future_inv_def\<close>)
  moreover have "main_future_ok b (ts ! 0) s'"
    using inv task_frame [OF task] task_fills [OF task] x
    by (auto simp: future_inv_def main_future_ok_def list_all_iff)
  ultimately show ?thesis
    using inv Suc i task_frame [OF task] by (auto simp: future_inv_def task_ok_def nth_list_update)
qed

section \<open>Every run ends\<close>

lemma future_decrease:
  assumes inv: "future_inv b (ts, s)" and i: "i < length ts" and st: "(l, s') \<in> set (future_step b i ts s)"
  shows "future_rank b (ts[i := l], s') < future_rank b (ts, s)"
proof -
  have "future_rank1 b l < future_rank1 b (ts ! i)"
  proof (cases i)
    case 0
    then show ?thesis
      using inv st
      by (cases "ts ! 0")
        (auto simp: future_step_def future_main_step_def next_future_def future_inv_def main_future_ok_def
          split: if_splits option.splits)
  next
    case (Suc x)
    then show ?thesis
      using st by (cases "ts ! i") (auto simp: future_step_def task_step_def split: if_splits option.splits)
  qed
  then show ?thesis
    using tsum_update [OF i, of "future_rank1 b" l] by (simp add: future_rank_def)
qed

text \<open>A task that cannot run waits for one that was launched before it, so the first one can always run.\<close>

lemma tasks_over:
  assumes b: "bench_ok b" and inv: "future_inv b (ts, s)"
    and stuck: "\<And>i. i < length ts \<Longrightarrow> future_step b i ts s = []"
  shows "x < task_count b \<Longrightarrow> ts ! Suc x = Fu_Over"
proof (induction x rule: less_induct)
  case (less x)
  have x: "Suc x < length ts" "\<not> main_future (ts ! Suc x)" using inv less.prems by (auto simp: future_inv_def task_ok_def)
  have launched: "launched_task (ts ! 0) y" for y
  proof -
    have "0 < length ts" "main_future (ts ! 0)" using inv by (auto simp: future_inv_def main_future_ok_def)
    then show ?thesis using stuck [of 0] by (cases "ts ! 0") (simp_all add: future_step_def future_main_step_def)
  qed
  have step: "task_step b x ts s (ts ! Suc x) = []" using stuck [OF x(1)] by (simp add: future_step_def)
  have ready: "slots s ! j \<noteq> None" if "awaits b x = Some j" for j
  proof -
    have "j < x" using b that by (simp add: bench_ok_def)
    then have "ts ! Suc j = Fu_Over" using less by simp
    then show ?thesis using inv \<open>j < x\<close> less.prems by (auto simp: future_inv_def task_ok_def)
  qed
  show ?case
    using step x(2) launched ready by (cases "ts ! Suc x") (auto simp: task_step_def split: option.splits if_splits)
qed

lemma future_stuck:
  assumes b: "bench_ok b" and inv: "future_inv b (ts, s)"
    and stuck: "\<And>i. i < length ts \<Longrightarrow> future_step b i ts s = []"
  shows "future_done b (ts, s)"
proof -
  have over: "ts ! Suc x = Fu_Over" if "x < task_count b" for x
    using tasks_over [OF b inv stuck that] .
  have slot: "slots s ! x = Some (value_of b x)" if "x < task_count b" for x
    using inv over that by (auto simp: future_inv_def task_ok_def)
  have main: "main_future_ok b (ts ! 0) s" "future_main_step b s (ts ! 0) = []"
    using inv stuck [of 0] by (auto simp: future_inv_def future_step_def)
  have "ts ! 0 = Fu_End"
  proof (cases "ts ! 0")
    case (Fu_Get j)
    then have "j < length (finals b)" using main(1) by (simp add: main_future_ok_def)
    then have "finals b ! j < task_count b" using b by (simp add: bench_ok_def list_all_length)
    then show ?thesis using main(2) slot Fu_Get by (simp add: future_main_step_def)
  qed (use main in \<open>auto simp: future_main_step_def main_future_ok_def\<close>)
  moreover have "ts = ts ! 0 # replicate (task_count b) Fu_Over"
    using inv over by (intro nth_equalityI) (auto simp: future_inv_def nth_Cons split: nat.splits)
  moreover have "slots s = map (\<lambda>i. Some (value_of b i)) [0..<task_count b]"
    using inv slot by (intro nth_equalityI) (auto simp: future_inv_def)
  ultimately show ?thesis using main(1) by (simp add: future_done_def main_future_ok_def)
qed

lemma future_live:
  assumes "bench_ok b"
  shows "live_interleaving (future_step b) (future_start b) (future_inv b) (future_done b) (future_rank b)"
  using future_start_inv future_keeps [OF assms] future_stuck [OF assms] future_decrease by (rule live_by_measure)

lemma futures_finish:
  assumes "bench_ok b"
  shows "finishes (future_step b) (future_start b) (future_done b) (4 * task_count b + 2 * length (finals b) + 1)"
  by (rule live_interleaving.always_finishes [OF future_live [OF assms]]) (simp add: future_rank_def future_start_def)

text \<open>When the main thread has got all the futures, the tasks they belong to are over.\<close>

lemma finals_over:
  assumes b: "bench_ok b" and run: "steps (future_step b) (future_start b) (Fu_End # ts, s)" and i: "i \<in> set (finals b)"
  shows "ts ! i = Fu_Over"
proof -
  have inv: "future_inv b (Fu_End # ts, s)"
    using run by (rule interleaving.reach_inv [OF live_interleaving.axioms(1) [OF future_live [OF b]]])
  then have "slots s ! i \<noteq> None" using i by (auto simp: future_inv_def main_future_ok_def list_all_iff)
  moreover have "i < task_count b" using b i by (simp add: bench_ok_def list_all_iff)
  ultimately show ?thesis using inv by (auto simp: future_inv_def task_ok_def split: if_splits)
qed

section \<open>Chains\<close>

lemma chaining_ok: "bench_ok (chaining_bench work n)"
proof -
  have "j < i" if "i mod 5 \<noteq> 0" "j = i - 1" for i j :: nat using that by (cases i) simp_all
  then show ?thesis by (auto simp: bench_ok_def chaining_bench_def list_all_iff split: if_splits)
qed

lemma chaining_value: "step < 5 \<Longrightarrow> value_of (chaining_bench work n) (chain * 5 + step) = chain_sum work (Suc step) 2000"
proof (induction step)
  case 0
  show ?case by (subst value_of_unfold [OF chaining_ok]) (simp add: chaining_bench_def chain_sum_def)
next
  case (Suc step)
  then have "value_of (chaining_bench work n) (chain * 5 + step) = chain_sum work (Suc step) 2000" by simp
  moreover have "awaits (chaining_bench work n) (chain * 5 + Suc step) = Some (chain * 5 + step)"
    using Suc.prems by (simp add: chaining_bench_def)
  moreover have "task_work (chaining_bench work n) i (Some r) = add_to r (work 2000)" for i r
    by (simp add: chaining_bench_def)
  ultimately show ?case
    by (subst value_of_unfold [OF chaining_ok]) (simp add: chain_sum_def)
qed

lemma chaining_finals: "map (value_of (chaining_bench work n)) (finals (chaining_bench work n)) = replicate n (chain_sum work 5 2000)"
proof -
  have "finals (chaining_bench work n) = map (\<lambda>chain. chain * 5 + 4) [0..<n]" by (simp add: chaining_bench_def)
  then show ?thesis by (simp add: comp_def chaining_value map_replicate_const)
qed

lemma chaining_slots: "value_of (chaining_bench work n) i = chain_sum work (Suc (i mod 5)) 2000"
  using chaining_value [of "i mod 5" work n "i div 5"] by simp

lemma chaining_tasks [simp]:
  "task_count (chaining_bench work n) = n * 5" "length (finals (chaining_bench work n)) = n" "timed (chaining_bench work n) = False"
  by (simp_all add: chaining_bench_def)

section \<open>Timeouts\<close>

lemma timeout_ok: "bench_ok (timeout_bench n)"
  by (simp add: bench_ok_def timeout_bench_def list_all_iff)

lemma timeout_tasks [simp]:
  "task_count (timeout_bench n) = n" "finals (timeout_bench n) = [0..<n]" "timed (timeout_bench n) = True"
  "awaits (timeout_bench n) i = None"
  by (simp_all add: timeout_bench_def)

text \<open>The main thread may find a task ready, or its time may be over: a task can run before it or after it.\<close>

lemma task_runs:
  assumes "launched_task m (length us)" "awaits b (length us) = None"
  shows "steps (future_step b) (m # us @ Fu_Idle # vs, s)
    (m # us @ Fu_Over # vs, s\<lparr>slots := (slots s)[length us := Some (task_work b (length us) None)]\<rparr>)"
proof -
  have act: "istep (future_step b) (m # us @ t # vs, s) (m # us @ t' # vs, s')"
    if "(t', s') \<in> set (task_step b (length us) (m # us @ t # vs) s t)" for t t' s s'
    using istepI [of "Suc (length us)" "m # us @ t # vs" t' s' "future_step b" s] that
    by (simp add: future_step_def nth_append)
  have "istep (future_step b) (m # us @ Fu_Idle # vs, s) (m # us @ Fu_Await # vs, s)"
    using assms by (intro act) (simp add: task_step_def)
  moreover have "istep (future_step b) (m # us @ Fu_Await # vs, s) (m # us @ Fu_Work None # vs, s)"
    using assms by (intro act) (simp add: task_step_def)
  moreover have "istep (future_step b) (m # us @ Fu_Work None # vs, s)
      (m # us @ Fu_Over # vs, s\<lparr>slots := (slots s)[length us := Some (task_work b (length us) None)]\<rparr>)"
    by (intro act) (simp add: task_step_def)
  ultimately show ?thesis by (meson converse_rtranclp_into_rtranclp r_into_rtranclp)
qed

lemma future_main_moves:
  "(m', s') \<in> set (future_main_step b s m) \<Longrightarrow> istep (future_step b) (m # ts, s) (m' # ts, s')"
  using istepI [of 0 "m # ts" m' s' "future_step b" s] by (simp add: future_step_def)

text \<open>The main thread has got the first \<open>j\<close> of the \<open>n\<close> futures, and the other tasks have not begun.\<close>

definition after_gets :: "nat \<Rightarrow> nat \<Rightarrow> nat \<Rightarrow> nat \<Rightarrow> (unit future_pc, unit futures) conf" where
  "after_gets n j c t = (next_future (timeout_bench n) j # replicate j Fu_Over @ replicate (n - j) Fu_Idle,
     \<lparr>slots = replicate j (Some ()) @ replicate (n - j) None, got_values = replicate j (),
      completed_count = c, timeout_count = t\<rparr>)"

lemma after_launches: "steps (future_step (timeout_bench n)) (future_start (timeout_bench n)) (after_gets n 0 0 0)"
proof -
  let ?b = "timeout_bench n"
  have launch: "steps (future_step ?b) (future_start ?b) (Fu_Launch k # replicate n Fu_Idle, snd (future_start ?b))" if "k \<le> n" for k
    using that
  proof (induction k)
    case 0
    show ?case by (simp add: future_start_def)
  next
    case (Suc k)
    moreover have "istep (future_step ?b) (Fu_Launch k # replicate n Fu_Idle, snd (future_start ?b))
        (Fu_Launch (Suc k) # replicate n Fu_Idle, snd (future_start ?b))"
      using Suc.prems by (intro future_main_moves) (simp add: future_main_step_def)
    ultimately show ?case by (meson Suc_leD rtranclp.rtrancl_into_rtrancl)
  qed
  moreover have "istep (future_step ?b) (Fu_Launch n # replicate n Fu_Idle, snd (future_start ?b))
      (next_future ?b 0 # replicate n Fu_Idle, snd (future_start ?b))"
    by (intro future_main_moves) (simp add: future_main_step_def)
  moreover have "after_gets n 0 0 0 = (next_future ?b 0 # replicate n Fu_Idle, snd (future_start ?b))"
    by (simp add: after_gets_def future_start_def)
  ultimately show ?thesis by (metis order_refl rtranclp.rtrancl_into_rtrancl)
qed

lemma replicate_next:
  "replicate (Suc j) x @ ys = replicate j x @ x # ys"
  "j < n \<Longrightarrow> replicate (n - j) y = y # replicate (n - Suc j) y"
  by (simp_all add: replicate_app_Cons_same Suc_diff_Suc flip: replicate_Suc)

lemma task_before_main:
  assumes "j < n" "launched_task m j"
  shows "steps (future_step (timeout_bench n)) (m # replicate j Fu_Over @ replicate (n - j) Fu_Idle, s)
    (m # replicate (Suc j) Fu_Over @ replicate (n - Suc j) Fu_Idle, s\<lparr>slots := (slots s)[j := Some ()]\<rparr>)"
  using task_runs [of m "replicate j Fu_Over" "timeout_bench n" "replicate (n - Suc j) Fu_Idle" s] assms
  by (simp add: replicate_next del: replicate_Suc)

lemma slot_filled:
  "j < n \<Longrightarrow> (replicate j (Some ()) @ replicate (n - j) None)[j := Some ()]
    = replicate (Suc j) (Some ()) @ replicate (n - Suc j) None"
  by (simp add: replicate_next list_update_append del: replicate_Suc)

lemma filled_slot: "(replicate (Suc j) (Some ()) @ xs) ! j = Some ()"
  by (simp add: nth_append del: replicate_Suc)

text \<open>The tasks and the state once the first \<open>j\<close> tasks have run and \<open>i\<close> futures have been got.\<close>

definition tasks_run :: "nat \<Rightarrow> nat \<Rightarrow> unit future_pc list" where
  "tasks_run n j = replicate j Fu_Over @ replicate (n - j) Fu_Idle"

definition after_runs :: "nat \<Rightarrow> nat \<Rightarrow> nat \<Rightarrow> nat \<Rightarrow> nat \<Rightarrow> unit futures" where
  "after_runs n j i c t = \<lparr>slots = replicate j (Some ()) @ replicate (n - j) None, got_values = replicate i (),
     completed_count = c, timeout_count = t\<rparr>"

lemma after_gets_eq: "after_gets n j c t = (next_future (timeout_bench n) j # tasks_run n j, after_runs n j j c t)"
  by (simp add: after_gets_def tasks_run_def after_runs_def)

lemma run_next:
  assumes "j < n" "launched_task m j"
  shows "steps (future_step (timeout_bench n)) (m # tasks_run n j, after_runs n j i c t) (m # tasks_run n (Suc j), after_runs n (Suc j) i c t)"
  using task_before_main [OF assms, of "after_runs n j i c t"] slot_filled [OF assms(1)] by (simp add: tasks_run_def after_runs_def del: replicate_Suc)

lemma get_next:
  assumes "j < n"
  shows "istep (future_step (timeout_bench n)) (Fu_Get j # tasks_run n (Suc j), after_runs n (Suc j) j c t) (after_gets n (Suc j) c t)"
  unfolding after_gets_eq using assms filled_slot [of j "replicate (n - Suc j) None"]
  by (intro future_main_moves) (simp add: future_main_step_def after_runs_def replicate_append_same)

lemma wait_completes:
  assumes j: "j < n"
  shows "steps (future_step (timeout_bench n)) (after_gets n j c t) (after_gets n (Suc j) (Suc c) t)"
proof -
  let ?b = "timeout_bench n"
  have "steps (future_step ?b) (after_gets n j c t) (Fu_Wait j # tasks_run n (Suc j), after_runs n (Suc j) j c t)"
    using run_next [OF j, of "Fu_Wait j"] j by (simp add: after_gets_eq next_future_def)
  moreover have "istep (future_step ?b) (Fu_Wait j # tasks_run n (Suc j), after_runs n (Suc j) j c t)
      (Fu_Get j # tasks_run n (Suc j), after_runs n (Suc j) j (Suc c) t)"
    using j filled_slot [of j "replicate (n - Suc j) None"]
    by (intro future_main_moves) (simp add: future_main_step_def after_runs_def)
  ultimately show ?thesis using get_next [OF j] by (meson rtranclp.rtrancl_into_rtrancl)
qed

lemma wait_times_out:
  assumes j: "j < n"
  shows "steps (future_step (timeout_bench n)) (after_gets n j c t) (after_gets n (Suc j) c (Suc t))"
proof -
  let ?b = "timeout_bench n"
  have "istep (future_step ?b) (after_gets n j c t) (Fu_Get j # tasks_run n j, after_runs n j j c (Suc t))"
    unfolding after_gets_eq using j
    by (intro future_main_moves) (simp add: next_future_def future_main_step_def after_runs_def nth_append)
  moreover have "steps (future_step ?b) (Fu_Get j # tasks_run n j, after_runs n j j c (Suc t))
      (Fu_Get j # tasks_run n (Suc j), after_runs n (Suc j) j c (Suc t))"
    using run_next [OF j, of "Fu_Get j"] by simp
  ultimately show ?thesis
    using get_next [OF j] by (meson converse_rtranclp_into_rtranclp rtranclp.rtrancl_into_rtrancl)
qed

lemma any_split: "k + t \<le> n \<Longrightarrow> steps (future_step (timeout_bench n)) (future_start (timeout_bench n)) (after_gets n (k + t) k t)"
proof (induction t)
  case 0
  then show ?case
  proof (induction k)
    case (Suc k)
    then show ?case using wait_completes [of k n k 0] by (simp add: rtranclp_trans)
  qed (simp add: after_launches)
next
  case (Suc t)
  then show ?case using wait_times_out [of "k + t" n k t] by (simp add: rtranclp_trans)
qed

section \<open>The iterations\<close>

text \<open>
  Every run of StdAsync\_Chaining ends with the future of each step holding the sum of the steps of
  its chain up to it.
\<close>

lemma chaining_finishes:
  "finishes (future_step (chaining_bench work n)) (future_start (chaining_bench work n))
    (\<lambda>(ts, s). ts = Fu_End # replicate (n * 5) Fu_Over
      \<and> slots s = map (\<lambda>i. Some (chain_sum work (Suc (i mod 5)) 2000)) [0..<n * 5]
      \<and> sum_results (got_values s) = chains_total work n) (22 * n + 1)"
proof (rule finishes_mono [OF futures_finish [OF chaining_ok]])
  show "case conf of (ts, s) \<Rightarrow> ts = Fu_End # replicate (n * 5) Fu_Over
      \<and> slots s = map (\<lambda>i. Some (chain_sum work (Suc (i mod 5)) 2000)) [0..<n * 5]
      \<and> sum_results (got_values s) = chains_total work n"
    if "future_done (chaining_bench work n) conf" for conf
    using that by (auto simp: future_done_def chaining_finals chaining_slots chains_total_def)
qed simp

text \<open>Every run of StdAsync\_Timeout ends with every task over and counted once.\<close>

lemma timeout_finishes:
  "finishes (future_step (timeout_bench n)) (future_start (timeout_bench n))
    (\<lambda>(ts, s). ts = Fu_End # replicate n Fu_Over \<and> slots s = replicate n (Some ())
      \<and> completed_count s + timeout_count s = n) (6 * n + 1)"
proof (rule finishes_mono [OF futures_finish [OF timeout_ok]])
  show "case conf of (ts, s) \<Rightarrow> ts = Fu_End # replicate n Fu_Over \<and> slots s = replicate n (Some ())
      \<and> completed_count s + timeout_count s = n"
    if "future_done (timeout_bench n) conf" for conf
    using that by (auto simp: future_done_def map_replicate_const)
qed simp

text \<open>The clock is stopped after the main thread has got all the futures: then no task is running.\<close>

lemma timeout_none_left:
  assumes run: "steps (future_step (timeout_bench n)) (future_start (timeout_bench n)) (Fu_End # ts, s)"
  shows "ts = replicate n Fu_Over"
proof -
  have "length ts = n"
    using interleaving.reach_inv [OF live_interleaving.axioms(1) [OF future_live [OF timeout_ok]] run]
    by (simp add: future_inv_def)
  then show ?thesis
    using finals_over [OF timeout_ok run] by (intro nth_equalityI) auto
qed

text \<open>
  C28. The std::async benchmarks of bench\_async\_future.cpp, whatever the function \<open>work\<close> of their tasks
  computes (in the code it is \<open>cpu_work\<close>): every run of an iteration of StdAsync\_LaunchAsync ends with
  every future holding the result of its own task, and the total is that of the tasks;
  StdAsync\_LaunchDeferred, in which \<open>get\<close> runs the tasks in turn, computes the same total.  Every run
  of StdAsync\_ExceptionHandling ends with the outcome of each task in its future, an exception or a
  result, and they are added up and counted in order.  In StdAsync\_Chaining the future of each step
  holds the sum of the work of the steps of its chain so far, and the main thread adds up the
  chains.  In StdAsync\_Timeout the completed tasks and the timeouts add up to the tasks, no task is left
  running when the main thread has got all the futures and stops the clock, and every number of
  timeouts can happen.
\<close>

theorem future_benchmarks_finish:
  "finishes (launch_async_step work n) (async_start n)
      (\<lambda>(ts, (g, futures)). ts = script_end n \<and> futures = map (\<lambda>i. Some (task_value work 10000 i)) [0..<n]
        \<and> future_total futures = tasks_total work 10000 n) (n * 6 + 2)
    \<and> deferred_total work n = tasks_total work 10000 n
    \<and> finishes (exception_step draws n) (async_start n)
      (\<lambda>(ts, (g, futures)). ts = script_end n \<and> futures = map (\<lambda>i. Some (risky_outcome draws i)) [0..<n]
        \<and> foldl collect_outcome (Some 0, 0) (map (\<lambda>v. Option.bind v id) futures) = exception_handling draws n) (n * 6 + 2)
    \<and> finishes (future_step (chaining_bench work n)) (future_start (chaining_bench work n))
      (\<lambda>(ts, s). ts = Fu_End # replicate (n * 5) Fu_Over
        \<and> slots s = map (\<lambda>i. Some (chain_sum work (Suc (i mod 5)) 2000)) [0..<n * 5]
        \<and> sum_results (got_values s) = chains_total work n) (22 * n + 1)
    \<and> finishes (future_step (timeout_bench n)) (future_start (timeout_bench n))
      (\<lambda>(ts, s). ts = Fu_End # replicate n Fu_Over \<and> slots s = replicate n (Some ())
        \<and> completed_count s + timeout_count s = n) (6 * n + 1)
    \<and> (\<nexists>ts s. steps (future_step (timeout_bench n)) (future_start (timeout_bench n)) (Fu_End # ts, s)
        \<and> ts \<noteq> replicate n Fu_Over)
    \<and> (\<exists>conf. steps (future_step (timeout_bench (k + t))) (future_start (timeout_bench (k + t))) conf
        \<and> fst conf = Fu_End # replicate (k + t) Fu_Over
        \<and> completed_count (snd conf) = k \<and> timeout_count (snd conf) = t)"
proof (intro conjI)
  show "\<nexists>ts s. steps (future_step (timeout_bench n)) (future_start (timeout_bench n)) (Fu_End # ts, s)
      \<and> ts \<noteq> replicate n Fu_Over"
    using timeout_none_left by blast
  have "steps (future_step (timeout_bench (k + t))) (future_start (timeout_bench (k + t))) (after_gets (k + t) (k + t) k t)"
    by (rule any_split) simp
  then show "\<exists>conf. steps (future_step (timeout_bench (k + t))) (future_start (timeout_bench (k + t))) conf
      \<and> fst conf = Fu_End # replicate (k + t) Fu_Over \<and> completed_count (snd conf) = k \<and> timeout_count (snd conf) = t"
    by (intro exI [of _ "after_gets (k + t) (k + t) k t"] conjI) (simp_all add: after_gets_def next_future_def)
qed (rule chaining_finishes timeout_finishes deferred_total_eq async_benchmarks_finish [THEN conjunct2, THEN conjunct1]
    async_benchmarks_finish [THEN conjunct2, THEN conjunct2, THEN conjunct1])+

theorem future_benchmarks_finish_witness:
  "finishes (future_step (chaining_bench (\<lambda>n. Some (n div 100)) 3)) (future_start (chaining_bench (\<lambda>n. Some (n div 100)) 3))
    (\<lambda>(ts, s). slots s ! 0 = Some (Some 20) \<and> slots s ! 4 = Some (Some 100) \<and> sum_results (got_values s) = Some 300) 67"
proof -
  let ?work = "\<lambda>n :: int. Some (n div 100)"
  have chain: "chain_sum ?work (Suc k) 2000 = Some (20 * int (Suc k))" if "k < 5" for k
    using chain_sum_value [of ?work 2000 20 "Suc k"] that by (simp add: fits_def)
  have total: "chains_total ?work 3 = Some 300"
    using chain [of 4] by (simp add: chains_total_def sum_results_def add_int_def fits_def numeral_eq_Suc)
  have "finishes (future_step (chaining_bench ?work 3)) (future_start (chaining_bench ?work 3))
      (\<lambda>(ts, s). ts = Fu_End # replicate (3 * 5) Fu_Over
        \<and> slots s = map (\<lambda>i. Some (chain_sum ?work (Suc (i mod 5)) 2000)) [0..<3 * 5]
        \<and> sum_results (got_values s) = chains_total ?work 3) (22 * 3 + 1)"
    using future_benchmarks_finish [of ?work 3] by blast
  then show ?thesis
    by (rule finishes_mono) (auto simp: chain total)
qed

end
