(* ===== verification/Coroutines.thy ===== *)
theory Coroutines
  imports Signed_Int
begin

text \<open>
  One iteration of a coroutine benchmark of src/bench\_coroutines.cpp: the main thread creates and
  starts \<open>n\<close> coroutines, which suspend at an awaiter that schedules them with the
  \<open>TimerService\<close>; its worker resumes each when its time has come; the main thread polls the done
  flags, destroys the coroutine frames and then the service.  Both threads are written out step
  by step, down to the accesses that the final awaiter makes to the coroutine's frame.
\<close>

section \<open>The state\<close>

datatype awaiter = Io_Awaiter int | Yield_Awaiter

fun await_ready :: "awaiter \<Rightarrow> bool" where
  "await_ready (Io_Awaiter duration) = (duration \<le> 0)"
| "await_ready Yield_Awaiter = False"

fun await_delay :: "awaiter \<Rightarrow> nat" where
  "await_delay (Io_Awaiter duration) = nat duration"
| "await_delay Yield_Awaiter = 0"

text \<open>A coroutine body: what it computes before and after its \<open>co_await\<close>.\<close>

record 'r body =
  before_await :: 'r
  awaiting :: awaiter
  after_await :: "'r \<Rightarrow> 'r"

datatype frame = Absent | Live | Destroyed

text \<open>
  The timer service (mutex, whether its worker waits for the condition variable, heap of wake-up
  times and handles, stop flag), the clock (\<open>now\<close>, and how often it has been read), the done flags,
  the frames and the results of the coroutines.  \<open>resumed\<close> logs the handles that the worker
  resumes; \<open>use_after_free\<close> is set when a destroyed frame is accessed.
\<close>

record 'r coro =
  timer_mtx :: bool
  timer_waits :: bool
  heap :: "(nat \<times> nat) list"
  timer_stop :: bool
  now :: nat
  readings :: nat
  done_flags :: "bool list"
  frames :: "frame list"
  results :: "'r option list"
  resumed :: "nat list"
  use_after_free :: bool

definition coro_ctor :: "nat \<Rightarrow> 'r coro" where
  "coro_ctor n = \<lparr>timer_mtx = False, timer_waits = False, heap = [], timer_stop = False, now = 0, readings = 0,
     done_flags = replicate n False, frames = replicate n Absent, results = replicate n None, resumed = [],
     use_after_free = False\<rparr>"

text \<open>\<open>steady_clock::now()\<close>: \<open>elapsed k\<close> is the time that has passed before the \<open>k\<close>th reading.\<close>

definition read_clock :: "(nat \<Rightarrow> nat) \<Rightarrow> 'r coro \<Rightarrow> 'r coro" where
  "read_clock elapsed s = s\<lparr>now := now s + elapsed (readings s), readings := readings s + 1\<rparr>"

text \<open>The entries that \<open>heap_.top()\<close> may return: those with the earliest time.\<close>

definition tops :: "(nat \<times> nat) list \<Rightarrow> (nat \<times> nat) list" where
  "tops es = filter (\<lambda>e. list_all (\<lambda>e'. fst e \<le> fst e') es) es"

text \<open>An access to a coroutine frame.\<close>

definition touch :: "nat \<Rightarrow> 'r coro \<Rightarrow> 'r coro" where
  "touch h s = (if frames s ! h = Live then s else s\<lparr>use_after_free := True\<rparr>)"

text \<open>One pass of \<open>wait_all\<close> over the flags.\<close>

fun wait_pass :: "bool list \<Rightarrow> bool" where
  "wait_pass [] = True"
| "wait_pass (flag # flags) = (if \<not> flag then False else wait_pass flags)"

section \<open>The two threads\<close>

datatype coro_pc =
    Co_Create nat | Co_Run nat | Co_Clock nat | Co_Lock nat nat | Co_Push nat nat | Co_Unlock nat | Co_Notify nat
  | Co_Final nat | Co_Continue nat
  | Co_Poll | Co_Destroy nat | Co_Stop_Lock | Co_Stop_Set | Co_Stop_Unlock | Co_Stop_Notify | Co_Join | Co_Over
  | Ti_Start | Ti_Loop | Ti_Test | Ti_Wait | Ti_Blocked | Ti_Relock | Ti_Retest
  | Ti_Top | Ti_Wait_Until nat | Ti_Timed nat | Ti_Timed_Relock
  | Ti_Unlock nat | Ti_Resume nat | Ti_Final nat | Ti_Continue nat | Ti_Lock_Again | Ti_Return | Ti_Over

text \<open>
  The main thread.  \<open>Co_Run\<close> is \<open>resume()\<close> up to the \<open>co_await\<close>; an awaiter that is ready lets the
  coroutine run to its end, and \<open>final_suspend\<close> stores the flag and then reads \<open>continuation\<close>
  from the frame.  A pass of \<open>wait_all\<close> that finds a flag unset changes nothing and is not a step.
\<close>

definition main_coro_step :: "(nat \<Rightarrow> nat) \<Rightarrow> 'r body \<Rightarrow> nat \<Rightarrow> coro_pc list \<Rightarrow> 'r coro \<Rightarrow> coro_pc \<Rightarrow> (coro_pc \<times> 'r coro) list" where
  "main_coro_step elapsed body n ts s pc = (case pc of
     Co_Create i \<Rightarrow>
       [if i < n then (Co_Run i, s\<lparr>done_flags := (done_flags s)[i := False], frames := (frames s)[i := Live]\<rparr>)
        else (Co_Poll, s)]
   | Co_Run i \<Rightarrow>
       (let s' = touch i s\<lparr>results := (results s)[i := Some (before_await body)]\<rparr> in
        [if await_ready (awaiting body)
         then (Co_Final i, s'\<lparr>results := (results s')[i := map_option (after_await body) (results s' ! i)]\<rparr>)
         else (Co_Clock i, s')])
   | Co_Clock i \<Rightarrow>
       (let s' = read_clock elapsed s in [(Co_Lock i (now s' + await_delay (awaiting body)), s')])
   | Co_Lock i when \<Rightarrow> (if timer_mtx s then [] else [(Co_Push i when, s\<lparr>timer_mtx := True\<rparr>)])
   | Co_Push i when \<Rightarrow> [(Co_Unlock i, s\<lparr>heap := heap s @ [(when, i)]\<rparr>)]
   | Co_Unlock i \<Rightarrow> [(Co_Notify i, s\<lparr>timer_mtx := False\<rparr>)]
   | Co_Notify i \<Rightarrow> [(Co_Create (Suc i), s\<lparr>timer_waits := False\<rparr>)]
   | Co_Final i \<Rightarrow> [(Co_Continue i, (touch i s)\<lparr>done_flags := (done_flags s)[i := True]\<rparr>)]
   | Co_Continue i \<Rightarrow> [(Co_Create (Suc i), touch i s)]
   | Co_Poll \<Rightarrow> (if wait_pass (done_flags s) then [(Co_Destroy 0, s)] else [])
   | Co_Destroy k \<Rightarrow>
       [if k < n then (Co_Destroy (Suc k), s\<lparr>frames := (frames s)[k := Destroyed]\<rparr>) else (Co_Stop_Lock, s)]
   | Co_Stop_Lock \<Rightarrow> (if timer_mtx s then [] else [(Co_Stop_Set, s\<lparr>timer_mtx := True\<rparr>)])
   | Co_Stop_Set \<Rightarrow> [(Co_Stop_Unlock, s\<lparr>timer_stop := True\<rparr>)]
   | Co_Stop_Unlock \<Rightarrow> [(Co_Stop_Notify, s\<lparr>timer_mtx := False\<rparr>)]
   | Co_Stop_Notify \<Rightarrow> [(Co_Join, s\<lparr>timer_waits := False\<rparr>)]
   | Co_Join \<Rightarrow> (if ts ! 1 = Ti_Over then [(Co_Over, s)] else [])
   | _ \<Rightarrow> [])"

text \<open>
  The worker of the service, \<open>run()\<close>.  \<open>Ti_Wait\<close> and \<open>Ti_Wait_Until\<close> release the mutex and register
  with the condition variable in one step; a timed wait also ends when its time has come, and with
  \<open>spurious\<close> wake-ups either wait may end at any time.
\<close>

definition timer_step :: "bool \<Rightarrow> (nat \<Rightarrow> nat) \<Rightarrow> 'r body \<Rightarrow> 'r coro \<Rightarrow> coro_pc \<Rightarrow> (coro_pc \<times> 'r coro) list" where
  "timer_step spurious elapsed body s pc = (case pc of
     Ti_Start \<Rightarrow> (if timer_mtx s then [] else [(Ti_Loop, s\<lparr>timer_mtx := True\<rparr>)])
   | Ti_Loop \<Rightarrow>
       [(if timer_stop s \<and> heap s = [] then Ti_Return else if heap s = [] then Ti_Test else Ti_Top, s)]
   | Ti_Test \<Rightarrow> [(if timer_stop s \<or> heap s \<noteq> [] then Ti_Loop else Ti_Wait, s)]
   | Ti_Wait \<Rightarrow> [(Ti_Blocked, s\<lparr>timer_mtx := False, timer_waits := True\<rparr>)]
   | Ti_Blocked \<Rightarrow>
       (if timer_waits s then if spurious then [(Ti_Relock, s\<lparr>timer_waits := False\<rparr>)] else []
        else [(Ti_Relock, s)])
   | Ti_Relock \<Rightarrow> (if timer_mtx s then [] else [(Ti_Retest, s\<lparr>timer_mtx := True\<rparr>)])
   | Ti_Retest \<Rightarrow> [(if timer_stop s \<or> heap s \<noteq> [] then Ti_Loop else Ti_Wait, s)]
   | Ti_Top \<Rightarrow>
       (let s' = read_clock elapsed s in
        map (\<lambda>e. if now s' < fst e then (Ti_Wait_Until (fst e), s')
                 else (Ti_Unlock (snd e), s'\<lparr>heap := remove1 e (heap s')\<rparr>)) (tops (heap s)))
   | Ti_Wait_Until when \<Rightarrow> [(Ti_Timed when, s\<lparr>timer_mtx := False, timer_waits := True\<rparr>)]
   | Ti_Timed when \<Rightarrow>
       (if timer_waits s
        then (Ti_Timed_Relock, s\<lparr>timer_waits := False, now := max (now s) when\<rparr>)
          # (if spurious then [(Ti_Timed_Relock, s\<lparr>timer_waits := False\<rparr>)] else [])
        else [(Ti_Timed_Relock, s)])
   | Ti_Timed_Relock \<Rightarrow> (if timer_mtx s then [] else [(Ti_Loop, s\<lparr>timer_mtx := True\<rparr>)])
   | Ti_Unlock h \<Rightarrow> [(Ti_Resume h, s\<lparr>timer_mtx := False, resumed := resumed s @ [h]\<rparr>)]
   | Ti_Resume h \<Rightarrow>
       [(Ti_Final h, (touch h s)\<lparr>results := (results s)[h := map_option (after_await body) (results s ! h)]\<rparr>)]
   | Ti_Final h \<Rightarrow> [(Ti_Continue h, (touch h s)\<lparr>done_flags := (done_flags s)[h := True]\<rparr>)]
   | Ti_Continue h \<Rightarrow> [(Ti_Lock_Again, touch h s)]
   | Ti_Lock_Again \<Rightarrow> (if timer_mtx s then [] else [(Ti_Loop, s\<lparr>timer_mtx := True\<rparr>)])
   | Ti_Return \<Rightarrow> [(Ti_Over, s\<lparr>timer_mtx := False\<rparr>)]
   | _ \<Rightarrow> [])"

definition coro_step :: "bool \<Rightarrow> (nat \<Rightarrow> nat) \<Rightarrow> 'r body \<Rightarrow> nat \<Rightarrow> (coro_pc, 'r coro) stepper" where
  "coro_step spurious elapsed body n i ts s =
     (if i = 0 then main_coro_step elapsed body n ts s (ts ! 0) else timer_step spurious elapsed body s (ts ! 1))"

definition coro_start :: "nat \<Rightarrow> (coro_pc, 'r coro) conf" where
  "coro_start n = ([Co_Create 0, Ti_Start], coro_ctor n)"

section \<open>The coroutines of the benchmarks\<close>

text \<open>\<open>result += i * i\<close> for \<open>i\<close> from \<open>lo\<close> up to \<open>hi - 1\<close>.\<close>

definition square_loop :: "nat \<Rightarrow> nat \<Rightarrow> int option \<Rightarrow> int option" where
  "square_loop lo hi result = foldl (\<lambda>r i. add_to r (mul_int (int i) (int i))) result [lo..<hi]"

definition async_cpu_task :: "nat \<Rightarrow> int option body" where
  "async_cpu_task work_size = \<lparr>before_await = square_loop 0 (work_size div 2) (Some 0), awaiting = Yield_Awaiter,
     after_await = square_loop (work_size div 2) work_size\<rparr>"

definition async_io_task :: "int \<Rightarrow> unit body" where
  "async_io_task duration = \<lparr>before_await = (), awaiting = Io_Awaiter duration, after_await = id\<rparr>"

definition async_mixed_task :: "nat \<Rightarrow> int \<Rightarrow> int option body" where
  "async_mixed_task work_size io_duration = \<lparr>before_await = square_loop 0 (work_size div 2) (Some 0),
     awaiting = Io_Awaiter io_duration, after_await = square_loop (work_size div 2) work_size\<rparr>"

end
