(* ===== verification/Coroutine_Runs.thy ===== *)
theory Coroutine_Runs
  imports Coroutines Tasks
begin

text \<open>
  Every run of an iteration of the coroutine benchmarks ends, with every coroutine resumed and
  finished once; but the final awaiter of a coroutine can read its frame after the main thread
  has destroyed it.
\<close>

section \<open>Where the threads are\<close>

fun is_timer :: "coro_pc \<Rightarrow> bool" where
  "is_timer Ti_Start = True" | "is_timer Ti_Loop = True" | "is_timer Ti_Test = True" | "is_timer Ti_Wait = True"
| "is_timer Ti_Blocked = True" | "is_timer Ti_Relock = True" | "is_timer Ti_Retest = True" | "is_timer Ti_Top = True"
| "is_timer (Ti_Wait_Until w) = True" | "is_timer (Ti_Timed w) = True" | "is_timer Ti_Timed_Relock = True"
| "is_timer (Ti_Unlock h) = True" | "is_timer (Ti_Resume h) = True" | "is_timer (Ti_Final h) = True"
| "is_timer (Ti_Continue h) = True" | "is_timer Ti_Lock_Again = True" | "is_timer Ti_Return = True"
| "is_timer Ti_Over = True"
| "is_timer pc = False"

text \<open>The coroutines that the main thread has created, and those it has destroyed.\<close>

fun created :: "nat \<Rightarrow> coro_pc \<Rightarrow> nat" where
  "created n (Co_Create i) = i"
| "created n (Co_Run i) = Suc i"
| "created n (Co_Clock i) = Suc i"
| "created n (Co_Lock i w) = Suc i"
| "created n (Co_Push i w) = Suc i"
| "created n (Co_Unlock i) = Suc i"
| "created n (Co_Notify i) = Suc i"
| "created n (Co_Final i) = Suc i"
| "created n (Co_Continue i) = Suc i"
| "created n pc = n"

fun destroyed :: "nat \<Rightarrow> coro_pc \<Rightarrow> nat" where
  "destroyed n (Co_Destroy k) = k"
| "destroyed n Co_Stop_Lock = n" | "destroyed n Co_Stop_Set = n" | "destroyed n Co_Stop_Unlock = n"
| "destroyed n Co_Stop_Notify = n" | "destroyed n Co_Join = n" | "destroyed n Co_Over = n"
| "destroyed n pc = 0"

text \<open>The coroutine that a thread has in hand: not yet scheduled, or taken from the heap, and not finished.\<close>

fun main_has :: "coro_pc \<Rightarrow> nat option" where
  "main_has (Co_Run i) = Some i"
| "main_has (Co_Clock i) = Some i"
| "main_has (Co_Lock i w) = Some i"
| "main_has (Co_Push i w) = Some i"
| "main_has (Co_Final i) = Some i"
| "main_has pc = None"

fun timer_has :: "coro_pc \<Rightarrow> nat option" where
  "timer_has (Ti_Unlock h) = Some h"
| "timer_has (Ti_Resume h) = Some h"
| "timer_has (Ti_Final h) = Some h"
| "timer_has pc = None"

fun main_holds :: "coro_pc \<Rightarrow> nat" where
  "main_holds (Co_Push i w) = 1" | "main_holds (Co_Unlock i) = 1"
| "main_holds Co_Stop_Set = 1" | "main_holds Co_Stop_Unlock = 1"
| "main_holds pc = 0"

fun timer_holds :: "coro_pc \<Rightarrow> nat" where
  "timer_holds Ti_Loop = 1" | "timer_holds Ti_Test = 1" | "timer_holds Ti_Wait = 1" | "timer_holds Ti_Retest = 1"
| "timer_holds Ti_Top = 1" | "timer_holds (Ti_Wait_Until w) = 1" | "timer_holds (Ti_Unlock h) = 1"
| "timer_holds Ti_Return = 1"
| "timer_holds pc = 0"

fun notifying :: "coro_pc \<Rightarrow> bool" where
  "notifying (Co_Unlock i) = True" | "notifying (Co_Notify i) = True"
| "notifying Co_Stop_Unlock = True" | "notifying Co_Stop_Notify = True"
| "notifying pc = False"

fun stopped :: "coro_pc \<Rightarrow> bool" where
  "stopped Co_Stop_Unlock = True" | "stopped Co_Stop_Notify = True" | "stopped Co_Join = True"
| "stopped Co_Over = True"
| "stopped pc = False"

fun polled :: "coro_pc \<Rightarrow> bool" where
  "polled (Co_Destroy k) = True" | "polled Co_Stop_Lock = True" | "polled Co_Stop_Set = True"
| "polled Co_Stop_Unlock = True" | "polled Co_Stop_Notify = True" | "polled Co_Join = True" | "polled Co_Over = True"
| "polled pc = False"

fun main_bound :: "nat \<Rightarrow> awaiter \<Rightarrow> coro_pc \<Rightarrow> bool" where
  "main_bound n a (Co_Create i) = (i \<le> n)"
| "main_bound n a (Co_Run i) = (i < n)"
| "main_bound n a (Co_Clock i) = (i < n \<and> \<not> await_ready a)"
| "main_bound n a (Co_Lock i w) = (i < n \<and> \<not> await_ready a)"
| "main_bound n a (Co_Push i w) = (i < n \<and> \<not> await_ready a)"
| "main_bound n a (Co_Unlock i) = (i < n \<and> \<not> await_ready a)"
| "main_bound n a (Co_Notify i) = (i < n \<and> \<not> await_ready a)"
| "main_bound n a (Co_Final i) = (i < n \<and> await_ready a)"
| "main_bound n a (Co_Continue i) = (i < n \<and> await_ready a)"
| "main_bound n a (Co_Destroy k) = (k \<le> n)"
| "main_bound n a pc = True"

section \<open>The invariant\<close>

definition threads_ok :: "nat \<Rightarrow> awaiter \<Rightarrow> coro_pc \<Rightarrow> coro_pc \<Rightarrow> 'r coro \<Rightarrow> bool" where
  "threads_ok n a m t s \<longleftrightarrow> \<not> is_timer m \<and> is_timer t \<and> main_bound n a m \<and>
     main_holds m + timer_holds t = of_bool (timer_mtx s) \<and>
     (timer_waits s \<longrightarrow> t = Ti_Blocked \<or> (\<exists>w. t = Ti_Timed w)) \<and>
     (timer_waits s \<and> t = Ti_Blocked \<longrightarrow> heap s = [] \<and> \<not> timer_stop s \<or> notifying m) \<and>
     (t = Ti_Test \<or> t = Ti_Wait \<longrightarrow> heap s = [] \<and> \<not> timer_stop s) \<and>
     (t = Ti_Top \<longrightarrow> heap s \<noteq> []) \<and>
     (t = Ti_Return \<or> t = Ti_Over \<longrightarrow> heap s = [] \<and> timer_stop s) \<and>
     timer_stop s = stopped m"

text \<open>Every coroutine created is in hand, or in the heap, or finished.\<close>

definition slot :: "coro_pc \<Rightarrow> coro_pc \<Rightarrow> 'r coro \<Rightarrow> nat \<Rightarrow> nat" where
  "slot m t s h = of_bool (main_has m = Some h) + count_list (map snd (heap s)) h + of_bool (timer_has t = Some h)
     + of_bool (done_flags s ! h)"

definition slots_ok :: "nat \<Rightarrow> coro_pc \<Rightarrow> coro_pc \<Rightarrow> 'r coro \<Rightarrow> bool" where
  "slots_ok n m t s \<longleftrightarrow> length (done_flags s) = n \<and>
     (\<forall>h < n. slot m t s h = of_bool (h < created n m)) \<and>
     list_all (\<lambda>e. snd e < n) (heap s) \<and> (\<forall>h. timer_has t = Some h \<longrightarrow> h < n) \<and>
     (polled m \<longrightarrow> list_all id (done_flags s))"

definition frames_ok :: "nat \<Rightarrow> coro_pc \<Rightarrow> 'r coro \<Rightarrow> bool" where
  "frames_ok n m s \<longleftrightarrow> length (frames s) = n \<and>
     (\<forall>h < n. frames s ! h = (if h < destroyed n m then Destroyed else if h < created n m then Live else Absent))"

definition results_ok :: "'r body \<Rightarrow> nat \<Rightarrow> coro_pc \<Rightarrow> coro_pc \<Rightarrow> 'r coro \<Rightarrow> bool" where
  "results_ok body n m t s \<longleftrightarrow> length (results s) = n \<and>
     (\<forall>h < n. results s ! h =
        (if done_flags s ! h \<or> t = Ti_Final h \<or> m = Co_Final h then Some (after_await body (before_await body))
         else if h < created n m \<and> m \<noteq> Co_Run h then Some (before_await body) else None))"

definition resumed_ok :: "'r body \<Rightarrow> nat \<Rightarrow> coro_pc \<Rightarrow> 'r coro \<Rightarrow> bool" where
  "resumed_ok body n t s \<longleftrightarrow> set (resumed s) \<subseteq> {..<n} \<and>
     (if await_ready (awaiting body) then resumed s = [] \<and> heap s = [] \<and> timer_has t = None
      else \<forall>h < n. count_list (resumed s) h = of_bool (done_flags s ! h) + of_bool (t = Ti_Resume h \<or> t = Ti_Final h))"

text \<open>A timed wait is for the time of an entry of the heap.\<close>

definition timed_ok :: "coro_pc \<Rightarrow> 'r coro \<Rightarrow> bool" where
  "timed_ok t s \<longleftrightarrow> (case t of Ti_Wait_Until w \<Rightarrow> w \<in> fst ` set (heap s) | Ti_Timed w \<Rightarrow> w \<in> fst ` set (heap s) | _ \<Rightarrow> True)"

definition coro_inv :: "'r body \<Rightarrow> nat \<Rightarrow> (coro_pc, 'r coro) conf \<Rightarrow> bool" where
  "coro_inv body n conf = (case conf of (ts, s) \<Rightarrow> \<exists>m t. ts = [m, t] \<and> threads_ok n (awaiting body) m t s
     \<and> slots_ok n m t s \<and> frames_ok n m s \<and> results_ok body n m t s \<and> resumed_ok body n t s \<and> timed_ok t s)"

lemma wait_pass_iff: "wait_pass flags \<longleftrightarrow> list_all id flags"
  by (induction flags) simp_all

lemma touch_simps [simp]:
  "timer_mtx (touch h s) = timer_mtx s" "timer_waits (touch h s) = timer_waits s" "heap (touch h s) = heap s"
  "timer_stop (touch h s) = timer_stop s" "now (touch h s) = now s" "readings (touch h s) = readings s"
  "done_flags (touch h s) = done_flags s" "frames (touch h s) = frames s" "results (touch h s) = results s"
  "resumed (touch h s) = resumed s"
  by (simp_all add: touch_def)

lemma read_clock_simps [simp]:
  "timer_mtx (read_clock e s) = timer_mtx s" "timer_waits (read_clock e s) = timer_waits s"
  "heap (read_clock e s) = heap s" "timer_stop (read_clock e s) = timer_stop s"
  "done_flags (read_clock e s) = done_flags s" "frames (read_clock e s) = frames s"
  "results (read_clock e s) = results s" "resumed (read_clock e s) = resumed s"
  by (simp_all add: read_clock_def)

lemma main_threads_ok:
  assumes "threads_ok n (awaiting body) m t s" "(m', s') \<in> set (main_coro_step elapsed body n ts s m)"
  shows "threads_ok n (awaiting body) m' t s'"
  using assms unfolding threads_ok_def
  by (cases "timer_mtx s"; cases m) (auto simp: main_coro_step_def Let_def split: if_splits)

lemma timer_threads_ok:
  assumes "threads_ok n a m t s" "(t', s') \<in> set (timer_step spurious elapsed body s t)"
  shows "threads_ok n a m t' s'"
  using assms unfolding threads_ok_def
  by (cases "timer_mtx s"; cases t) (auto simp: timer_step_def Let_def split: if_splits)

lemma count_remove1:
  "e \<in> set es \<Longrightarrow> count_list (map snd (remove1 e es)) h + of_bool (snd e = h) = count_list (map snd es) h"
  by (induction es) auto

lemma main_slots_ok:
  assumes "slots_ok n m t s" "main_bound n (awaiting body) m" "(m', s') \<in> set (main_coro_step elapsed body n ts s m)"
  shows "slots_ok n m' t s'"
proof -
  have slot: "slot m t s h = of_bool (h < created n m)" if "h < n" for h
    using assms(1) that by (simp add: slots_ok_def)
  consider (create) i where "m = Co_Create i" "i < n" | (final) i where "m = Co_Final i"
    | (push) i w where "m = Co_Push i w" | (other) "done_flags s' = done_flags s" "heap s' = heap s" "main_has m' = main_has m"
      "created n m' = created n m" "polled m \<or> wait_pass (done_flags s) \<or> \<not> polled m'"
    using assms(2,3) by (cases m) (auto simp: main_coro_step_def Let_def split: if_splits)
  then show ?thesis
  proof cases
    case (create i)
    then have "m' = Co_Run i" "done_flags s' = (done_flags s)[i := False]" "heap s' = heap s"
      using assms(3) by (simp_all add: main_coro_step_def)
    moreover have "slot m' t s' h = of_bool (h < Suc i)" if "h < n" for h
      using slot [OF that] assms(1) calculation create that
      by (cases "h = i") (auto simp: slot_def slots_ok_def less_Suc_eq)
    ultimately show ?thesis using assms(1) create by (simp add: slots_ok_def)
  next
    case (final i)
    then have "m' = Co_Continue i" "done_flags s' = (done_flags s)[i := True]" "heap s' = heap s" "i < n"
      using assms(2,3) by (simp_all add: main_coro_step_def)
    moreover have "slot m' t s' h = slot m t s h" if "h < n" for h
      using slot [OF that] slot [of i] assms(1) calculation final that
      by (cases "h = i"; cases "done_flags s ! i") (simp_all add: slot_def slots_ok_def)
    ultimately show ?thesis using assms(1) final by (simp add: slots_ok_def)
  next
    case (push i w)
    then have "m' = Co_Unlock i" "done_flags s' = done_flags s" "heap s' = heap s @ [(w, i)]" "i < n"
      using assms(2,3) by (simp_all add: main_coro_step_def)
    moreover have "slot m' t s' h = slot m t s h" for h using calculation push by (simp add: slot_def)
    ultimately show ?thesis using assms(1) push by (simp add: slots_ok_def)
  next
    case other
    then have "slot m' t s' h = slot m t s h" for h by (simp add: slot_def)
    then show ?thesis using assms(1) other by (auto simp: slots_ok_def wait_pass_iff)
  qed
qed

lemma timer_slots_ok:
  assumes "slots_ok n m t s" "(t', s') \<in> set (timer_step spurious elapsed body s t)"
  shows "slots_ok n m t' s'"
proof -
  consider (final) h where "t = Ti_Final h" | (top) e where "t = Ti_Top" "e \<in> set (heap s)" "t' = Ti_Unlock (snd e)"
      "heap s' = remove1 e (heap s)" "done_flags s' = done_flags s"
    | (other) "done_flags s' = done_flags s" "heap s' = heap s" "timer_has t' = timer_has t"
    using assms(2) by (cases t) (auto simp: timer_step_def Let_def tops_def split: if_splits)
  then show ?thesis
  proof cases
    case (final h)
    then have "t' = Ti_Continue h" "done_flags s' = (done_flags s)[h := True]" "heap s' = heap s"
      using assms(2) by (simp_all add: timer_step_def)
    moreover have "h < n" using assms(1) final by (simp add: slots_ok_def)
    moreover have "slot m t' s' h' = slot m t s h'" if "h' < n" for h'
      using assms(1) calculation final that
      by (cases "h' = h"; cases "done_flags s ! h"; cases "h < created n m") (auto simp: slot_def slots_ok_def)
    ultimately show ?thesis using assms(1) final by (auto simp: slots_ok_def list_all_length nth_list_update)
  next
    case (top e)
    then have "list_all (\<lambda>e. snd e < n) (remove1 e (heap s))" "snd e < n"
      using assms(1) by (auto simp: slots_ok_def list_all_iff dest: notin_set_remove1)
    moreover have "slot m t' s' h' = slot m t s h'" for h'
      using count_remove1 [OF top(2), of h'] top by (simp add: slot_def)
    ultimately show ?thesis using assms(1) top by (simp add: slots_ok_def)
  next
    case other
    then show ?thesis using assms(1) by (simp add: slots_ok_def slot_def)
  qed
qed

lemma main_frames_ok:
  assumes "frames_ok n m s" "main_bound n (awaiting body) m" "(m', s') \<in> set (main_coro_step elapsed body n ts s m)"
  shows "frames_ok n m' s'"
proof -
  consider (create) i where "m = Co_Create i" "i < n" | (destroy) k where "m = Co_Destroy k" "k < n"
    | (other) "frames s' = frames s" "created n m' = created n m" "destroyed n m' = destroyed n m"
    using assms(2,3) by (cases m) (auto simp: main_coro_step_def Let_def split: if_splits)
  then show ?thesis
  proof cases
    case (create i)
    then have "m' = Co_Run i" "frames s' = (frames s)[i := Live]" using assms(3) by (simp_all add: main_coro_step_def)
    then show ?thesis using assms(1) create by (simp add: frames_ok_def nth_list_update less_Suc_eq)
  next
    case (destroy k)
    then have "m' = Co_Destroy (Suc k)" "frames s' = (frames s)[k := Destroyed]"
      using assms(3) by (simp_all add: main_coro_step_def)
    then show ?thesis using assms(1) destroy by (simp add: frames_ok_def nth_list_update less_Suc_eq)
  next
    case other
    then show ?thesis using assms(1) by (simp add: frames_ok_def)
  qed
qed

lemma timer_frames_ok:
  assumes "frames_ok n m s" "(t', s') \<in> set (timer_step spurious elapsed body s t)"
  shows "frames_ok n m s'"
proof -
  have "frames s' = frames s"
    using assms(2) by (cases t) (auto simp: timer_step_def Let_def split: if_splits)
  then show ?thesis using assms(1) by (simp add: frames_ok_def)
qed

lemma slot_in_hand:
  assumes "slot m t s h = of_bool b" "timer_has t = Some h"
  shows "\<not> done_flags s ! h \<and> main_has m \<noteq> Some h \<and> h \<notin> snd ` set (heap s) \<and> b"
proof -
  have "of_bool (main_has m = Some h) + count_list (map snd (heap s)) h + of_bool (done_flags s ! h) + 1 = (of_bool b :: nat)"
    using assms by (simp add: slot_def)
  then show ?thesis by (cases b) (auto simp: count_list_0_iff)
qed

lemma main_results_ok:
  assumes "results_ok body n m t s" "slots_ok n m t s" "main_bound n (awaiting body) m" "is_timer t"
    "(m', s') \<in> set (main_coro_step elapsed body n ts s m)"
  shows "results_ok body n m' t s'"
proof -
  have slot: "slot m t s h = of_bool (h < created n m)" if "h < n" for h
    using assms(2) that by (simp add: slots_ok_def)
  consider (create) i where "m = Co_Create i" "i < n" | (run) i where "m = Co_Run i" | (final) i where "m = Co_Final i"
    | (other) "results s' = results s" "created n m' = created n m" "done_flags s' = done_flags s"
      "\<And>h. m \<noteq> Co_Run h \<and> m' \<noteq> Co_Run h \<and> m \<noteq> Co_Final h \<and> m' \<noteq> Co_Final h"
    using assms(3,5) by (cases m) (auto simp: main_coro_step_def Let_def split: if_splits)
  then show ?thesis
  proof cases
    case (create i)
    then have "m' = Co_Run i" "results s' = results s" "done_flags s' = (done_flags s)[i := False]"
      using assms(5) by (simp_all add: main_coro_step_def)
    then show ?thesis using assms(1,2) create slot [of i]
      by (auto simp: results_ok_def slots_ok_def slot_def nth_list_update less_Suc_eq)
  next
    case (run i)
    then have i: "i < n" "\<not> done_flags s ! i" "t \<noteq> Ti_Final i"
      using assms(3) slot [of i] by (auto simp: slot_def)
    have "length (results s) = n" using assms(1) by (simp add: results_ok_def)
    then have "done_flags s' = done_flags s" "m' = (if await_ready (awaiting body) then Co_Final i else Co_Clock i)"
      "results s' = (results s)[i := Some (if await_ready (awaiting body)
         then after_await body (before_await body) else before_await body)]"
      using assms(5) run i(1) by (cases "await_ready (awaiting body)"; simp add: main_coro_step_def Let_def)+
    then show ?thesis using assms(1) run i
      by (cases "await_ready (awaiting body)") (simp_all add: results_ok_def nth_list_update)
  next
    case (final i)
    then have "m' = Co_Continue i" "results s' = results s" "done_flags s' = (done_flags s)[i := True]" "i < n"
      using assms(3,5) by (simp_all add: main_coro_step_def)
    then show ?thesis using assms(1,2) final by (simp add: results_ok_def slots_ok_def nth_list_update)
  next
    case other
    then show ?thesis using assms(1) by (simp add: results_ok_def)
  qed
qed

lemma timer_results_ok:
  assumes "results_ok body n m t s" "slots_ok n m t s" "\<not> is_timer m" "(t', s') \<in> set (timer_step spurious elapsed body s t)"
  shows "results_ok body n m t' s'"
proof -
  have slot: "slot m t s h = of_bool (h < created n m)" if "h < n" for h
    using assms(2) that by (simp add: slots_ok_def)
  consider (resume) h where "t = Ti_Resume h" | (final) h where "t = Ti_Final h"
    | (other) "results s' = results s" "done_flags s' = done_flags s" "\<And>h. t \<noteq> Ti_Final h \<and> t' \<noteq> Ti_Final h"
    using assms(4) by (cases t) (auto simp: timer_step_def Let_def split: if_splits)
  then show ?thesis
  proof cases
    case (resume h)
    then have "h < n" using assms(2) by (simp add: slots_ok_def)
    then have h: "\<not> done_flags s ! h" "main_has m \<noteq> Some h" "h < created n m"
      using slot_in_hand [of m t s h "h < created n m"] slot [of h] resume by simp_all
    then have "m \<noteq> Co_Run h" "m \<noteq> Co_Final h" by auto
    moreover have "t' = Ti_Final h" "done_flags s' = done_flags s"
      "results s' = (results s)[h := map_option (after_await body) (results s ! h)]"
      using assms(4) resume by (simp_all add: timer_step_def)
    ultimately show ?thesis using assms(1) h \<open>h < n\<close> resume by (simp add: results_ok_def nth_list_update)
  next
    case (final h)
    then have "t' = Ti_Continue h" "results s' = results s" "done_flags s' = (done_flags s)[h := True]" "h < n"
      using assms(2,4) by (simp_all add: timer_step_def slots_ok_def)
    then show ?thesis using assms(1,2) final by (simp add: results_ok_def slots_ok_def nth_list_update)
  next
    case other
    then show ?thesis using assms(1) by (simp add: results_ok_def)
  qed
qed

lemma main_resumed_ok:
  assumes "resumed_ok body n t s" "slots_ok n m t s" "main_bound n (awaiting body) m"
    "(m', s') \<in> set (main_coro_step elapsed body n ts s m)"
  shows "resumed_ok body n t s'"
proof -
  have slot: "slot m t s h = of_bool (h < created n m)" if "h < n" for h
    using assms(2) that by (simp add: slots_ok_def)
  have "resumed s' = resumed s \<and> (await_ready (awaiting body) \<longrightarrow> heap s' = heap s)
      \<and> (\<not> await_ready (awaiting body) \<longrightarrow> (\<forall>h < n. done_flags s' ! h = done_flags s ! h))"
  proof (cases "\<exists>i. m = Co_Create i \<and> i < n")
    case True
    then obtain i where i: "m = Co_Create i" "i < n" by blast
    then have "\<not> done_flags s ! i" using slot [of i] by (simp add: slot_def)
    then show ?thesis using assms(2,4) i by (auto simp: main_coro_step_def slots_ok_def nth_list_update)
  next
    case False
    then show ?thesis
      using assms(3,4) by (cases m) (auto simp: main_coro_step_def Let_def split: if_splits)
  qed
  then show ?thesis using assms(1) by (auto simp: resumed_ok_def)
qed

lemma timer_resumed_ok:
  assumes "resumed_ok body n t s" "slots_ok n m t s" "(t', s') \<in> set (timer_step spurious elapsed body s t)"
  shows "resumed_ok body n t' s'"
proof -
  have slot: "slot m t s h = of_bool (h < created n m)" if "h < n" for h
    using assms(2) that by (simp add: slots_ok_def)
  consider (unlock) h where "t = Ti_Unlock h" | (final) h where "t = Ti_Final h"
    | (top) "t = Ti_Top" | (other) "resumed s' = resumed s" "done_flags s' = done_flags s" "heap s' = heap s"
      "timer_has t' = timer_has t" "\<And>h. (t' = Ti_Resume h \<or> t' = Ti_Final h) = (t = Ti_Resume h \<or> t = Ti_Final h)"
    using assms(3) by (cases t) (auto simp: timer_step_def Let_def split: if_splits)
  then show ?thesis
  proof cases
    case (unlock h)
    then have "h < n" using assms(2) by (simp add: slots_ok_def)
    moreover have "t' = Ti_Resume h" "resumed s' = resumed s @ [h]" "done_flags s' = done_flags s"
      using assms(3) unlock by (simp_all add: timer_step_def)
    ultimately show ?thesis using assms(1) unlock by (auto simp: resumed_ok_def)
  next
    case (final h)
    then have "h < n" using assms(2) by (simp add: slots_ok_def)
    moreover from this have "\<not> done_flags s ! h"
      using slot_in_hand [of m t s h "h < created n m"] slot [of h] final by simp
    moreover have "t' = Ti_Continue h" "resumed s' = resumed s" "done_flags s' = (done_flags s)[h := True]"
      using assms(3) final by (simp_all add: timer_step_def)
    ultimately show ?thesis using assms(1,2) final by (auto simp: resumed_ok_def slots_ok_def nth_list_update)
  next
    case top
    then show ?thesis
      using assms(1,3) by (auto simp: timer_step_def Let_def resumed_ok_def tops_def split: if_splits)
  next
    case other
    then show ?thesis using assms(1) by (simp add: resumed_ok_def)
  qed
qed

lemma main_timed_ok:
  assumes "timed_ok t s" "(m', s') \<in> set (main_coro_step elapsed body n ts s m)"
  shows "timed_ok t s'"
proof -
  have "set (heap s) \<subseteq> set (heap s')"
    using assms(2) by (cases m) (auto simp: main_coro_step_def Let_def split: if_splits)
  then show ?thesis using assms(1) by (auto simp: timed_ok_def split: coro_pc.splits)
qed

lemma first_in: "(a, b) \<in> set es \<Longrightarrow> a \<in> fst ` set es"
  by force

lemma timer_timed_ok:
  assumes "timed_ok t s" "(t', s') \<in> set (timer_step spurious elapsed body s t)"
  shows "timed_ok t' s'"
  using assms by (cases t) (auto simp: timed_ok_def timer_step_def tops_def Let_def intro: first_in split: if_splits)

lemma coro_keeps:
  assumes inv: "coro_inv body n (ts, s)" and i: "i < length ts"
    and st: "(l, s') \<in> set (coro_step spurious elapsed body n i ts s)"
  shows "coro_inv body n (ts[i := l], s')"
proof -
  obtain m t where ts: "ts = [m, t]" and th: "threads_ok n (awaiting body) m t s" and sl: "slots_ok n m t s"
    and fr: "frames_ok n m s" and re: "results_ok body n m t s" and rs: "resumed_ok body n t s" and ti: "timed_ok t s"
    using inv by (auto simp: coro_inv_def)
  have b: "main_bound n (awaiting body) m" "is_timer t" "\<not> is_timer m" using th by (simp_all add: threads_ok_def)
  show ?thesis
  proof (cases "i = 0")
    case True
    then have "(l, s') \<in> set (main_coro_step elapsed body n ts s m)" using st ts by (simp add: coro_step_def)
    note this = main_threads_ok [OF th this] main_slots_ok [OF sl b(1) this] main_frames_ok [OF fr b(1) this]
      main_results_ok [OF re sl b(1,2) this] main_resumed_ok [OF rs sl b(1) this] main_timed_ok [OF ti this]
    then show ?thesis using ts True by (simp add: coro_inv_def)
  next
    case False
    then have "i = 1" "(l, s') \<in> set (timer_step spurious elapsed body s t)" using st ts i by (simp_all add: coro_step_def)
    note this(1) timer_threads_ok [OF th this(2)] timer_slots_ok [OF sl this(2)] timer_frames_ok [OF fr this(2)]
      timer_results_ok [OF re sl b(3) this(2)] timer_resumed_ok [OF rs sl this(2)]
      timer_timed_ok [OF ti this(2)]
    then show ?thesis using ts by (simp add: coro_inv_def)
  qed
qed

lemma coro_start_inv: "coro_inv body n (coro_start n)"
  by (simp add: coro_inv_def coro_start_def coro_ctor_def threads_ok_def slots_ok_def slot_def frames_ok_def results_ok_def
      resumed_ok_def timed_ok_def)

section \<open>How an iteration ends\<close>

definition coro_done :: "'r body \<Rightarrow> nat \<Rightarrow> (coro_pc, 'r coro) conf \<Rightarrow> bool" where
  "coro_done body n conf = (case conf of (ts, s) \<Rightarrow>
     ts = [Co_Over, Ti_Over] \<and> heap s = [] \<and> done_flags s = replicate n True \<and> frames s = replicate n Destroyed
     \<and> results s = replicate n (Some (after_await body (before_await body)))
     \<and> mset (resumed s) = (if await_ready (awaiting body) then {#} else mset [0..<n]))"

lemma tops_nonempty:
  assumes "es \<noteq> []"
  shows "tops es \<noteq> []"
proof -
  have "Min (fst ` set es) \<in> fst ` set es" using assms by (intro Min_in) simp_all
  then obtain e where "e \<in> set es" "fst e = Min (fst ` set es)" by auto
  then have "e \<in> set (tops es)" by (simp add: tops_def list_all_iff)
  then show ?thesis by auto
qed

lemma count_upt: "count_list [0..<n] h = of_bool (h < n)"
  by (induction n) auto

lemma coro_stuck:
  assumes inv: "coro_inv body n (ts, s)"
    and stuck: "\<And>i. i < length ts \<Longrightarrow> coro_step False elapsed body n i ts s = []"
  shows "coro_done body n (ts, s)"
proof -
  obtain m t where ts: "ts = [m, t]" and th: "threads_ok n (awaiting body) m t s" and sl: "slots_ok n m t s"
    and fr: "frames_ok n m s" and re: "results_ok body n m t s" and rs: "resumed_ok body n t s"
    using inv by (auto simp: coro_inv_def)
  have main: "main_coro_step elapsed body n ts s m = []" and timer: "timer_step False elapsed body s t = []"
    using stuck [of 0] stuck [of 1] ts by (simp_all add: coro_step_def)
  have "tops (heap s) \<noteq> []" if "heap s \<noteq> []" using that by (rule tops_nonempty)
  then have t: "t = Ti_Blocked \<and> timer_waits s \<or> t = Ti_Over \<or> timer_mtx s \<and> timer_holds t = 0"
    using timer th by (cases t) (auto simp: timer_step_def threads_ok_def Let_def split: if_splits)
  have m: "m = Co_Poll \<and> \<not> wait_pass (done_flags s) \<or> m = Co_Join \<and> t \<noteq> Ti_Over \<or> m = Co_Over
      \<or> timer_mtx s \<and> main_holds m = 0"
    using main th ts by (cases m) (auto simp: main_coro_step_def threads_ok_def Let_def split: if_splits)
  have free: "\<not> timer_mtx s" using m t th by (auto simp: threads_ok_def)
  have over: "t = Ti_Over \<and> m = Co_Over"
  proof -
    have "m \<noteq> Co_Poll"
    proof
      assume poll: "m = Co_Poll"
      then obtain h where h: "h < n" "\<not> done_flags s ! h"
        using m free sl by (auto simp: wait_pass_iff slots_ok_def list_all_length)
      have "timer_has t = None" using t free by auto
      then have "count_list (map snd (heap s)) h = 1" using sl h poll by (auto simp: slots_ok_def slot_def)
      then have "heap s \<noteq> []" by auto
      moreover have "t \<noteq> Ti_Over" using th poll by (auto simp: threads_ok_def)
      ultimately show False using t free th poll by (auto simp: threads_ok_def)
    qed
    then show ?thesis using m t free th by (auto simp: threads_ok_def)
  qed
  have flags: "done_flags s ! h" if "h < n" for h
    using sl over that by (auto simp: slots_ok_def list_all_length)
  have "mset (resumed s) = (if await_ready (awaiting body) then {#} else mset [0..<n])"
  proof (cases "await_ready (awaiting body)")
    case False
    have "count_list (resumed s) h = count_list [0..<n] h" for h
      using rs False over flags [of h] by (cases "h < n") (auto simp: resumed_ok_def count_upt count_list_0_iff)
    then have "mset (resumed s) = mset [0..<n]" by (intro multiset_eqI) (simp only: count_mset)
    then show ?thesis using False by simp
  qed (use rs in \<open>simp add: resumed_ok_def\<close>)
  moreover have "done_flags s = replicate n True" using sl flags by (intro nth_equalityI) (simp_all add: slots_ok_def)
  moreover have "frames s = replicate n Destroyed" using fr over by (intro nth_equalityI) (simp_all add: frames_ok_def)
  moreover have "results s = replicate n (Some (after_await body (before_await body)))"
    using re flags over by (intro nth_equalityI) (simp_all add: results_ok_def)
  ultimately show ?thesis using over th ts by (simp add: coro_done_def threads_ok_def)
qed

section \<open>Progress\<close>

text \<open>
  The measure.  An entry of the heap stands for one more round of the worker, the push of an entry
  and a notification for the steps they cause.  While nothing in the heap is due, the worker has
  a round of its own left, which ends in the timed wait.
\<close>

definition not_due :: "'r coro \<Rightarrow> bool" where
  "not_due s \<longleftrightarrow> heap s \<noteq> [] \<and> list_all (\<lambda>e. now s < fst e) (heap s)"

fun timer_rank :: "bool \<Rightarrow> nat \<Rightarrow> coro_pc \<Rightarrow> nat" where
  "timer_rank waits u Ti_Start = 8 + u"
| "timer_rank waits u Ti_Loop = 7 + u"
| "timer_rank waits u Ti_Test = 6"
| "timer_rank waits u Ti_Wait = 4"
| "timer_rank waits u Ti_Blocked = (if waits then 3 else 11 + u)"
| "timer_rank waits u Ti_Relock = 10 + u"
| "timer_rank waits u Ti_Retest = 9 + u"
| "timer_rank waits u Ti_Top = 6 + u"
| "timer_rank waits u (Ti_Wait_Until w) = 13"
| "timer_rank waits u (Ti_Timed w) = (if waits then 10 else 10 + u)"
| "timer_rank waits u Ti_Timed_Relock = 9 + u"
| "timer_rank waits u (Ti_Unlock h) = 12 + u"
| "timer_rank waits u (Ti_Resume h) = 11 + u"
| "timer_rank waits u (Ti_Final h) = 10 + u"
| "timer_rank waits u (Ti_Continue h) = 9 + u"
| "timer_rank waits u Ti_Lock_Again = 8 + u"
| "timer_rank waits u Ti_Return = 2"
| "timer_rank waits u pc = 0"

fun main_rank :: "nat \<Rightarrow> coro_pc \<Rightarrow> nat" where
  "main_rank n (Co_Create i) = 60 * (n - i) + n + 62"
| "main_rank n (Co_Run i) = 60 * (n - i) + n + 61"
| "main_rank n (Co_Clock i) = 60 * (n - i) + n + 60"
| "main_rank n (Co_Lock i w) = 60 * (n - i) + n + 59"
| "main_rank n (Co_Push i w) = 60 * (n - i) + n + 58"
| "main_rank n (Co_Unlock i) = 60 * (n - i) + n + 33"
| "main_rank n (Co_Notify i) = 60 * (n - i) + n + 32"
| "main_rank n (Co_Final i) = 60 * (n - i) + n + 60"
| "main_rank n (Co_Continue i) = 60 * (n - i) + n + 59"
| "main_rank n Co_Poll = n + 61"
| "main_rank n (Co_Destroy k) = (n - k) + 60"
| "main_rank n Co_Stop_Lock = 59"
| "main_rank n Co_Stop_Set = 58"
| "main_rank n Co_Stop_Unlock = 57"
| "main_rank n Co_Stop_Notify = 56"
| "main_rank n Co_Join = 5"
| "main_rank n pc = 0"

definition coro_rank :: "nat \<Rightarrow> (coro_pc, 'r coro) conf \<Rightarrow> nat" where
  "coro_rank n conf = (case conf of (ts, s) \<Rightarrow>
     main_rank n (ts ! 0) + timer_rank (timer_waits s) (8 * of_bool (not_due s)) (ts ! 1) + 16 * length (heap s))"

text \<open>What the measure can gain through the fields of the state.\<close>

lemma timer_rank_gain: "u' \<le> 8 \<Longrightarrow> timer_rank waits u' t \<le> timer_rank waits u t + 8"
  by (cases t) auto

lemma timer_rank_woken: "timer_rank False u t \<le> timer_rank waits u t + 8 + u"
  by (cases t) auto

lemma not_due_read_clock: "not_due (read_clock elapsed s) \<Longrightarrow> not_due s"
  by (auto simp: not_due_def read_clock_def list_all_iff)

lemma timer_rank_mono: "u \<le> u' \<Longrightarrow> timer_rank waits u t \<le> timer_rank waits u' t"
  by (cases t) auto

lemma main_rank_less:
  assumes "main_bound n (awaiting body) m" "(m', s') \<in> set (main_coro_step elapsed body n ts s m)"
  shows "main_rank n m' + timer_rank (timer_waits s') (8 * of_bool (not_due s')) t + 16 * length (heap s')
    < main_rank n m + timer_rank (timer_waits s) (8 * of_bool (not_due s)) t + 16 * length (heap s)"
proof -
  consider (clock) i where "m = Co_Clock i" | (push) i w where "m = Co_Push i w" | (notify) i where "m = Co_Notify i"
    | (stop) "m = Co_Stop_Notify"
    | (other) "heap s' = heap s" "timer_waits s' = timer_waits s" "now s' = now s" "main_rank n m' < main_rank n m"
    using assms by (cases m) (auto simp: main_coro_step_def Let_def split: if_splits)
  then show ?thesis
  proof cases
    case (clock i)
    then have "heap s' = heap s" "timer_waits s' = timer_waits s" "main_rank n m' < main_rank n m" "s' = read_clock elapsed s"
      using assms(2) by (auto simp: main_coro_step_def Let_def)
    moreover from this have "timer_rank (timer_waits s) (8 * of_bool (not_due s')) t
        \<le> timer_rank (timer_waits s) (8 * of_bool (not_due s)) t"
      by (intro timer_rank_mono) (auto dest: not_due_read_clock)
    ultimately show ?thesis by simp
  next
    case (push i w)
    then have "length (heap s') = Suc (length (heap s))" "timer_waits s' = timer_waits s" "m' = Co_Unlock i"
      using assms(2) by (simp_all add: main_coro_step_def)
    then show ?thesis
      using push timer_rank_gain [of "8 * of_bool (not_due s')" "timer_waits s" t "8 * of_bool (not_due s)"]
      by (cases "not_due s"; cases "not_due s'") simp_all
  next
    case (notify i)
    then have "heap s' = heap s" "\<not> timer_waits s'" "m' = Co_Create (Suc i)" "i < n" and nd: "not_due s' = not_due s"
      using assms by (simp_all add: main_coro_step_def not_due_def)
    moreover have "60 * (n - i) = 60 * (n - Suc i) + 60" using \<open>i < n\<close> by simp
    ultimately show ?thesis
      using notify timer_rank_woken [of "8 * of_bool (not_due s)" t "timer_waits s"]
      by (cases "not_due s") simp_all
  next
    case stop
    then have "heap s' = heap s" "\<not> timer_waits s'" "m' = Co_Join" and nd: "not_due s' = not_due s"
      using assms by (simp_all add: main_coro_step_def not_due_def)
    then show ?thesis
      using stop timer_rank_woken [of "8 * of_bool (not_due s)" t "timer_waits s"]
      by (cases "not_due s") simp_all
  next
    case other
    then show ?thesis by (simp add: not_due_def)
  qed
qed

lemma timer_rank_less:
  assumes "threads_ok n a m t s" "timed_ok t s" "(t', s') \<in> set (timer_step False elapsed body s t)"
  shows "timer_rank (timer_waits s') (8 * of_bool (not_due s')) t' + 16 * length (heap s')
    < timer_rank (timer_waits s) (8 * of_bool (not_due s)) t + 16 * length (heap s)"
proof -
  consider (top) "t = Ti_Top" | (timed) w where "t = Ti_Timed w"
    | (other) "heap s' = heap s" "now s' = now s"
      "timer_rank (timer_waits s') (8 * of_bool (not_due s)) t' < timer_rank (timer_waits s) (8 * of_bool (not_due s)) t"
    using assms(1,3) by (cases t) (auto simp: timer_step_def threads_ok_def Let_def split: if_splits)
  then show ?thesis
  proof cases
    case top
    then have "\<not> timer_waits s" using assms(1) by (simp add: threads_ok_def)
    consider (wait) e where "e \<in> set (tops (heap s))" "now (read_clock elapsed s) < fst e" "t' = Ti_Wait_Until (fst e)"
        "s' = read_clock elapsed s"
      | (take) e where "e \<in> set (heap s)" "t' = Ti_Unlock (snd e)" "heap s' = remove1 e (heap s)"
      using assms(3) top by (auto simp: timer_step_def Let_def tops_def split: if_splits)
    then show ?thesis
    proof cases
      case (wait e)
      then have "not_due s'" by (auto simp: not_due_def tops_def list_all_iff)
      moreover from this have "not_due s" using wait(4) by (auto dest: not_due_read_clock)
      ultimately show ?thesis using top wait by simp
    next
      case (take e)
      then have "length (heap s) = Suc (length (heap s'))"
        by (simp add: length_remove1) (metis Suc_pred length_pos_if_in_set)
      then show ?thesis using top take by simp
    qed
  next
    case (timed w)
    then have "heap s' = heap s" "t' = Ti_Timed_Relock" and w: "w \<in> fst ` set (heap s)"
      using assms(2,3) by (auto simp: timer_step_def timed_ok_def split: if_splits)
    moreover have "\<not> not_due s'" if "timer_waits s"
    proof -
      have "w \<le> now s'" using assms(3) timed that by (simp add: timer_step_def)
      then show ?thesis using w \<open>heap s' = heap s\<close> by (fastforce simp: not_due_def list_all_iff)
    qed
    moreover have "s' = s" if "\<not> timer_waits s" using assms(3) timed that by (simp add: timer_step_def)
    ultimately show ?thesis using timed by (cases "timer_waits s") simp_all
  next
    case other
    then show ?thesis by (simp add: not_due_def)
  qed
qed

lemma coro_less:
  assumes inv: "coro_inv body n (ts, s)" and i: "i < length ts"
    and st: "(l, s') \<in> set (coro_step False elapsed body n i ts s)"
  shows "coro_rank n (ts[i := l], s') < coro_rank n (ts, s)"
proof -
  obtain m t where ts: "ts = [m, t]" and th: "threads_ok n (awaiting body) m t s" and ti: "timed_ok t s"
    using inv by (auto simp: coro_inv_def)
  have b: "main_bound n (awaiting body) m" using th by (simp add: threads_ok_def)
  show ?thesis
  proof (cases "i = 0")
    case True
    then have "(l, s') \<in> set (main_coro_step elapsed body n ts s m)" using st ts by (simp add: coro_step_def)
    from main_rank_less [OF b this, of t] show ?thesis using ts True by (simp add: coro_rank_def)
  next
    case False
    then have i1: "i = 1" and act: "(l, s') \<in> set (timer_step False elapsed body s t)" using st ts i by (simp_all add: coro_step_def)
    from timer_rank_less [OF th ti act] show ?thesis using ts i1 by (simp add: coro_rank_def)
  qed
qed

lemma coro_live:
  "live_interleaving (coro_step False elapsed body n) (coro_start n) (coro_inv body n) (coro_done body n) (coro_rank n)"
  using coro_start_inv coro_keeps coro_stuck coro_less by (rule live_by_measure)

text \<open>
  Every run of an iteration of a coroutine benchmark ends, whatever the clock and the
  scheduler do: no notification of the timer service is lost, no handle is left in its heap, every
  coroutine has run to its end and its frame is destroyed, and the worker has returned.  The worker
  has resumed each coroutine once, or none where the awaiter was ready at once.
\<close>

lemma coroutines_finish:
  "finishes (coro_step False elapsed body n) (coro_start n) (coro_done body n) (61 * n + 70)"
  by (rule live_interleaving.always_finishes [OF coro_live])
    (simp add: coro_rank_def coro_start_def coro_ctor_def not_due_def)

section \<open>What the worker resumes\<close>

lemma coro_reach: "steps (coro_step spurious elapsed body n) (coro_start n) c \<Longrightarrow> coro_inv body n c"
  by (rule interleaving.reach_inv [OF interleaving.intro]) (rule coro_start_inv coro_keeps; assumption)+

text \<open>
  The coroutine whose flag, frame, result or handle a thread uses in a move from one program counter to
  another: a coroutine is created when the move enters its body, and destroyed when the next one is due.
\<close>

fun handle_used :: "coro_pc \<Rightarrow> coro_pc \<Rightarrow> nat option" where
  "handle_used (Co_Create i) l = (if l = Co_Run i then Some i else None)"
| "handle_used (Co_Destroy k) l = (if l = Co_Destroy (Suc k) then Some k else None)"
| "handle_used (Co_Run i) l = Some i"
| "handle_used (Co_Clock i) l = Some i"
| "handle_used (Co_Lock i w) l = Some i"
| "handle_used (Co_Push i w) l = Some i"
| "handle_used (Co_Final i) l = Some i"
| "handle_used (Co_Continue i) l = Some i"
| "handle_used (Ti_Unlock h) l = Some h"
| "handle_used (Ti_Resume h) l = Some h"
| "handle_used (Ti_Final h) l = Some h"
| "handle_used (Ti_Continue h) l = Some h"
| "handle_used pc l = None"

lemma continued_handle:
  assumes "steps (coro_step spurious elapsed body n) (coro_start n) (ts, s)"
  shows "\<forall>h. ts ! 1 = Ti_Continue h \<longrightarrow> h < n"
proof -
  let ?inv = "\<lambda>c. coro_inv body n c \<and> (\<forall>h. fst c ! 1 = Ti_Continue h \<longrightarrow> h < n)"
  have "?inv (ts[i := l], s')"
    if inv: "?inv (ts, s)" and st: "i < length ts" "(l, s') \<in> set (coro_step spurious elapsed body n i ts s)" for ts s i l s'
  proof -
    obtain m t where ts: "ts = [m, t]" "is_timer t" "\<forall>h. timer_has t = Some h \<longrightarrow> h < n"
      using inv by (auto simp: coro_inv_def threads_ok_def slots_ok_def)
    have "l = Ti_Continue h \<Longrightarrow> h < n" if "i = 1" for h
      using that st ts by (cases t) (auto simp: coro_step_def timer_step_def Let_def split: if_splits)
    then have "\<forall>h. ts[i := l] ! 1 = Ti_Continue h \<longrightarrow> h < n"
      using inv st ts by (cases "i = 1") (auto simp: less_Suc_eq)
    then show ?thesis using coro_keeps [of body n ts s i l s' spurious elapsed] inv st by simp
  qed
  moreover have "?inv (coro_start n)" using coro_start_inv [of body n] by (simp add: coro_start_def)
  ultimately have "interleaving (coro_step spurious elapsed body n) (coro_start n) ?inv"
    by unfold_locales blast+
  from interleaving.reach_inv [OF this assms] show ?thesis by simp
qed

lemma handles_in_range:
  assumes run: "steps (coro_step spurious elapsed body n) (coro_start n) (ts, s)"
    and st: "i < length ts" "(l, s') \<in> set (coro_step spurious elapsed body n i ts s)" "handle_used (ts ! i) l = Some h"
  shows "h < n"
proof -
  obtain m t where ts: "ts = [m, t]" "is_timer t" "\<not> is_timer m" "main_bound n (awaiting body) m" "\<forall>h. timer_has t = Some h \<longrightarrow> h < n"
    using coro_reach [OF run] by (auto simp: coro_inv_def threads_ok_def slots_ok_def)
  show ?thesis
  proof (cases "i = 0")
    case True
    then show ?thesis
      using st ts by (cases m) (auto simp: coro_step_def main_coro_step_def split: if_splits)
  next
    case False
    then have "ts ! i = t" using st(1) ts(1) by (cases i) simp_all
    then show ?thesis
      using st(3) ts continued_handle [OF run] by (cases t) auto
  qed
qed

lemma arrays_in_range:
  assumes "steps (coro_step spurious elapsed body n) (coro_start n) (ts, s)"
  shows "length (done_flags s) = n \<and> length (frames s) = n \<and> length (results s) = n \<and> list_all (\<lambda>e. snd e < n) (heap s)"
  using coro_reach [OF assms] by (auto simp: coro_inv_def slots_ok_def frames_ok_def results_ok_def)

lemma distinct_counts: "(\<And>x. count_list xs x \<le> 1) \<Longrightarrow> distinct xs"
proof (induction xs)
  case (Cons x xs)
  have "count_list xs y \<le> 1" for y using Cons.prems [of y] by (auto split: if_splits)
  moreover have "count_list xs x = 0" using Cons.prems [of x] by simp
  ultimately show ?case using Cons.IH by (simp add: count_list_0_iff)
qed simp

lemma pending_live:
  assumes "coro_inv body n ([m, t], s)" "h < n" "timer_has t = Some h \<or> h \<in> snd ` set (heap s)"
  shows "frames s ! h = Live"
proof -
  have slots: "slots_ok n m t s" "frames_ok n m s" using assms(1) by (simp_all add: coro_inv_def)
  then have slot: "slot m t s h = of_bool (h < created n m)" using assms(2) by (simp add: slots_ok_def)
  have "h \<in> snd ` set (heap s) \<Longrightarrow> count_list (map snd (heap s)) h \<noteq> 0" by (simp add: count_list_0_iff)
  then have "0 < slot m t s h - of_bool (done_flags s ! h)"
    using assms(3) by (auto simp: slot_def)
  then have "\<not> done_flags s ! h" "h < created n m"
    unfolding slot by (cases "done_flags s ! h"; cases "h < created n m"; simp)+
  moreover from this have "\<not> polled m" using slots(1) assms(2) by (auto simp: slots_ok_def list_all_length)
  then have "destroyed n m = 0" by (cases m) simp_all
  ultimately show ?thesis using slots(2) assms(2) by (simp add: frames_ok_def)
qed

text \<open>
  C15. The worker of the timer service resumes every coroutine at most once, and the coroutines that
  are in its heap, and the one that it is resuming or whose done flag it is about to store, have not
  been destroyed.
\<close>

theorem resumes_live:
  assumes "steps (coro_step spurious elapsed body n) (coro_start n) (ts, s)"
  shows "distinct (resumed s) \<and> list_all (\<lambda>e. frames s ! snd e = Live) (heap s)
    \<and> (case ts ! 1 of Ti_Unlock h \<Rightarrow> frames s ! h = Live | Ti_Resume h \<Rightarrow> frames s ! h = Live
        | Ti_Final h \<Rightarrow> frames s ! h = Live | _ \<Rightarrow> True)"
proof -
  have inv: "coro_inv body n (ts, s)" using assms by (rule coro_reach)
  then obtain m t where ts: "ts = [m, t]" and slots: "slots_ok n m t s" and th: "threads_ok n (awaiting body) m t s"
    and re: "resumed_ok body n t s"
    by (auto simp: coro_inv_def)
  have live: "frames s ! h = Live" if "h < n" "timer_has t = Some h \<or> h \<in> snd ` set (heap s)" for h
    using pending_live inv that by (metis ts)
  have bound: "snd e < n" if "e \<in> set (heap s)" for e
    using slots that by (auto simp: slots_ok_def list_all_iff)
  have slot: "slot m t s h \<le> 1" if "h < n" for h using slots that by (simp add: slots_ok_def)
  have "count_list (resumed s) h \<le> 1" for h
  proof (cases "h < n \<and> \<not> await_ready (awaiting body)")
    case True
    then have "count_list (resumed s) h = of_bool (done_flags s ! h) + of_bool (t = Ti_Resume h \<or> t = Ti_Final h)"
      using re by (simp add: resumed_ok_def)
    moreover have "of_bool (done_flags s ! h) + of_bool (timer_has t = Some h) \<le> (1 :: nat)"
      using slot [of h] True by (simp add: slot_def)
    ultimately show ?thesis by (auto split: if_splits)
  next
    case False
    then have "h \<notin> set (resumed s)" using re by (auto simp: resumed_ok_def split: if_splits)
    then show ?thesis by (simp add: count_list_0_iff [symmetric])
  qed
  then have "distinct (resumed s)" by (rule distinct_counts)
  moreover have "list_all (\<lambda>e. frames s ! snd e = Live) (heap s)" using live bound by (simp add: list_all_iff)
  moreover have "frames s ! h = Live" if "timer_has t = Some h" for h
    using live slots that by (simp add: slots_ok_def)
  ultimately show ?thesis unfolding ts by (cases t) simp_all
qed

theorem resumes_live_witness:
  "\<exists>ts s. steps (coro_step False (\<lambda>k. 0) (async_io_task 0) 1) (coro_start 1) (ts, s)
    \<and> distinct (resumed s) \<and> frames s = [Live]"
proof -
  have "exec (coro_step False (\<lambda>k. 0) (async_io_task 0) 1) (coro_start 1) [(0, 0)]
      = Some ([Co_Run 0, Ti_Start], (coro_ctor 1)\<lparr>frames := [Live]\<rparr>)"
    by (simp add: coro_start_def coro_step_def main_coro_step_def coro_ctor_def)
  note st = exec_steps [OF this]
  then have "distinct (resumed ((coro_ctor 1 :: unit coro)\<lparr>frames := [Live]\<rparr>))"
    using resumes_live by blast
  with st show ?thesis by (intro exI conjI) (assumption, simp_all)
qed

section \<open>The final awaiter\<close>

text \<open>The first step of a run that makes a condition true.\<close>

lemma steps_first:
  assumes "steps st a b" "\<not> q a" "q b"
  shows "\<exists>c c'. steps st a c \<and> istep st c c' \<and> \<not> q c \<and> q c'"
  using assms
proof (induction rule: rtranclp_induct)
  case base
  then show ?case by simp
next
  case (step b b')
  show ?case
  proof (cases "q b")
    case True
    then show ?thesis using step.IH step.prems(1) by blast
  next
    case False
    then show ?thesis using step.hyps step.prems(2) by (intro exI [of _ b] exI [of _ b'] conjI)
  qed
qed

text \<open>One step of the main thread, when the worker stays where it is.\<close>

lemma main_moves:
  assumes "steps (coro_step spurious elapsed body n) a ([m, t], s)"
    and "(m', s') \<in> set (main_coro_step elapsed body n [m, t] s m)"
  shows "steps (coro_step spurious elapsed body n) a ([m', t], s')"
proof -
  have "(m', s') \<in> set (coro_step spurious elapsed body n 0 [m, t] s)" using assms(2) by (simp add: coro_step_def)
  then have "istep (coro_step spurious elapsed body n) ([m, t], s) ([m, t][0 := m'], s')" by (intro istepI) simp_all
  with assms(1) show ?thesis by simp
qed

lemma main_destroys:
  assumes "steps (coro_step spurious elapsed body n) a ([Co_Destroy k, t], s)" "k \<le> n"
  shows "\<exists>s'. steps (coro_step spurious elapsed body n) a ([Co_Destroy n, t], s')"
  using assms
proof (induction "n - k" arbitrary: k s)
  case 0
  then show ?case by auto
next
  case (Suc d)
  have "steps (coro_step spurious elapsed body n) a ([Co_Destroy (Suc k), t], s\<lparr>frames := (frames s)[k := Destroyed]\<rparr>)"
    by (rule main_moves [OF Suc.prems(1)]) (use Suc.hyps in \<open>simp add: main_coro_step_def\<close>)
  then show ?case by (rule Suc.hyps(1) [rotated]) (use Suc.hyps in simp_all)
qed

lemma main_polls:
  assumes run: "steps (coro_step spurious elapsed body n) a ([m, t], s)" and "list_all id (done_flags s)"
    and "m = Co_Unlock (n - 1) \<or> m = Co_Notify (n - 1) \<or> m = Co_Create n \<or> m = Co_Poll" "0 < n"
  shows "\<exists>s'. steps (coro_step spurious elapsed body n) a ([Co_Destroy n, t], s')"
proof -
  have poll: ?thesis if "steps (coro_step spurious elapsed body n) a ([Co_Poll, t], s)" "list_all id (done_flags s)" for s
    by (rule main_destroys [OF main_moves [OF that(1)], where k = 0]) (use that(2) in \<open>simp_all add: main_coro_step_def wait_pass_iff\<close>)
  have create: ?thesis if "steps (coro_step spurious elapsed body n) a ([Co_Create n, t], s)" "list_all id (done_flags s)" for s
    by (rule poll [OF main_moves [OF that(1)] that(2)]) (simp add: main_coro_step_def)
  have notify: ?thesis if "steps (coro_step spurious elapsed body n) a ([Co_Notify (n - 1), t], s)" "list_all id (done_flags s)" for s
    by (rule create [OF main_moves [OF that(1)], of "s\<lparr>timer_waits := False\<rparr>"])
      (use that(2) \<open>0 < n\<close> in \<open>simp_all add: main_coro_step_def\<close>)
  have unlock: ?thesis if "steps (coro_step spurious elapsed body n) a ([Co_Unlock (n - 1), t], s)" "list_all id (done_flags s)" for s
    by (rule notify [OF main_moves [OF that(1)], of "s\<lparr>timer_mtx := False\<rparr>"])
      (use that(2) in \<open>simp_all add: main_coro_step_def\<close>)
  show ?thesis using assms(2,3) run poll create notify unlock by blast
qed

text \<open>The moment at which the last done flag has been stored: the worker is about to return \<open>continuation\<close>.\<close>

lemma last_flag:
  assumes "0 < n" "\<not> await_ready (awaiting body)"
  shows "\<exists>m h s. steps (coro_step False elapsed body n) (coro_start n) ([m, Ti_Continue h], s) \<and> h < n
    \<and> list_all id (done_flags s)
    \<and> (m = Co_Unlock (n - 1) \<or> m = Co_Notify (n - 1) \<or> m = Co_Create n \<or> m = Co_Poll)"
proof -
  let ?st = "coro_step False elapsed body n" and ?q = "\<lambda>conf. list_all id (done_flags (snd conf))"
  obtain cf where "steps ?st (coro_start n) cf" "coro_done body n cf"
    using live_interleaving.final_reachable [OF coro_live] by blast
  then have "steps ?st (coro_start n) cf" "?q cf" by (auto simp: coro_done_def list_all_iff)
  moreover have "\<not> ?q (coro_start n)" using assms(1) by (simp add: coro_start_def coro_ctor_def list_all_iff)
  ultimately obtain c c' where c: "steps ?st (coro_start n) c" "istep ?st c c'" "\<not> ?q c" "?q c'"
    using steps_first [of ?st "coro_start n" cf ?q] by blast
  obtain ts s where conf: "c = (ts, s)" by (cases c)
  then have inv: "coro_inv body n (ts, s)" using c(1) coro_reach by blast
  then obtain m t where ts: "ts = [m, t]" and sl: "slots_ok n m t s" and b: "main_bound n (awaiting body) m" "is_timer t" "\<not> is_timer m"
    by (auto simp: coro_inv_def threads_ok_def)
  obtain i l s' where i: "i < length ts" and act: "(l, s') \<in> set (?st i ts s)" and c': "c' = (ts[i := l], s')"
    using c(2) unfolding conf by (rule istepE) simp
  have flag: "list_all id (done_flags s')" "\<not> list_all id (done_flags s)" using c(3,4) c' conf by simp_all
  have "i = 1"
  proof (rule ccontr)
    assume "i \<noteq> 1"
    then have "(l, s') \<in> set (main_coro_step elapsed body n ts s m)" using act i ts by (simp add: coro_step_def)
    then show False
      using flag b assms(2) sl
      by (cases m) (auto simp: main_coro_step_def slots_ok_def Let_def list_all_length nth_list_update split: if_splits)
  qed
  then have "(l, s') \<in> set (timer_step False elapsed body s t)" using act ts by (simp add: coro_step_def)
  with flag obtain h where t: "t = Ti_Final h" and l: "l = Ti_Continue h"
    by (cases t) (auto simp: timer_step_def Let_def split: if_splits)
  have "coro_inv body n ([m, Ti_Continue h], s')"
    using coro_reach rtranclp.rtrancl_into_rtrancl [OF c(1,2)] c' ts \<open>i = 1\<close> l by fastforce
  then have sl': "slots_ok n m (Ti_Continue h) s'" by (simp add: coro_inv_def)
  have "slot m (Ti_Continue h) s' (n - 1) = of_bool (n - 1 < created n m)" "done_flags s' ! (n - 1)"
    using sl' flag(1) assms(1) by (simp_all add: slots_ok_def list_all_length)
  then have "n - 1 < created n m \<and> main_has m \<noteq> Some (n - 1)"
    by (cases "n - 1 < created n m") (auto simp: slot_def split: if_splits)
  moreover have "\<not> polled m" using sl flag(2) by (auto simp: slots_ok_def)
  ultimately have "m = Co_Unlock (n - 1) \<or> m = Co_Notify (n - 1) \<or> m = Co_Create n \<or> m = Co_Poll"
    using b assms by (cases m) auto
  moreover have "h < n" using sl t by (simp add: slots_ok_def)
  moreover have "steps ?st (coro_start n) ([m, Ti_Continue h], s')"
    using rtranclp.rtrancl_into_rtrancl [OF c(1,2)] c' ts \<open>i = 1\<close> l by simp
  ultimately show ?thesis using flag(1) by blast
qed

text \<open>
  C13. A use after free: \<open>final_suspend\<close> stores the done flag before it reads \<open>continuation\<close> from the
  coroutine's frame, and nothing orders that read before the main thread, which has seen the last
  flag, destroys the frames.  Whatever the clock does, every configuration whose coroutines suspend
  has such a run.
\<close>

theorem final_awaiter_races:
  assumes "0 < n" and "\<not> await_ready (awaiting body)"
  shows "\<exists>ts s. steps (coro_step False elapsed body n) (coro_start n) (ts, s) \<and> use_after_free s"
proof -
  obtain m h s where run: "steps (coro_step False elapsed body n) (coro_start n) ([m, Ti_Continue h], s)" and "h < n"
    and m: "list_all id (done_flags s)" "m = Co_Unlock (n - 1) \<or> m = Co_Notify (n - 1) \<or> m = Co_Create n \<or> m = Co_Poll"
    using last_flag [OF assms] by blast
  obtain s' where s': "steps (coro_step False elapsed body n) (coro_start n) ([Co_Destroy n, Ti_Continue h], s')"
    using main_polls [OF run m assms(1)] by blast
  have "frames s' ! h = Destroyed" using coro_reach [OF s'] \<open>h < n\<close> by (simp add: coro_inv_def frames_ok_def)
  then have "(Ti_Lock_Again, s'\<lparr>use_after_free := True\<rparr>) \<in> set (coro_step False elapsed body n 1 [Co_Destroy n, Ti_Continue h] s')"
    by (simp add: coro_step_def timer_step_def touch_def)
  then have "istep (coro_step False elapsed body n) ([Co_Destroy n, Ti_Continue h], s')
      ([Co_Destroy n, Ti_Continue h][1 := Ti_Lock_Again], s'\<lparr>use_after_free := True\<rparr>)"
    by (intro istepI) simp_all
  with s' have "steps (coro_step False elapsed body n) (coro_start n)
      ([Co_Destroy n, Ti_Continue h][1 := Ti_Lock_Again], s'\<lparr>use_after_free := True\<rparr>)"
    by (rule rtranclp.rtrancl_into_rtrancl)
  then show ?thesis by (intro exI conjI) (assumption, simp)
qed

theorem final_awaiter_races_witness:
  "\<exists>ts s. steps (coro_step False (\<lambda>k. k) (async_io_task 1000) 16) (coro_start 16) (ts, s) \<and> use_after_free s"
  using final_awaiter_races [of 16 "async_io_task 1000" "\<lambda>k. k"] by (simp add: async_io_task_def)

end
