(* ===== verification/Coroutine_Bench.thy ===== *)
theory Coroutine_Bench
  imports Coroutine_Runs Async_Bench
begin

text \<open>
  The benchmarks of src/bench\_coroutines.cpp: the workloads of the coroutines, the values that they
  compute, and the comparison with one thread per task.
\<close>

section \<open>The workloads\<close>

definition coroutines_cpu_bound_step :: "(nat \<Rightarrow> nat) \<Rightarrow> nat \<Rightarrow> (coro_pc, int option coro) stepper" where
  "coroutines_cpu_bound_step elapsed = coro_step False elapsed (async_cpu_task 10000)"

definition coroutines_io_bound_step :: "(nat \<Rightarrow> nat) \<Rightarrow> nat \<Rightarrow> (coro_pc, unit coro) stepper" where
  "coroutines_io_bound_step elapsed = coro_step False elapsed (async_io_task 1000)"

definition coroutines_high_task_count_step :: "(nat \<Rightarrow> nat) \<Rightarrow> nat \<Rightarrow> (coro_pc, int option coro) stepper" where
  "coroutines_high_task_count_step elapsed = coro_step False elapsed (async_cpu_task 1000)"

definition coroutines_mixed_step :: "(nat \<Rightarrow> nat) \<Rightarrow> nat \<Rightarrow> (coro_pc, int option coro) stepper" where
  "coroutines_mixed_step elapsed = coro_step False elapsed (async_mixed_task 5000 500)"

text \<open>One thread per task; the result of each is dropped, here it is kept in the list of results.\<close>

definition threads_cpu_bound_step :: "nat \<Rightarrow> (script_pc \<times> unit option, unit \<times> int option option list) stepper" where
  "threads_cpu_bound_step = async_step (\<lambda>i. square_loop 0 10000 (Some 0))"

section \<open>The sums\<close>

lemma square_loop_split:
  assumes "lo \<le> mid" "mid \<le> hi"
  shows "square_loop mid hi (square_loop lo mid r) = square_loop lo hi r"
proof -
  have "[lo..<hi] = [lo..<mid] @ [mid..<hi]" using assms upt_add_eq_append [of lo mid "hi - mid"] by simp
  then show ?thesis by (simp add: square_loop_def)
qed

lemma square_loop_Suc: "square_loop 0 (Suc n) r = add_to (square_loop 0 n r) (mul_int (int n) (int n))"
  by (simp add: square_loop_def)

text \<open>The sum of squares is defined up to 1861 terms.\<close>

lemma square_loop_value: "square_loop 0 n (Some 0) = (if n \<le> 1861 then Some (squares n) else None)"
proof (induction n)
  case 0
  then show ?case by (simp add: square_loop_def)
next
  case (Suc n)
  consider "Suc n \<le> 1861" | "n = 1861" | "1861 < n" by linarith
  then show ?case
  proof cases
    case 1
    have "0 \<le> squares n" "squares (Suc n) \<le> 2147483647"
      using squares_mono [of 0 n] squares_mono [OF 1] squares_1861 by simp_all
    moreover have "0 \<le> int n * int n" by simp
    ultimately have "fits (int n * int n)" "fits (squares n + int n * int n)"
      by (intro fits_between; simp)+
    then show ?thesis using Suc 1 by (simp add: square_loop_Suc)
  next
    case 2
    moreover have "\<not> fits (squares 1861 + int 1861 * int 1861)" "fits (int 1861 * int 1861)"
      by (simp_all add: fits_def squares_1861)
    ultimately show ?thesis using Suc square_loop_Suc [of n "Some 0"] by simp
  next
    case 3
    then show ?thesis using Suc by (simp add: square_loop_Suc)
  qed
qed

lemma coroutine_sum:
  "after_await (async_cpu_task w) (before_await (async_cpu_task w)) = square_loop 0 w (Some 0)"
  "after_await (async_mixed_task w d) (before_await (async_mixed_task w d)) = square_loop 0 w (Some 0)"
  by (simp_all add: async_cpu_task_def async_mixed_task_def square_loop_split)

text \<open>
  What a coroutine computes, around its suspension, is the sum of the squares below its work size
  when that is at most 1861, and is undefined (signed overflow) beyond: defined for the 1000 of
  Coroutines\_HighTaskCount, not for the 10000 of Coroutines\_CPUBound and Threads\_CPUBound nor the
  5000 of Coroutines\_Mixed.
\<close>

theorem coroutine_values:
  "after_await (async_cpu_task w) (before_await (async_cpu_task w))
     = (if w \<le> 1861 then Some (int w * (int w - 1) * (2 * int w - 1) div 6) else None)
   \<and> after_await (async_mixed_task w d) (before_await (async_mixed_task w d))
     = after_await (async_cpu_task w) (before_await (async_cpu_task w))"
proof -
  have "squares w = int w * (int w - 1) * (2 * int w - 1) div 6"
    using squares_closed [of w] by (metis nonzero_mult_div_cancel_left zero_neq_numeral)
  then show ?thesis by (simp add: coroutine_sum square_loop_value)
qed

text \<open>
  C12. The iterations of the coroutine benchmarks end in every run without spurious wake-ups,
  whatever the clock and the scheduler do: no notification of the timer service is lost, every coroutine is resumed once and
  runs to its end, all frames are destroyed and the worker of the service returns.  The results are
  the sums of squares in Coroutines\_HighTaskCount, and undefined in every task of
  Coroutines\_CPUBound, Coroutines\_Mixed and Threads\_CPUBound.
\<close>

theorem coroutine_benchmarks_end:
  "finishes (coroutines_high_task_count_step elapsed n) (coro_start n)
      (\<lambda>conf. coro_done (async_cpu_task 1000) n conf \<and> results (snd conf) = replicate n (Some (Some 332833500))) (61 * n + 70)
    \<and> finishes (coroutines_io_bound_step elapsed n) (coro_start n) (coro_done (async_io_task 1000) n) (61 * n + 70)
    \<and> finishes (coroutines_cpu_bound_step elapsed n) (coro_start n)
      (\<lambda>conf. coro_done (async_cpu_task 10000) n conf \<and> results (snd conf) = replicate n (Some None)) (61 * n + 70)
    \<and> finishes (coroutines_mixed_step elapsed n) (coro_start n)
      (\<lambda>conf. coro_done (async_mixed_task 5000 500) n conf \<and> results (snd conf) = replicate n (Some None)) (61 * n + 70)
    \<and> finishes (threads_cpu_bound_step n) (async_start n)
      (\<lambda>(ts, (g, rs)). ts = script_end n \<and> rs = replicate n (Some None)) (n * 6 + 2)"
proof -
  have vals: "after_await (async_cpu_task 1000) (before_await (async_cpu_task 1000)) = Some 332833500"
    "after_await (async_cpu_task 10000) (before_await (async_cpu_task 10000)) = None"
    "after_await (async_mixed_task 5000 500) (before_await (async_mixed_task 5000 500)) = None"
    by (simp_all add: coroutine_sum square_loop_value squares_1000)
  have results: "results (snd conf) = replicate n (Some (after_await body (before_await body)))"
    if "coro_done body n conf" for body :: "int option body" and conf
    using that by (cases conf) (simp add: coro_done_def)
  have coro: "finishes (coro_step False elapsed body n) (coro_start n)
      (\<lambda>conf. coro_done body n conf \<and> results (snd conf) = replicate n (Some v)) (61 * n + 70)"
    if "after_await body (before_await body) = v" for body :: "int option body" and v
    by (rule finishes_mono [OF coroutines_finish]) (use results that in auto)
  have threads: "finishes (threads_cpu_bound_step n) (async_start n)
      (\<lambda>(ts, (g, rs)). ts = script_end n \<and> rs = replicate n (Some None)) (n * 6 + 2)"
    unfolding threads_cpu_bound_step_def
    by (rule finishes_mono [OF async_finishes]) (auto simp: square_loop_value map_replicate_const)
  show ?thesis
    unfolding coroutines_high_task_count_step_def coroutines_cpu_bound_step_def coroutines_mixed_step_def
      coroutines_io_bound_step_def
    by (intro conjI coro vals coroutines_finish threads)
qed

end
