(* ===== verification/Coroutine_Task.thy ===== *)
theory Coroutine_Task
  imports Prelude
begin

text \<open>
  The class \<open>Task\<close> of src/bench\_coroutines.cpp, the owner of a coroutine frame, in any sequence of
  its operations on any number of objects: construction by a call of a coroutine, move
  construction, move assignment, destruction, \<open>set_done_flag\<close>, \<open>resume\<close> and \<open>done\<close>.  Here the coroutines
  are only resumed through their tasks; the timer service, which resumes their handles, is in
  \<open>Coroutines\<close>.
\<close>

section \<open>Frames and objects\<close>

text \<open>A frame, with what its promise holds; \<open>continuation\<close> stays the no-op coroutine.\<close>

record task_frame =
  live :: bool
  at_end :: bool
  done_flag :: "nat option"

text \<open>
  The \<open>Task\<close> objects that exist with their member \<open>h\<close> (null or a frame), all frames ever allocated,
  the values of the done flags, and whether a destroyed frame has been accessed or destroyed again.
\<close>

record task_state =
  handle_of :: "nat \<rightharpoonup> nat option"
  task_frames :: "task_frame list"
  flag_value :: "nat \<Rightarrow> bool"
  bad_access :: bool

definition task_init :: task_state where
  "task_init = \<lparr>handle_of = Map.empty, task_frames = [], flag_value = (\<lambda>f. False), bad_access = False\<rparr>"

text \<open>An access to a frame, which may write it.\<close>

definition access_frame :: "nat \<Rightarrow> (task_frame \<Rightarrow> task_frame) \<Rightarrow> task_state \<Rightarrow> task_state" where
  "access_frame h upd s =
     (if h < length (task_frames s) \<and> live (task_frames s ! h)
      then s\<lparr>task_frames := (task_frames s)[h := upd (task_frames s ! h)]\<rparr>
      else s\<lparr>bad_access := True\<rparr>)"

definition destroy_frame :: "nat \<Rightarrow> task_state \<Rightarrow> task_state" where
  "destroy_frame h = access_frame h (\<lambda>fr. fr\<lparr>live := False\<rparr>)"

section \<open>The operations\<close>

text \<open>
  The call of a coroutine allocates the frame, whose promise's \<open>get_return_object\<close> makes the task, and
  suspends initially.
\<close>

definition get_return_object :: "nat \<Rightarrow> task_state \<Rightarrow> task_state" where
  "get_return_object x s = s\<lparr>task_frames := task_frames s @ [\<lparr>live = True, at_end = False, done_flag = None\<rparr>],
     handle_of := (handle_of s)(x \<mapsto> Some (length (task_frames s)))\<rparr>"

definition task_destruct :: "nat \<Rightarrow> nat option \<Rightarrow> task_state \<Rightarrow> task_state" where
  "task_destruct x h s = (case h of None \<Rightarrow> s | Some fr \<Rightarrow> destroy_frame fr s)\<lparr>handle_of := (handle_of s)(x := None)\<rparr>"

text \<open>\<open>std::exchange(other.h, {})\<close>, stored in the member of \<open>x\<close>.\<close>

definition exchange_into :: "nat \<Rightarrow> nat \<Rightarrow> nat option \<Rightarrow> task_state \<Rightarrow> task_state" where
  "exchange_into x other old s = s\<lparr>handle_of := (handle_of s)(other \<mapsto> None, x \<mapsto> old)\<rparr>"

definition move_construct :: "nat \<Rightarrow> nat \<Rightarrow> nat option \<Rightarrow> task_state \<Rightarrow> task_state" where
  "move_construct x other old s = exchange_into x other old s"

definition move_assign :: "nat \<Rightarrow> nat option \<Rightarrow> nat \<Rightarrow> nat option \<Rightarrow> task_state \<Rightarrow> task_state" where
  "move_assign x h other old s =
     (if x \<noteq> other
      then exchange_into x other old (case h of None \<Rightarrow> s | Some fr \<Rightarrow> destroy_frame fr s)
      else s)"

definition set_done_flag :: "nat option \<Rightarrow> nat \<Rightarrow> task_state \<Rightarrow> task_state" where
  "set_done_flag h flag s =
     (case h of None \<Rightarrow> s | Some fr \<Rightarrow> access_frame fr (\<lambda>fr. fr\<lparr>done_flag := Some flag\<rparr>) s)"

text \<open>The awaiter of \<open>final_suspend\<close> stores the flag if there is one.\<close>

definition final_await :: "nat \<Rightarrow> task_state \<Rightarrow> task_state" where
  "final_await h s =
     (case done_flag (task_frames s ! h) of
        None \<Rightarrow> access_frame h (\<lambda>fr. fr\<lparr>at_end := True\<rparr>) s
      | Some flag \<Rightarrow> (access_frame h (\<lambda>fr. fr\<lparr>at_end := True\<rparr>) s)\<lparr>flag_value := (flag_value s)(flag := True)\<rparr>)"

text \<open>\<open>done()\<close> reads the frame, and \<open>to_end\<close> tells whether the coroutine suspends finally this time.\<close>

definition task_done :: "nat option \<Rightarrow> task_state \<Rightarrow> bool" where
  "task_done h s = (case h of None \<Rightarrow> True | Some fr \<Rightarrow> at_end (task_frames s ! fr))"

definition task_resume :: "nat option \<Rightarrow> bool \<Rightarrow> task_state \<Rightarrow> task_state" where
  "task_resume h to_end s =
     (case h of None \<Rightarrow> s
      | Some fr \<Rightarrow>
          (let s' = access_frame fr id s in
           if \<not> at_end (task_frames s ! fr) then if to_end then final_await fr s' else s' else s'))"

text \<open>
  A sequence of operations on objects, each named by a number.  An operation on an object that does not
  exist, or the construction of one that does, is not a program (\<open>None\<close>).
\<close>

datatype task_op =
    Call_Coroutine nat
  | Move_Construct nat nat
  | Move_Assign nat nat
  | Set_Done_Flag nat nat
  | Resume_Task nat bool
  | Destruct_Task nat

fun task_op_step :: "task_op \<Rightarrow> task_state \<Rightarrow> task_state option" where
  "task_op_step (Call_Coroutine x) s = (if handle_of s x = None then Some (get_return_object x s) else None)"
| "task_op_step (Move_Construct x other) s =
     (case (handle_of s x, handle_of s other) of (None, Some old) \<Rightarrow> Some (move_construct x other old s) | _ \<Rightarrow> None)"
| "task_op_step (Move_Assign x other) s =
     (case (handle_of s x, handle_of s other) of (Some h, Some old) \<Rightarrow> Some (move_assign x h other old s) | _ \<Rightarrow> None)"
| "task_op_step (Set_Done_Flag x flag) s = map_option (\<lambda>h. set_done_flag h flag s) (handle_of s x)"
| "task_op_step (Resume_Task x to_end) s = map_option (\<lambda>h. task_resume h to_end s) (handle_of s x)"
| "task_op_step (Destruct_Task x) s = map_option (\<lambda>h. task_destruct x h s) (handle_of s x)"

fun task_run :: "task_op list \<Rightarrow> task_state \<Rightarrow> task_state option" where
  "task_run [] s = Some s"
| "task_run (oper # ops) s = Option.bind (task_op_step oper s) (task_run ops)"

section \<open>Ownership\<close>

text \<open>Every handle is that of a live frame, no two objects share one, and every live frame has an owner.\<close>

definition owned :: "task_state \<Rightarrow> bool" where
  "owned s \<longleftrightarrow> \<not> bad_access s
     \<and> (\<forall>x h. handle_of s x = Some (Some h) \<longrightarrow> h < length (task_frames s) \<and> live (task_frames s ! h))
     \<and> (\<forall>x y h. handle_of s x = Some (Some h) \<longrightarrow> handle_of s y = Some (Some h) \<longrightarrow> x = y)
     \<and> (\<forall>h < length (task_frames s). live (task_frames s ! h) \<longrightarrow> (\<exists>x. handle_of s x = Some (Some h)))"

lemma owned_init: "owned task_init"
  by (simp add: owned_def task_init_def)

lemma ownedD:
  assumes "owned s" "handle_of s x = Some (Some h)"
  shows "h < length (task_frames s)" "live (task_frames s ! h)" "\<not> bad_access s"
  using assms by (auto simp: owned_def)

text \<open>An access that leaves the frame alive, and a change of the flags, are not seen.\<close>

lemma owned_access:
  assumes "owned s" "handle_of s x = Some (Some h)" "\<And>fr. live (upd fr) = live fr"
  shows "owned (access_frame h upd s)" "handle_of (access_frame h upd s) = handle_of s"
  using assms ownedD [OF assms(1,2)] by (auto simp: owned_def access_frame_def nth_list_update)

lemma owned_flags: "owned s \<Longrightarrow> owned (s\<lparr>flag_value := v\<rparr>)"
  by (simp add: owned_def)

lemma owned_call: "owned s \<Longrightarrow> handle_of s x = None \<Longrightarrow> owned (get_return_object x s)"
  by (auto simp: owned_def get_return_object_def nth_append less_Suc_eq split: if_splits)
    (metis option.distinct(1))

lemma owned_destroy:
  assumes "owned s" "handle_of s x = Some h" "m = (handle_of s)(x := None) \<or> m = (handle_of s)(x \<mapsto> None)"
  shows "owned ((case h of None \<Rightarrow> s | Some fr \<Rightarrow> destroy_frame fr s)\<lparr>handle_of := m\<rparr>)"
  using assms
  by (cases h) (auto simp: owned_def destroy_frame_def access_frame_def nth_list_update split: if_splits,
      (metis option.distinct(1) option.inject)+)

lemma owned_destruct: "owned s \<Longrightarrow> handle_of s x = Some h \<Longrightarrow> owned (task_destruct x h s)"
  unfolding task_destruct_def by (rule owned_destroy [where x = x]) simp_all

lemma owned_exchange:
  assumes "owned s" "handle_of s other = Some old" "x \<noteq> other" "handle_of s x = None \<or> handle_of s x = Some None"
  shows "owned (exchange_into x other old s)"
  using assms by (auto simp: owned_def exchange_into_def split: if_splits) (metis option.distinct(1) option.inject)+

lemma owned_move_assign:
  assumes "owned s" "handle_of s x = Some h" "handle_of s other = Some old"
  shows "owned (move_assign x h other old s)"
proof (cases "x = other")
  case True
  then show ?thesis using assms(1) by (simp add: move_assign_def)
next
  case False
  let ?s = "(case h of None \<Rightarrow> s | Some fr \<Rightarrow> destroy_frame fr s)\<lparr>handle_of := (handle_of s)(x \<mapsto> None)\<rparr>"
  have "owned ?s" using assms(1,2) by (rule owned_destroy) simp
  then have "owned (exchange_into x other old ?s)" using assms False by (intro owned_exchange) simp_all
  also have "exchange_into x other old ?s = move_assign x h other old s"
    using False assms(2) by (cases h) (auto simp: move_assign_def exchange_into_def destroy_frame_def access_frame_def)
  finally show ?thesis .
qed

lemma owned_flag: "owned s \<Longrightarrow> handle_of s x = Some h \<Longrightarrow> owned (set_done_flag h flag s)"
  by (cases h) (simp_all add: set_done_flag_def owned_access)

lemma owned_final: "owned s \<Longrightarrow> handle_of s x = Some (Some h) \<Longrightarrow> owned (final_await h s)"
  by (cases "done_flag (task_frames s ! h)") (simp_all add: final_await_def owned_access owned_flags)

lemma owned_resume: "owned s \<Longrightarrow> handle_of s x = Some h \<Longrightarrow> owned (task_resume h to_end s)"
  by (cases h) (auto simp: task_resume_def Let_def owned_access intro: owned_final)

lemma task_op_owned: "owned s \<Longrightarrow> task_op_step oper s = Some s' \<Longrightarrow> owned s'"
proof (cases oper)
  case (Move_Construct x other)
  moreover assume "owned s" "task_op_step oper s = Some s'"
  ultimately show ?thesis
    by (cases "x = other") (auto simp: move_construct_def intro: owned_exchange split: option.splits)
qed (auto intro: owned_call owned_move_assign owned_flag owned_resume owned_destruct split: if_splits option.splits)

lemma task_run_owned: "owned s \<Longrightarrow> task_run ops s = Some s' \<Longrightarrow> owned s'"
  by (induction ops arbitrary: s) (auto simp: bind_eq_Some_conv dest: task_op_owned)

text \<open>
  C16. Ownership of the coroutine frames: whatever program of constructions, moves (self-moves included),
  flag settings, resumptions and destructions runs on \<open>Task\<close> objects, no destroyed frame is accessed
  and none is destroyed twice; exactly the frames that are live have an owner, and it is
  unique.  So once no object is left, every frame has been destroyed: none leaks.
\<close>

theorem tasks_own_frames:
  assumes "task_run ops task_init = Some s"
  shows "\<not> bad_access s
    \<and> (\<forall>h < length (task_frames s). live (task_frames s ! h) \<longleftrightarrow> (\<exists>x. handle_of s x = Some (Some h)))
    \<and> (\<forall>x y h. handle_of s x = Some (Some h) \<longrightarrow> handle_of s y = Some (Some h) \<longrightarrow> x = y)
    \<and> (handle_of s = Map.empty \<longrightarrow> list_all (\<lambda>fr. \<not> live fr) (task_frames s))"
  using task_run_owned [OF owned_init assms] unfolding owned_def list_all_length by fastforce

text \<open>A task is moved into a vector's slot, over another and onto itself; all frames are gone in the end.\<close>

theorem tasks_own_frames_witness:
  "\<exists>s. task_run [Call_Coroutine 0, Move_Construct 1 0, Set_Done_Flag 1 7, Call_Coroutine 2, Resume_Task 1 True,
      Move_Assign 1 1, Move_Assign 2 1, Destruct_Task 0, Destruct_Task 1, Destruct_Task 2] task_init = Some s
    \<and> flag_value s 7 \<and> \<not> bad_access s \<and> map live (task_frames s) = [False, False]"
  (is "\<exists>s. task_run ?ops task_init = Some s \<and> _")
proof -
  have "\<exists>s. task_run ?ops task_init = Some s \<and> flag_value s 7 \<and> length (task_frames s) = 2
      \<and> handle_of s = Map.empty"
    by (simp add: task_init_def get_return_object_def move_construct_def exchange_into_def set_done_flag_def access_frame_def
        task_resume_def final_await_def move_assign_def destroy_frame_def task_destruct_def Let_def fun_eq_iff)
  then obtain s where s: "task_run ?ops task_init = Some s" "flag_value s 7" "length (task_frames s) = 2" "handle_of s = Map.empty"
    by blast
  with tasks_own_frames [OF s(1)] have "\<not> bad_access s" "list_all (\<lambda>fr. \<not> live fr) (task_frames s)" by simp_all
  moreover obtain a b where "task_frames s = [a, b]"
    using s(3) by (auto simp: numeral_2_eq_2 length_Suc_conv)
  ultimately show ?thesis using s(1,2) by auto
qed

text \<open>
  The life of one task, as the benchmarks have it: once its flag has been set and it has been resumed to
  its end, it is done, the flag holds, and to resume it again changes nothing.
\<close>

lemma task_runs_to_end:
  assumes "owned s" "handle_of s x = Some (Some h)" "\<not> task_done (Some h) s"
    and "s' = task_resume (Some h) True (set_done_flag (Some h) flag s)"
  shows "flag_value s' flag \<and> task_done (Some h) s' \<and> task_resume (Some h) to_end s' = s'"
  using ownedD [OF assms(1,2)] assms(3,4)
  by (simp add: task_resume_def set_done_flag_def access_frame_def final_await_def task_done_def Let_def)

end
