(* ===== verification/Platform.thy ===== *)
theory Platform
  imports Harness
begin

text \<open>
  The platform layer: CPU affinity (common/affinity.cpp) with the pinning of the harness's workers,
  the cache line padding of include/padded.hpp, and the timer of common/timing.cpp.  The number of
  hardware threads, the results of the operating system's affinity calls and the readings of the
  clock are arguments.
\<close>

section \<open>common/affinity.cpp\<close>

datatype platform = Apple | Linux | Unsupported

text \<open>\<open>hw\<close> is \<open>std::thread::hardware_concurrency()\<close>, an \<open>unsigned int\<close>, 0 when unknown.\<close>

definition get_num_logical_cores :: "32 word \<Rightarrow> int" where
  "get_num_logical_cores hw = (if hw = 0 then 1 else sint hw)"

text \<open>\<open>None\<close>: \<open>reserve\<close> of a negative \<open>int\<close>, converted to \<open>size_t\<close>, throws \<open>length_error\<close>.\<close>

definition get_available_cores :: "32 word \<Rightarrow> int list option" where
  "get_available_cores hw =
     (let num_cores = get_num_logical_cores hw in
      if num_cores < 0 then None
      else Some (foldl (\<lambda>cores i. cores @ [int i]) [] [0..<nat num_cores]))"

fun is_affinity_supported :: "platform \<Rightarrow> bool" where
  "is_affinity_supported Apple = True"
| "is_affinity_supported Linux = True"
| "is_affinity_supported Unsupported = False"

text \<open>
  \<open>setaffinity\<close> is the result of \<open>pthread_setaffinity_np\<close> for a set of CPUs, \<open>policy_set\<close> that of
  \<open>thread_policy_set\<close> for an affinity tag; 0 is success (\<open>KERN_SUCCESS\<close>) for both.
\<close>

fun pin_thread_to_core :: "(int set \<Rightarrow> int) \<Rightarrow> (int \<Rightarrow> int) \<Rightarrow> platform \<Rightarrow> int \<Rightarrow> bool" where
  "pin_thread_to_core setaffinity policy_set Apple core_id = (policy_set core_id = 0)"
| "pin_thread_to_core setaffinity policy_set Linux core_id =
     (let cpuset = {}; cpuset = insert core_id cpuset in setaffinity cpuset = 0)"
| "pin_thread_to_core setaffinity policy_set Unsupported core_id = False"

text \<open>
  The core that a worker of the harness asks for: \<open>Some None\<close> when it asks for none, \<open>None\<close> when
  \<open>get_available_cores\<close> throws.
\<close>

definition worker_core :: "platform \<Rightarrow> 32 word \<Rightarrow> nat \<Rightarrow> int option option" where
  "worker_core p hw thread_index =
     (if \<not> is_affinity_supported p then Some None
      else map_option (\<lambda>cores. maybe_pin True cores thread_index) (get_available_cores hw))"

lemma available_cores:
  "get_available_cores hw =
     (if get_num_logical_cores hw < 0 then None else Some (map int [0..<nat (get_num_logical_cores hw)]))"
proof -
  have "foldl (\<lambda>cores i. cores @ [int i]) cs is = cs @ map int is" for cs and "is" :: "nat list"
    by (induction "is" arbitrary: cs) simp_all
  then show ?thesis by (simp add: get_available_cores_def Let_def)
qed

lemma logical_cores_pos: "0 \<le> sint hw \<Longrightarrow> 0 < get_num_logical_cores hw"
  using signed_eq_0_iff [of hw] by (auto simp: get_num_logical_cores_def order_less_le)

lemma worker_core_eq:
  assumes "is_affinity_supported p" "0 \<le> sint hw"
  shows "worker_core p hw i = Some (Some (int (Suc i) mod get_num_logical_cores hw))"
proof -
  let ?n = "nat (get_num_logical_cores hw)"
  have n: "0 < ?n" using logical_cores_pos [OF assms(2)] by simp
  then have "map int [0..<?n] ! (Suc i mod ?n) = int (Suc i mod ?n)" by (subst nth_map) simp_all
  moreover have "int (Suc i mod ?n) = int (Suc i) mod get_num_logical_cores hw"
    using n by (simp add: zmod_int del: of_nat_Suc)
  ultimately show ?thesis
    using assms n by (simp add: worker_core_def available_cores maybe_pin_def pin_target_def)
qed

text \<open>
  C39. Where the harness pins its workers, on a platform with thread affinity and for every number of
  hardware threads that an \<open>int\<close> holds, 0 (unknown) included: each worker asks for one of the
  logical cores; the workers go round the cores evenly, two of them sharing a core exactly when their
  indices are congruent; and while there are more cores than workers, core 0 is left to the caller.
\<close>

theorem workers_spread:
  assumes "is_affinity_supported p" and "0 \<le> sint hw"
  shows "\<exists>core. worker_core p hw i = Some (Some core) \<and> 0 \<le> core \<and> core < get_num_logical_cores hw
      \<and> (int i + 1 < get_num_logical_cores hw \<longrightarrow> core = int i + 1)
      \<and> (worker_core p hw j = worker_core p hw i \<longleftrightarrow> int j mod get_num_logical_cores hw = int i mod get_num_logical_cores hw)"
proof -
  let ?n = "get_num_logical_cores hw"
  have n: "0 < ?n" using assms(2) by (rule logical_cores_pos)
  have "(int j + 1) mod ?n = (int i + 1) mod ?n \<longleftrightarrow> int j mod ?n = int i mod ?n"
    by (simp add: mod_eq_dvd_iff)
  then show ?thesis using n by (simp add: worker_core_eq [OF assms] add.commute mod_pos_pos_trivial)
qed

theorem workers_spread_witness:
  "worker_core Linux 8 2 = Some (Some 3) \<and> worker_core Linux 8 10 = worker_core Linux 8 2
    \<and> worker_core Linux 8 7 = Some (Some 0)"
  using workers_spread [of Linux 8 2 10] by (simp add: worker_core_eq get_num_logical_cores_def)

section \<open>include/padded.hpp\<close>

record 'a padded =
  contents :: 'a

text \<open>The operators of the plain template, on an unsigned or wrapping integer.\<close>

definition assign :: "'a \<Rightarrow> 'a padded \<Rightarrow> 'a \<times> 'a padded" where
  "assign v p = (let p = p\<lparr>contents := v\<rparr> in (contents p, p))"

definition pre_increment :: "'w::len word padded \<Rightarrow> 'w word \<times> 'w word padded" where
  "pre_increment p = (let p = p\<lparr>contents := contents p + 1\<rparr> in (contents p, p))"

definition post_increment :: "'w::len word padded \<Rightarrow> 'w word \<times> 'w word padded" where
  "post_increment p = (contents p, p\<lparr>contents := contents p + 1\<rparr>)"

definition pre_decrement :: "'w::len word padded \<Rightarrow> 'w word \<times> 'w word padded" where
  "pre_decrement p = (let p = p\<lparr>contents := contents p - 1\<rparr> in (contents p, p))"

definition post_decrement :: "'w::len word padded \<Rightarrow> 'w word \<times> 'w word padded" where
  "post_decrement p = (contents p, p\<lparr>contents := contents p - 1\<rparr>)"

text \<open>The specialisation for \<open>std::atomic\<close>: each is one atomic action.\<close>

definition atomic_load :: "'a padded \<Rightarrow> 'a" where
  "atomic_load p = contents p"

definition atomic_store :: "'a \<Rightarrow> 'a padded \<Rightarrow> 'a padded" where
  "atomic_store desired p = p\<lparr>contents := desired\<rparr>"

definition fetch_add :: "'w::len word \<Rightarrow> 'w word padded \<Rightarrow> 'w word \<times> 'w word padded" where
  "fetch_add arg p = (contents p, p\<lparr>contents := contents p + arg\<rparr>)"

definition fetch_sub :: "'w::len word \<Rightarrow> 'w word padded \<Rightarrow> 'w word \<times> 'w word padded" where
  "fetch_sub arg p = (contents p, p\<lparr>contents := contents p - arg\<rparr>)"

definition atomic_pre_increment :: "'w::len word padded \<Rightarrow> 'w word \<times> 'w word padded" where
  "atomic_pre_increment p = (let (old, p) = fetch_add 1 p in (old + 1, p))"

definition atomic_post_increment :: "'w::len word padded \<Rightarrow> 'w word \<times> 'w word padded" where
  "atomic_post_increment p = fetch_add 1 p"

definition atomic_pre_decrement :: "'w::len word padded \<Rightarrow> 'w word \<times> 'w word padded" where
  "atomic_pre_decrement p = (let (old, p) = fetch_sub 1 p in (old - 1, p))"

definition atomic_post_decrement :: "'w::len word padded \<Rightarrow> 'w word \<times> 'w word padded" where
  "atomic_post_decrement p = fetch_sub 1 p"

text \<open>
  The layout: the size of a structure is a multiple of its alignment, so an element \<open>i\<close> of an array
  of padded values of size \<open>t\<close> at address \<open>base\<close> occupies these bytes.
\<close>

definition padded_size :: "nat \<Rightarrow> nat" where
  "padded_size t = (t + 63) div 64 * 64"

definition padded_bytes :: "nat \<Rightarrow> nat \<Rightarrow> nat \<Rightarrow> nat set" where
  "padded_bytes base t i = {base + i * padded_size t ..< base + i * padded_size t + t}"

lemma padded_line:
  assumes "64 dvd base" "a \<in> padded_bytes base t i"
  shows "(base + i * padded_size t) div 64 \<le> a div 64 \<and> a div 64 < (base + Suc i * padded_size t) div 64"
proof -
  have t: "t \<le> padded_size t" unfolding padded_size_def by presburger
  have a: "base + i * padded_size t \<le> a" "a < base + Suc i * padded_size t"
    using assms(2) t by (auto simp: padded_bytes_def)
  have "64 dvd base + Suc i * padded_size t" using assms(1) by (simp add: padded_size_def)
  then obtain k where "base + Suc i * padded_size t = 64 * k" by auto
  then have "a div 64 < (base + Suc i * padded_size t) div 64" using a(2) by (simp add: less_mult_imp_div_less mult.commute)
  then show ?thesis using a(1) by (simp add: div_le_mono)
qed

text \<open>
  Padding: in an array of padded values that starts at a multiple of the cache line size, no
  cache line holds bytes of two elements, so there is no false sharing between them.  The operators
  of the atomic specialisation return and store what those of the plain template do, and a load
  returns what was stored or assigned.
\<close>

theorem padded_no_false_sharing:
  "(64 dvd base \<and> i \<noteq> j \<and> a \<in> padded_bytes base t i \<and> b \<in> padded_bytes base t j \<longrightarrow> a div 64 \<noteq> b div 64)
    \<and> atomic_pre_increment p = pre_increment p \<and> atomic_post_increment p = post_increment p
    \<and> atomic_pre_decrement p = pre_decrement p \<and> atomic_post_decrement p = post_decrement p
    \<and> atomic_load (atomic_store v p) = v \<and> assign v p = (v, atomic_store v p)"
proof -
  have lines: "a div 64 \<noteq> b div 64"
    if "64 dvd base" "i < j" "a \<in> padded_bytes base t i" "b \<in> padded_bytes base t j" for i j a b
  proof -
    have "Suc i * padded_size t \<le> j * padded_size t" using that(2) by (intro mult_le_mono1) simp
    then have "(base + Suc i * padded_size t) div 64 \<le> (base + j * padded_size t) div 64" by (simp add: div_le_mono)
    then show ?thesis using padded_line [OF that(1,3)] padded_line [OF that(1,4)] by linarith
  qed
  have "a div 64 \<noteq> b div 64"
    if "64 dvd base" "i \<noteq> j" "a \<in> padded_bytes base t i" "b \<in> padded_bytes base t j"
    using that lines [of i j a b] lines [of j i b a] by (metis linorder_neqE_nat)
  then show ?thesis
    by (simp add: atomic_pre_increment_def atomic_post_increment_def atomic_pre_decrement_def atomic_post_decrement_def
        pre_increment_def post_increment_def pre_decrement_def post_decrement_def fetch_add_def fetch_sub_def
        atomic_load_def atomic_store_def assign_def)
qed

theorem padded_no_false_sharing_witness:
  "128 \<in> padded_bytes 128 8 0 \<and> 192 \<in> padded_bytes 128 8 1 \<and> (128 :: nat) div 64 \<noteq> 192 div 64
    \<and> atomic_pre_increment \<lparr>contents = (255 :: 8 word)\<rparr> = (0, \<lparr>contents = 0\<rparr>)"
proof -
  have bytes: "128 \<in> padded_bytes 128 8 0" "192 \<in> padded_bytes 128 8 1" by (simp_all add: padded_bytes_def padded_size_def)
  then show ?thesis
    using padded_no_false_sharing [of 128 0 1 128 8 192 "\<lparr>contents = (255 :: 8 word)\<rparr>"]
    by (simp add: pre_increment_def)
qed

section \<open>common/timing.cpp\<close>

text \<open>\<open>now\<close> is a reading of \<open>high_resolution_clock\<close>, in nanoseconds.\<close>

record high_resolution_timer =
  start_time :: int

definition timer_reset :: "int \<Rightarrow> high_resolution_timer \<Rightarrow> high_resolution_timer" where
  "timer_reset now_ns t = t\<lparr>start_time := now_ns\<rparr>"

definition elapsed_seconds :: "int \<Rightarrow> high_resolution_timer \<Rightarrow> real" where
  "elapsed_seconds now_ns t = (let duration = now_ns - start_time t in rnd64 (rnd64 (of_int duration) / 1000000000))"

definition elapsed_milliseconds :: "int \<Rightarrow> high_resolution_timer \<Rightarrow> real" where
  "elapsed_milliseconds now_ns t = rnd64 (elapsed_seconds now_ns t * 1000)"

definition elapsed_microseconds :: "int \<Rightarrow> high_resolution_timer \<Rightarrow> real" where
  "elapsed_microseconds now_ns t = rnd64 (elapsed_seconds now_ns t * 1000000)"

text \<open>Two roundings.\<close>

lemma two_roundings:
  fixes r y z :: real
  assumes "\<bar>r - y\<bar> \<le> y / 2 ^ 53" "\<bar>y - z\<bar> \<le> z / 2 ^ 53" "y \<le> 2 * z" "0 \<le> z"
  shows "\<bar>r - z\<bar> \<le> z / 2 ^ 51"
proof -
  have "y / 2 ^ 53 \<le> 2 * (z / 2 ^ 53)" "z / 2 ^ 51 = 4 * (z / 2 ^ 53)" "0 \<le> z / 2 ^ 53" using assms(3,4) by simp_all
  then show ?thesis using assms(1,2) by linarith
qed

text \<open>
  The timer: after a reset, for up to \<open>2 ^ 53\<close> nanoseconds (104 days), the elapsed seconds,
  milliseconds and microseconds are those between the two readings of the clock up to a relative error
  of \<open>2 ^ -51\<close>, and are not negative.
\<close>

theorem elapsed_accurate:
  assumes "0 \<le> d" and "d \<le> 2 ^ 53"
  shows "\<bar>elapsed_seconds (now_ns + d) (timer_reset now_ns t) - of_int d / 10 ^ 9\<bar> \<le> of_int d / 10 ^ 9 / 2 ^ 51
    \<and> \<bar>elapsed_milliseconds (now_ns + d) (timer_reset now_ns t) - of_int d / 10 ^ 6\<bar> \<le> of_int d / 10 ^ 6 / 2 ^ 51
    \<and> \<bar>elapsed_microseconds (now_ns + d) (timer_reset now_ns t) - of_int d / 10 ^ 3\<bar> \<le> of_int d / 10 ^ 3 / 2 ^ 51"
proof (cases "d = 0")
  case True
  then show ?thesis
    by (simp add: elapsed_seconds_def elapsed_milliseconds_def elapsed_microseconds_def timer_reset_def)
next
  case False
  define x where "x = (of_int d :: real) / 1000000000"
  define s where "s = rnd64 x"
  have d: "rnd64 (of_int d) = of_int d" using assms by (intro rnd64_exact_int) simp
  have x: "1 / 1000000000 \<le> x" using assms(1) False by (simp add: x_def)
  have s: "\<bar>s - x\<bar> \<le> x / 2 ^ 53" unfolding s_def using x by (intro rnd64_close tiny)
  moreover have "x / 2 ^ 53 \<le> x / 2" using x by simp
  ultimately have s2: "x / 2 \<le> s" "s \<le> 2 * x" using x by linarith+
  have scaled: "\<bar>rnd64 (s * k) - x * k\<bar> \<le> x * k / 2 ^ 51" if "2 \<le> k" for k
  proof -
    have "1 / 1000000000 \<le> s * k"
    proof -
      have "x / 2 * 2 \<le> s * k" using s2 x that by (intro mult_mono) simp_all
      then show ?thesis using x by simp
    qed
    then have "\<bar>rnd64 (s * k) - s * k\<bar> \<le> s * k / 2 ^ 53" by (intro rnd64_close tiny)
    moreover have "s * k \<le> 2 * x * k" using s2 that by (intro mult_right_mono) simp_all
    moreover have "\<bar>s * k - x * k\<bar> \<le> x * k / 2 ^ 53"
    proof -
      have "\<bar>s * k - x * k\<bar> = \<bar>s - x\<bar> * k" using that by (simp add: abs_mult left_diff_distrib [symmetric])
      also have "\<dots> \<le> x / 2 ^ 53 * k" using s that by (intro mult_right_mono) simp_all
      finally show ?thesis by simp
    qed
    moreover have "0 \<le> x * k" using x that by (intro mult_nonneg_nonneg) simp_all
    ultimately show ?thesis by (intro two_roundings [of _ "s * k"]) simp_all
  qed
  have "\<bar>s - x\<bar> \<le> x / 2 ^ 51" using s x by (simp add: abs_le_iff)
  moreover have div: "of_int d / 10 ^ 6 = x * 1000" "of_int d / 10 ^ 3 = x * 1000000" "(of_int d :: real) / 10 ^ 9 = x"
    by (simp_all add: x_def)
  moreover have sec: "elapsed_seconds (now_ns + d) (timer_reset now_ns t) = s"
    by (simp add: elapsed_seconds_def timer_reset_def d s_def x_def)
  moreover have "elapsed_milliseconds (now_ns + d) (timer_reset now_ns t) = rnd64 (s * 1000)"
    "elapsed_microseconds (now_ns + d) (timer_reset now_ns t) = rnd64 (s * 1000000)"
    by (simp_all add: elapsed_milliseconds_def elapsed_microseconds_def sec)
  ultimately show ?thesis using scaled [of 1000] scaled [of 1000000] by (simp only: simp_thms)
qed

theorem elapsed_accurate_witness:
  "\<bar>elapsed_seconds 1500000000 (timer_reset 0 t) - 3 / 2\<bar> \<le> 3 / 2 / 2 ^ 51"
  using elapsed_accurate [of 1500000000 0 t] by simp

end
