(* ===== verification/Reports.thy ===== *)
theory Reports
  imports Fairness Signed_Int "HOL-Library.Signed_Division"
begin

text \<open>
  What the benchmarks report to the library when their iterations are over: the user counters, as the
  last iteration leaves them, and the number of items.  An elapsed time is the difference of two
  readings of the clock, in nanoseconds, and an argument here.  A counter is \<open>None\<close> when its
  quotient is infinite or not a number; a report is \<open>None\<close> when a signed product overflows.
\<close>

section \<open>Durations, quotients and counters\<close>

text \<open>\<open>duration_cast<microseconds>\<close> rounds towards zero.\<close>

definition micros :: "int \<Rightarrow> int" where
  "micros ns = ns sdiv 1000"

text \<open>The conversion of an integer to \<open>double\<close>, and the division of two doubles.\<close>

definition of_count :: "int \<Rightarrow> real" where
  "of_count k = rnd64 (of_int k)"

definition div_double :: "real \<Rightarrow> real \<Rightarrow> real option" where
  "div_double x y = (if y = 0 then None else Some (rnd64 (x / y)))"

definition mul_int64 :: "int \<Rightarrow> int \<Rightarrow> int option" where
  "mul_int64 x y = (if - (2 ^ 63) \<le> x * y \<and> x * y < 2 ^ 63 then Some (x * y) else None)"

type_synonym counters = "string \<rightharpoonup> real option"

record bench_report =
  user_counters :: counters
  reported_items :: int

text \<open>Every iteration assigns its counters over those of the one before.\<close>

definition after_iterations :: "('i \<Rightarrow> counters) \<Rightarrow> 'i list \<Rightarrow> counters" where
  "after_iterations assigned its = foldl (\<lambda>cs it. cs ++ assigned it) Map.empty its"

definition completion_time :: "int \<Rightarrow> counters" where
  "completion_time ns = [''completion_time_us'' \<mapsto> Some (of_count (micros ns))]"

definition throughput_counters :: "int \<Rightarrow> int \<Rightarrow> counters" where
  "throughput_counters num_tasks ns = (completion_time ns)
     (''throughput'' \<mapsto> div_double (rnd64 (1000000 * of_count num_tasks)) (of_count (micros ns)))"

text \<open>The product with the duration of a task is one of 64 bits, and fits for any \<open>int\<close>.\<close>

definition efficiency_counters :: "int \<Rightarrow> int \<Rightarrow> int \<Rightarrow> counters" where
  "efficiency_counters io_duration num_tasks ns = (completion_time ns)
     (''efficiency'' \<mapsto> div_double (of_count (num_tasks * io_duration)) (of_count (micros ns)))"

section \<open>The thread pool benchmarks\<close>

definition thread_pool_cpu_bound_report :: "int \<Rightarrow> int list \<Rightarrow> bench_report option" where
  "thread_pool_cpu_bound_report num_tasks its = Some
     \<lparr>user_counters = after_iterations (throughput_counters num_tasks) its, reported_items = num_tasks\<rparr>"

definition async_cpu_bound_report :: "int \<Rightarrow> int list \<Rightarrow> bench_report option" where
  "async_cpu_bound_report num_tasks its = Some
     \<lparr>user_counters = after_iterations (throughput_counters num_tasks) its, reported_items = num_tasks\<rparr>"

definition thread_pool_io_bound_report :: "int \<Rightarrow> int list \<Rightarrow> bench_report option" where
  "thread_pool_io_bound_report num_tasks its = Some
     \<lparr>user_counters = after_iterations (efficiency_counters 1000 num_tasks) its, reported_items = num_tasks\<rparr>"

definition async_io_bound_report :: "int \<Rightarrow> int list \<Rightarrow> bench_report option" where
  "async_io_bound_report num_tasks its = Some
     \<lparr>user_counters = after_iterations (efficiency_counters 1000 num_tasks) its, reported_items = num_tasks\<rparr>"

definition thread_pool_mixed_report :: "int \<Rightarrow> int list \<Rightarrow> bench_report option" where
  "thread_pool_mixed_report num_tasks its = Some
     \<lparr>user_counters = after_iterations completion_time its, reported_items = num_tasks\<rparr>"

text \<open>The division that fixes the work per task comes first and is undefined without tasks.\<close>

definition thread_pool_scalability_report :: "int \<Rightarrow> int list \<Rightarrow> bench_report option" where
  "thread_pool_scalability_report num_tasks its =
     (if num_tasks = 0 then None
      else Some \<lparr>user_counters = after_iterations (\<lambda>ns. (completion_time ns)
          (''work_per_task'' \<mapsto> Some (of_count (1000000 sdiv num_tasks)),
           ''task_overhead_ns'' \<mapsto> div_double (rnd64 (of_count (micros ns) * 1000)) (of_count num_tasks))) its,
        reported_items = 1000000\<rparr>)"

definition thread_pool_burst_report :: "int \<Rightarrow> int list \<Rightarrow> bench_report option" where
  "thread_pool_burst_report tasks_per_burst its = map_option (\<lambda>total.
     \<lparr>user_counters = after_iterations (\<lambda>ns. (completion_time ns)(''bursts'' \<mapsto> Some (of_count 5))) its,
      reported_items = total\<rparr>) (mul_int 5 tasks_per_burst)"

section \<open>The future benchmarks\<close>

definition launch_async_report :: "int \<Rightarrow> int list \<Rightarrow> bench_report option" where
  "launch_async_report num_tasks its = Some
     \<lparr>user_counters = after_iterations (throughput_counters num_tasks) its, reported_items = num_tasks\<rparr>"

definition launch_deferred_report :: "int \<Rightarrow> int list \<Rightarrow> bench_report option" where
  "launch_deferred_report num_tasks its = Some
     \<lparr>user_counters = after_iterations (throughput_counters num_tasks) its, reported_items = num_tasks\<rparr>"

definition promise_report :: "int \<Rightarrow> int list \<Rightarrow> bench_report option" where
  "promise_report num_tasks its = Some
     \<lparr>user_counters = after_iterations (throughput_counters num_tasks) its, reported_items = num_tasks\<rparr>"

text \<open>An iteration of StdAsync\_ExceptionHandling is its elapsed time and its exceptions.\<close>

definition success_rate :: "int \<Rightarrow> int \<Rightarrow> real option" where
  "success_rate exception_count num_tasks = map_option (\<lambda>failed. rnd64 (rnd64 (1 - failed) * 100))
     (div_double (of_count exception_count) (of_count num_tasks))"

definition exception_report :: "int \<Rightarrow> (int \<times> int) list \<Rightarrow> bench_report option" where
  "exception_report num_tasks its = Some
     \<lparr>user_counters = after_iterations (\<lambda>(ns, exception_count). (completion_time ns)
        (''exception_count'' \<mapsto> Some (of_count exception_count),
         ''success_rate'' \<mapsto> success_rate exception_count num_tasks)) its,
      reported_items = num_tasks\<rparr>"

text \<open>An iteration of StdAsync\_Timeout is its elapsed time and its two counts.\<close>

definition completion_rate :: "int \<Rightarrow> int \<Rightarrow> real option" where
  "completion_rate completed_count num_tasks = map_option (\<lambda>share. rnd64 (share * 100))
     (div_double (of_count completed_count) (of_count num_tasks))"

definition timeout_report :: "int \<Rightarrow> (int \<times> int \<times> int) list \<Rightarrow> bench_report option" where
  "timeout_report num_tasks its = Some
     \<lparr>user_counters = after_iterations (\<lambda>(ns, completed_count, timeout_count). (completion_time ns)
        (''completed'' \<mapsto> Some (of_count completed_count), ''timeouts'' \<mapsto> Some (of_count timeout_count),
         ''completion_rate'' \<mapsto> completion_rate completed_count num_tasks)) its,
      reported_items = num_tasks\<rparr>"

definition chaining_report :: "int \<Rightarrow> int list \<Rightarrow> bench_report option" where
  "chaining_report num_chains its = map_option (\<lambda>total_tasks.
     \<lparr>user_counters = after_iterations (\<lambda>ns. (completion_time ns)
        (''chain_length'' \<mapsto> Some (of_count 5), ''total_tasks'' \<mapsto> Some (of_count total_tasks))) its,
      reported_items = total_tasks\<rparr>) (mul_int num_chains 5)"

section \<open>The coroutine benchmarks\<close>

text \<open>The number of iterations is an integer of 64 bits.\<close>

definition coroutines_cpu_bound_report :: "int \<Rightarrow> int list \<Rightarrow> bench_report option" where
  "coroutines_cpu_bound_report num_tasks its = map_option (\<lambda>total.
     \<lparr>user_counters = after_iterations (throughput_counters num_tasks) its, reported_items = total\<rparr>)
     (mul_int64 (int (length its)) num_tasks)"

definition threads_cpu_bound_report :: "int \<Rightarrow> int list \<Rightarrow> bench_report option" where
  "threads_cpu_bound_report num_tasks its = map_option (\<lambda>total.
     \<lparr>user_counters = after_iterations (throughput_counters num_tasks) its, reported_items = total\<rparr>)
     (mul_int64 (int (length its)) num_tasks)"

definition coroutines_io_bound_report :: "int \<Rightarrow> int list \<Rightarrow> bench_report option" where
  "coroutines_io_bound_report num_tasks its = map_option (\<lambda>total.
     \<lparr>user_counters = after_iterations (efficiency_counters 1000 num_tasks) its, reported_items = total\<rparr>)
     (mul_int64 (int (length its)) num_tasks)"

definition memory_efficiency :: "int \<Rightarrow> int \<Rightarrow> real option" where
  "memory_efficiency num_tasks ns = div_double (of_count num_tasks) (of_count (max 1 (micros ns)))"

definition coroutines_high_task_count_report :: "int \<Rightarrow> int list \<Rightarrow> bench_report option" where
  "coroutines_high_task_count_report num_tasks its = map_option (\<lambda>total.
     \<lparr>user_counters = after_iterations (\<lambda>ns. (completion_time ns)
        (''memory_efficiency'' \<mapsto> memory_efficiency num_tasks ns)) its, reported_items = total\<rparr>)
     (mul_int64 (int (length its)) num_tasks)"

definition coroutines_mixed_report :: "int \<Rightarrow> int list \<Rightarrow> bench_report option" where
  "coroutines_mixed_report num_tasks its = map_option (\<lambda>total.
     \<lparr>user_counters = after_iterations completion_time its, reported_items = total\<rparr>)
     (mul_int64 (int (length its)) num_tasks)"

section \<open>The barrier benchmarks\<close>

text \<open>An iteration of StdBarrier\_WithWork is its coefficient of variation of the arrivals.\<close>

definition std_with_work_report :: "int \<Rightarrow> real list \<Rightarrow> bench_report option" where
  "std_with_work_report num_threads its = map_option (\<lambda>total.
     \<lparr>user_counters = (after_iterations (\<lambda>cv. [''arrival_cv'' \<mapsto> Some cv]) its)
        (''phases'' \<mapsto> Some (of_count 10), ''work_us'' \<mapsto> Some (of_count 100)),
      reported_items = total\<rparr>)
     (Option.bind (mul_int64 (int (length its)) 10) (\<lambda>phases. mul_int64 phases num_threads))"

definition manual_with_work_report :: "int \<Rightarrow> bench_report option" where
  "manual_with_work_report num_threads = map_option (\<lambda>total.
     \<lparr>user_counters = [''phases'' \<mapsto> Some (of_count 10), ''work_us'' \<mapsto> Some (of_count 100)],
      reported_items = total\<rparr>) (mul_int 10 num_threads)"

text \<open>An iteration of StdBarrier\_WithCompletion is its number of completions.\<close>

definition with_completion_report :: "int \<Rightarrow> int list \<Rightarrow> bench_report option" where
  "with_completion_report num_threads its = map_option (\<lambda>total.
     \<lparr>user_counters = (after_iterations (\<lambda>completion_count. [''completions'' \<mapsto> Some (of_count completion_count)]) its)
        (''phases'' \<mapsto> Some (of_count 10)),
      reported_items = total\<rparr>) (mul_int 10 num_threads)"

definition high_frequency_report :: "int \<Rightarrow> bench_report option" where
  "high_frequency_report num_threads = map_option (\<lambda>total.
     \<lparr>user_counters = [''phases'' \<mapsto> Some (of_count 1000)], reported_items = total\<rparr>) (mul_int 1000 num_threads)"

definition arrival_pattern_report :: "int \<Rightarrow> variance_tracker list \<Rightarrow> bench_report option" where
  "arrival_pattern_report num_threads its = map_option (\<lambda>total.
     \<lparr>user_counters = (after_iterations (\<lambda>sync_variance. [''sync_fairness'' \<mapsto> Some (coefficient_of_variation sync_variance)]) its)
        (''phases'' \<mapsto> Some (of_count 50)),
      reported_items = total\<rparr>) (mul_int 50 num_threads)"

section \<open>The producer and consumer benchmarks\<close>

text \<open>\<open>static_cast<int64_t>\<close> of a product with a \<open>size_t\<close>, which is one of unsigned 64-bit integers.\<close>

definition items_of :: "uint64 \<Rightarrow> int" where
  "items_of w = sint w"

definition spsc_report :: "uint64 \<Rightarrow> nat \<Rightarrow> bench_report" where
  "spsc_report queue_capacity iterations =
     \<lparr>user_counters = [''queue_capacity'' \<mapsto> Some (to_double rnd64 queue_capacity),
        ''items_processed'' \<mapsto> Some (to_double rnd64 10000)],
      reported_items = items_of (of_nat iterations * 10000)\<rparr>"

text \<open>An iteration is what its two trackers hold; the last values are reported.\<close>

definition mpmc_end_report :: "uint64 \<Rightarrow> uint64 \<Rightarrow> uint64 \<Rightarrow> (variance_tracker \<times> variance_tracker) list \<Rightarrow> bench_report" where
  "mpmc_end_report num_producers num_consumers total_items its =
     (let last_fairness = foldl (\<lambda>_ (p, c). (coefficient_of_variation p, coefficient_of_variation c)) (0, 0) its
      in \<lparr>user_counters = [''num_producers'' \<mapsto> Some (to_double rnd64 num_producers),
           ''num_consumers'' \<mapsto> Some (to_double rnd64 num_consumers),
           ''producer_fairness'' \<mapsto> Some (fst last_fairness), ''consumer_fairness'' \<mapsto> Some (snd last_fairness),
           ''total_items'' \<mapsto> Some (to_double rnd64 total_items)],
         reported_items = items_of (of_nat (length its) * total_items)\<rparr>)"

text \<open>Without a producer the benchmark is skipped, with an error.\<close>

definition mpmc_report :: "uint64 \<Rightarrow> (variance_tracker \<times> variance_tracker) list \<Rightarrow> string + bench_report" where
  "mpmc_report num_threads its =
     (let num_producers = num_threads div 2;
          num_consumers = num_threads - num_producers;
          total_items = num_producers * 1000
      in if num_producers = 0 \<or> num_consumers = 0 then Inl ''Need at least 1 producer and 1 consumer''
         else Inr (mpmc_end_report num_producers num_consumers total_items its))"

text \<open>
  An iteration of BinarySemaphore\_vs\_Mutex is its two counters with their trackers.  The first product
  is one of signed integers, the others of unsigned ones.
\<close>

definition binary_vs_mutex_counters :: "int \<Rightarrow> ((uint64 \<times> variance_tracker) \<times> (uint64 \<times> variance_tracker)) list
  \<Rightarrow> bench_report option" where
  "binary_vs_mutex_counters num_threads its =
     (let last_its = foldl (\<lambda>_ ((b, binary_tracker), (m, mutex_tracker)).
        ((b, coefficient_of_variation binary_tracker), (m, coefficient_of_variation mutex_tracker))) ((0, 0), (0, 0)) its
      in map_option (\<lambda>rounds.
        \<lparr>user_counters = [''binary_sem_ops'' \<mapsto> Some (to_double rnd64 (fst (fst last_its))),
           ''mutex_ops'' \<mapsto> Some (to_double rnd64 (fst (snd last_its))),
           ''binary_fairness'' \<mapsto> Some (snd (fst last_its)), ''mutex_fairness'' \<mapsto> Some (snd (snd last_its))],
         reported_items = items_of (of_int rounds * 10000 * 2)\<rparr>)
        (mul_int64 (int (length its)) num_threads))"

definition pc_condvar_report :: "int \<Rightarrow> nat \<Rightarrow> bench_report option" where
  "pc_condvar_report N iterations = map_option (\<lambda>total.
     \<lparr>user_counters = Map.empty, reported_items = total\<rparr>) (mul_int64 (int iterations) N)"

section \<open>The reader/writer benchmarks\<close>

text \<open>The totals are those of the last iteration, with the trackers in the first benchmark.\<close>

definition read_share :: "uint64 \<Rightarrow> uint64 \<Rightarrow> real option" where
  "read_share reads writes = div_double (rnd64 (100 * to_double rnd64 reads)) (to_double rnd64 (reads + writes))"

definition rw_counters :: "uint64 \<Rightarrow> uint64 \<Rightarrow> counters" where
  "rw_counters reads writes = [''total_reads'' \<mapsto> Some (to_double rnd64 reads),
     ''total_writes'' \<mapsto> Some (to_double rnd64 writes), ''read_percentage'' \<mapsto> read_share reads writes]"

definition read_heavy_report :: "uint64 \<Rightarrow> uint64 \<Rightarrow> variance_tracker \<Rightarrow> variance_tracker \<Rightarrow> bench_report" where
  "read_heavy_report reads writes readers writers =
     \<lparr>user_counters = (rw_counters reads writes)(''reader_fairness'' \<mapsto> Some (coefficient_of_variation readers),
        ''writer_fairness'' \<mapsto> Some (coefficient_of_variation writers)),
      reported_items = items_of (reads + writes)\<rparr>"

definition balanced_report :: "uint64 \<Rightarrow> uint64 \<Rightarrow> bench_report" where
  "balanced_report reads writes =
     \<lparr>user_counters = rw_counters reads writes, reported_items = items_of (reads + writes)\<rparr>"

definition exclusive_report :: "uint64 \<Rightarrow> uint64 \<Rightarrow> bench_report" where
  "exclusive_report reads writes =
     \<lparr>user_counters = rw_counters reads writes, reported_items = items_of (reads + writes)\<rparr>"

definition write_heavy_report :: "uint64 \<Rightarrow> uint64 \<Rightarrow> bench_report" where
  "write_heavy_report reads writes =
     \<lparr>user_counters = rw_counters reads writes, reported_items = items_of (reads + writes)\<rparr>"

section \<open>The values of the counters\<close>

text \<open>A counter of a report that is defined.\<close>

definition reported :: "bench_report option \<Rightarrow> string \<Rightarrow> real option option" where
  "reported rep name = Option.bind rep (\<lambda>r. user_counters r name)"

lemma after_iterations_snoc [simp]: "after_iterations assigned (its @ [it]) = after_iterations assigned its ++ assigned it"
  by (simp add: after_iterations_def)

lemma unat_small: "k < 2 ^ 64 \<Longrightarrow> unat (of_nat k :: uint64) = k"
  by (simp add: unsigned_of_nat take_bit_nat_eq_self)

lemma half_threads: "n < 2 ^ 64 \<Longrightarrow> (of_nat n :: uint64) div 2 = of_nat (n div 2)"
proof -
  assume n: "n < 2 ^ 64"
  then have "n div 2 < 2 ^ 64" by simp
  then have "unat ((of_nat n :: uint64) div 2) = unat (of_nat (n div 2) :: uint64)"
    using n unat_small [of n] unat_small [of "n div 2"] by (simp only: unat_div unsigned_numeral) simp
  then show ?thesis by (simp only: word_unat_eq_iff)
qed

lemma mul_int64_nat: "a * b < 2 ^ 63 \<Longrightarrow> mul_int64 (int a) (int b) = Some (int (a * b))"
proof -
  assume "a * b < 2 ^ 63"
  then have "int (a * b) < 2 ^ 63" by (metis of_nat_less_iff of_nat_numeral of_nat_power)
  moreover have "- (2 ^ 63) \<le> int (a * b)" by (rule order_trans [of _ 0]) (simp, rule of_nat_0_le_iff)
  ultimately show ?thesis by (simp add: mul_int64_def)
qed

lemma items_of_nat: "k < 2 ^ 63 \<Longrightarrow> items_of (of_nat k) = int k"
  by (simp add: items_of_def sint_uint unsigned_of_nat take_bit_nat_eq_self signed_take_bit_int_eq_self)

text \<open>A rounded value does not pass an integer that the exact one does not pass.\<close>

lemma round_even_le: "y \<le> of_int k \<Longrightarrow> round_even y \<le> k"
proof -
  assume y: "y \<le> of_int k"
  show ?thesis
  proof (cases "y = of_int k")
    case False
    with y have "\<lfloor>y\<rfloor> < k" by linarith
    then show ?thesis by (auto simp: round_even_def Let_def)
  qed simp
qed

lemma rnd64_le_int:
  assumes "0 \<le> x" "x \<le> of_int k" "k < 2 ^ 53"
  shows "rnd64 x \<le> of_int k"
proof (cases "x = 0")
  case True
  then show ?thesis using assms by simp
next
  case False
  then have x: "0 < x" using assms(1) by simp
  have "of_int k < (2 :: real) ^ 53" using assms(3) by (metis of_int_less_iff of_int_numeral of_int_power)
  then have "x < 2 ^ 53" using assms(2) by linarith
  then have "log 2 x < log 2 (2 ^ 53)" using x by (subst log_less_cancel_iff) simp_all
  then have "\<lfloor>log 2 x\<rfloor> < 53" by (simp only: log_pow_cancel) linarith
  then have e: "ulp_exp x \<le> 0" using x by (simp add: ulp_exp_def)
  define m where "m = nat (- ulp_exp x)"
  have ulp: "ulp x * 2 ^ m = 1"
    using e powr_realpow [of 2 m] powr_add [of 2 "of_int (ulp_exp x)" "real m"] by (simp add: ulp_def m_def)
  then have inv: "1 / ulp x = 2 ^ m" by (simp add: field_simps)
  have "x / ulp x \<le> of_int k / ulp x" using assms(2) by (intro divide_right_mono) (simp_all add: less_imp_le)
  also have "\<dots> = of_int k * (1 / ulp x)" by simp
  also have "\<dots> = of_int (k * 2 ^ m)" by (simp only: inv of_int_mult of_int_power of_int_numeral)
  finally have "of_int (round_even (x / ulp x)) \<le> (of_int (k * 2 ^ m) :: real)"
    by (simp only: of_int_le_iff round_even_le)
  then have "rnd64 x \<le> of_int (k * 2 ^ m) * ulp x"
    using False by (simp add: rnd64_def mult_right_mono less_imp_le)
  also have "\<dots> = of_int k" using ulp by (simp add: mult.assoc mult.commute)
  finally show ?thesis .
qed

lemma of_count_exact: "\<bar>k\<bar> \<le> 2 ^ 53 \<Longrightarrow> of_count k = of_int k"
  unfolding of_count_def by (rule rnd64_exact_int)

lemma unit_interval: "0 \<le> x \<Longrightarrow> x \<le> 1 \<Longrightarrow> 0 \<le> rnd64 x \<and> rnd64 x \<le> 1"
  using rnd64_le_int [of x 1] by (simp add: rnd64_nonneg)

lemma percentage: "0 \<le> x \<Longrightarrow> x \<le> 1 \<Longrightarrow> 0 \<le> rnd64 (x * 100) \<and> rnd64 (x * 100) \<le> 100"
  using rnd64_le_int [of "x * 100" 100] by (simp add: rnd64_nonneg)

lemma rnd64_numeral [simp]: "rnd64 1 = 1" "rnd64 100 = 100"
  using rnd64_exact_int [of 1] rnd64_exact_int [of 100] by simp_all

lemma share_in_unit:
  assumes "0 \<le> a" "a \<le> b" "0 < b" "b \<le> 2 ^ 53"
  obtains q where "div_double (of_count a) (of_count b) = Some q" "0 \<le> q" "q \<le> 1" "a = 0 \<Longrightarrow> q = 0" "a = b \<Longrightarrow> q = 1"
proof
  have ab: "of_count a = of_int a" "of_count b = of_int b" using assms by (simp_all add: of_count_exact)
  show "div_double (of_count a) (of_count b) = Some (rnd64 (of_int a / of_int b))"
    using assms by (simp add: div_double_def ab)
  have "0 \<le> of_int a / (of_int b :: real)" "of_int a / (of_int b :: real) \<le> 1" using assms by simp_all
  then show "0 \<le> rnd64 (of_int a / of_int b)" "rnd64 (of_int a / of_int b) \<le> 1" using unit_interval by auto
  show "a = 0 \<Longrightarrow> rnd64 (of_int a / of_int b) = 0" by simp
  show "a = b \<Longrightarrow> rnd64 (of_int a / of_int b) = 1" using assms by simp
qed

lemma completion_rate_range:
  assumes "0 \<le> k" "k \<le> n" "0 < n" "n \<le> 2 ^ 53"
  shows "\<exists>r. completion_rate k n = Some r \<and> 0 \<le> r \<and> r \<le> 100 \<and> (k = 0 \<longrightarrow> r = 0) \<and> (k = n \<longrightarrow> r = 100)"
proof -
  from share_in_unit [OF assms] obtain q where "div_double (of_count k) (of_count n) = Some q"
    "0 \<le> q" "q \<le> 1" "k = 0 \<Longrightarrow> q = 0" "k = n \<Longrightarrow> q = 1" by blast
  then show ?thesis using percentage [of q] by (auto simp: completion_rate_def)
qed

lemma success_rate_range:
  assumes "0 \<le> k" "k \<le> n" "0 < n" "n \<le> 2 ^ 53"
  shows "\<exists>r. success_rate k n = Some r \<and> 0 \<le> r \<and> r \<le> 100 \<and> (k = 0 \<longrightarrow> r = 100) \<and> (k = n \<longrightarrow> r = 0)"
proof -
  from share_in_unit [OF assms] obtain q where q: "div_double (of_count k) (of_count n) = Some q"
    "0 \<le> q" "q \<le> 1" "k = 0 \<Longrightarrow> q = 0" "k = n \<Longrightarrow> q = 1" by blast
  then have "0 \<le> rnd64 (1 - q)" "rnd64 (1 - q) \<le> 1" using unit_interval [of "1 - q"] by auto
  then show ?thesis using q percentage [of "rnd64 (1 - q)"] by (auto simp: success_rate_def)
qed

lemma hundred_times:
  assumes "a \<le> b" "0 < b" "b \<le> 2 ^ 46"
  shows "\<exists>r. div_double (rnd64 (100 * rnd64 (real a))) (rnd64 (real b)) = Some r \<and> 0 \<le> r \<and> r \<le> 100"
proof -
  have "rnd64 (real a) = real a" "rnd64 (real b) = real b" "rnd64 (100 * real a) = 100 * real a"
    using binary64.rnd_nat [of a] binary64.rnd_nat [of b] binary64.rnd_nat [of "100 * a"] assms by simp_all
  moreover have "0 \<le> 100 * real a / real b" "100 * real a / real b \<le> 100" using assms by (simp_all add: divide_le_eq)
  then have "0 \<le> rnd64 (100 * real a / real b)" "rnd64 (100 * real a / real b) \<le> 100"
    using rnd64_le_int [of "100 * real a / real b" 100] by (simp_all add: rnd64_nonneg)
  ultimately show ?thesis using assms(2) by (simp add: div_double_def)
qed

lemma read_share_range:
  assumes "unat (reads + writes) = unat reads + unat writes" "0 < unat (reads + writes)" "unat (reads + writes) \<le> 2 ^ 46"
  shows "\<exists>r. read_share reads writes = Some r \<and> 0 \<le> r \<and> r \<le> 100"
  unfolding read_share_def to_double_def using assms by (intro hundred_times) linarith+

section \<open>The counters derived from the elapsed time\<close>

lemma micros_nonneg: "0 \<le> ns \<Longrightarrow> micros ns = ns div 1000"
  by (simp add: micros_def signed_divide_int_def sgn_if)

lemma micros_zero: "micros ns = 0 \<longleftrightarrow> \<bar>ns\<bar> < 1000"
  by (auto simp: micros_def signed_divide_int_def sgn_if)

lemma of_count_zero: "\<bar>k\<bar> \<le> 2 ^ 53 \<Longrightarrow> of_count k = 0 \<longleftrightarrow> k = 0"
  by (simp add: of_count_exact)

lemma micros_bound: "\<bar>ns\<bar> \<le> 2 ^ 62 \<Longrightarrow> \<bar>micros ns\<bar> \<le> 2 ^ 53"
  by (auto simp: micros_def signed_divide_int_def sgn_if abs_mult)

lemma memory_efficiency_range:
  assumes "0 \<le> n" "n < 2 ^ 53" "\<bar>ns\<bar> \<le> 2 ^ 62"
  shows "\<exists>r. memory_efficiency n ns = Some r \<and> 0 \<le> r \<and> r \<le> of_int n"
proof -
  let ?us = "max 1 (micros ns)"
  have us: "of_count ?us = of_int ?us" using micros_bound [OF assms(3)] by (intro of_count_exact) simp
  have one: "1 \<le> (of_int ?us :: real)" by simp
  then have "0 \<le> of_int n / (of_int ?us :: real)" "of_int n / of_int ?us \<le> (of_int n :: real) / 1"
    using assms(1) by (simp, intro divide_left_mono) simp_all
  then have "0 \<le> rnd64 (of_int n / of_int ?us)" "rnd64 (of_int n / of_int ?us) \<le> of_int n"
    using rnd64_le_int [of "of_int n / of_int ?us" n] assms by (simp_all only: rnd64_nonneg div_by_1)
  then show ?thesis
    using one assms by (simp add: memory_efficiency_def div_double_def us of_count_exact)
qed

lemma throughput_infinite:
  assumes "\<bar>ns\<bar> \<le> 2 ^ 62"
  shows "throughput_counters n ns ''throughput'' = Some None \<longleftrightarrow> \<bar>ns\<bar> < 1000"
  using of_count_zero [OF micros_bound [OF assms]]
  by (simp add: throughput_counters_def div_double_def micros_zero)

text \<open>The truncation of the time never makes the throughput smaller, for runs up to 104 days.\<close>

lemma throughput_value:
  assumes "1000 \<le> ns" "ns \<le> 2 ^ 53" "1 \<le> n" "n < 2 ^ 31"
  shows "\<exists>v. throughput_counters n ns ''throughput'' = Some (Some v)
    \<and> of_int n / (of_int ns / 10 ^ 9) * (1 - 1 / 2 ^ 53) \<le> v"
proof -
  define us where "us = ns div 1000"
  let ?x = "of_int (1000000 * n) / of_int us :: real"
  have us: "micros ns = us" "1 \<le> us" "us * 1000 \<le> ns" using assms by (simp_all add: us_def micros_nonneg)
  then have "of_count us = of_int us" using assms by (intro of_count_exact) simp
  moreover have "rnd64 (1000000 * of_count n) = of_int (1000000 * n)"
    using rnd64_exact_int [of "1000000 * n"] of_count_exact [of n] assms by simp
  ultimately have v: "throughput_counters n ns ''throughput'' = Some (Some (rnd64 ?x))"
    using us by (simp add: throughput_counters_def div_double_def)
  have real: "of_int us * 1000 \<le> (of_int ns :: real)" "1 \<le> (of_int us :: real)" "1 \<le> (of_int n :: real)"
    using us assms(3) by (metis of_int_le_iff of_int_mult of_int_numeral, simp_all)
  then have low: "of_int n / (of_int ns / 10 ^ 9) \<le> ?x"
    by (simp add: field_simps)
  have "(of_int ns :: real) \<le> 2 ^ 53" using assms(2) by (metis of_int_le_iff of_int_numeral of_int_power)
  then have "of_int us \<le> (1000000000000000 :: real)" using real by simp
  then have "of_int us * (1 / 1000000000) \<le> (of_int (1000000 * n) :: real)" using real by simp
  then have "1 / 1000000000 \<le> ?x" using real by (simp add: field_simps)
  then have "\<bar>rnd64 ?x - ?x\<bar> \<le> ?x / 2 ^ 53" by (intro rnd64_close tiny)
  then have "?x * (1 - 1 / 2 ^ 53) \<le> rnd64 ?x" by (simp add: right_diff_distrib abs_le_iff)
  moreover have "of_int n / (of_int ns / 10 ^ 9) * (1 - 1 / 2 ^ 53) \<le> ?x * (1 - 1 / (2 :: real) ^ 53)"
    using low by (rule mult_right_mono) simp
  ultimately show ?thesis using v by auto
qed

text \<open>
  C37. The counters that divide by the elapsed time.  After a last iteration of less than a microsecond the
  throughput is not finite, in each of the seven benchmarks that report it; after a longer one,
  of up to 104 days, it is finite and, but for one rounding, never below the number of tasks per
  second of that iteration.  \<open>memory_efficiency\<close>, which divides by at least one, is always between 0 and
  the number of tasks.
\<close>

theorem timing_counters:
  assumes "1 \<le> n" "n < 2 ^ 31" "\<bar>ns\<bar> \<le> 2 ^ 53" "int (Suc (length its)) * n < 2 ^ 63"
  shows "list_all (\<lambda>rep. (reported rep ''throughput'' = Some None \<longleftrightarrow> \<bar>ns\<bar> < 1000)
      \<and> (1000 \<le> ns \<longrightarrow> (\<exists>v. reported rep ''throughput'' = Some (Some v)
        \<and> of_int n / (of_int ns / 10 ^ 9) * (1 - 1 / 2 ^ 53) \<le> v)))
      [thread_pool_cpu_bound_report n (its @ [ns]), async_cpu_bound_report n (its @ [ns]),
       launch_async_report n (its @ [ns]), launch_deferred_report n (its @ [ns]), promise_report n (its @ [ns]),
       coroutines_cpu_bound_report n (its @ [ns]), threads_cpu_bound_report n (its @ [ns])]
    \<and> (\<exists>r. reported (coroutines_high_task_count_report n (its @ [ns])) ''memory_efficiency'' = Some (Some r)
      \<and> 0 \<le> r \<and> r \<le> of_int n)"
proof -
  have "0 \<le> int (Suc (length its)) * n" using assms(1) by simp
  then have items: "mul_int64 (int (length (its @ [ns]))) n = Some (int (Suc (length its)) * n)"
    using assms(4) by (simp add: mul_int64_def)
  let ?rate = "throughput_counters n ns ''throughput''"
  have dom: "?rate \<noteq> None" by (simp add: throughput_counters_def)
  have last_it: "reported rep ''throughput'' = ?rate"
    if "user_counters (the rep) = after_iterations (throughput_counters n) (its @ [ns])" "rep \<noteq> None" for rep
    using that dom by (auto simp: reported_def map_add_Some_iff split: option.splits)
  have "list_all (\<lambda>rep. reported rep ''throughput'' = ?rate)
      [thread_pool_cpu_bound_report n (its @ [ns]), async_cpu_bound_report n (its @ [ns]),
       launch_async_report n (its @ [ns]), launch_deferred_report n (its @ [ns]), promise_report n (its @ [ns]),
       coroutines_cpu_bound_report n (its @ [ns]), threads_cpu_bound_report n (its @ [ns])]"
    by (simp add: last_it items thread_pool_cpu_bound_report_def async_cpu_bound_report_def launch_async_report_def
        launch_deferred_report_def promise_report_def coroutines_cpu_bound_report_def threads_cpu_bound_report_def
        del: after_iterations_snoc length_append)
  moreover have "?rate = Some None \<longleftrightarrow> \<bar>ns\<bar> < 1000" using assms(3) by (intro throughput_infinite) simp
  moreover have "1000 \<le> ns \<Longrightarrow> \<exists>v. ?rate = Some (Some v) \<and> of_int n / (of_int ns / 10 ^ 9) * (1 - 1 / 2 ^ 53) \<le> v"
    using assms by (intro throughput_value) simp_all
  moreover have "reported (coroutines_high_task_count_report n (its @ [ns])) ''memory_efficiency'' = Some (memory_efficiency n ns)"
    by (simp only: coroutines_high_task_count_report_def items) (simp add: reported_def)
  moreover have "\<exists>r. memory_efficiency n ns = Some r \<and> 0 \<le> r \<and> r \<le> of_int n"
    using assms by (intro memory_efficiency_range) simp_all
  ultimately show ?thesis by simp
qed

theorem timing_counters_witness:
  "reported (promise_report 8 [1500, 999]) ''throughput'' = Some None
    \<and> (\<exists>v. reported (coroutines_cpu_bound_report 8 [999, 1500]) ''throughput'' = Some (Some v)
      \<and> 8 / (1500 / 10 ^ 9) * (1 - 1 / 2 ^ 53) \<le> v)"
  using timing_counters [of 8 999 "[1500]"] timing_counters [of 8 1500 "[999]"] by simp

end
