(* ===== verification/Report_Counts.thy ===== *)
theory Report_Counts
  imports Reports Semaphore_Session Condvar_Session Rw_Bench Task_Bench Coroutine_Runs
begin

text \<open>
  The reports of complete runs: the final states that the benchmarks' iterations end in, put into the
  counters and the item counts that are reported from them.
\<close>

section \<open>The items\<close>

text \<open>The numbers that an iteration has handled, read off its final state.\<close>

definition consumed_items :: "('t, 'q \<times> tallies) conf \<Rightarrow> nat" where
  "consumed_items conf = unat (items_consumed (snd (snd conf)))"

definition trackers :: "('t, 'q \<times> tallies) conf \<Rightarrow> variance_tracker \<times> variance_tracker" where
  "trackers conf = (producer_tracker (snd (snd conf)), consumer_tracker (snd (snd conf)))"

definition taken_items :: "('t, cv_queue \<times> unit) conf \<Rightarrow> nat" where
  "taken_items conf = length (cv_out (fst (snd conf)))"

definition finished_coroutines :: "('t, 'r coro) conf \<Rightarrow> nat" where
  "finished_coroutines conf = length (filter id (done_flags (snd conf)))"

lemma sum_list_all: "list_all (\<lambda>x. f x = k) xs \<Longrightarrow> (\<Sum>x\<leftarrow>xs. f x) = length xs * k" for f :: "'a \<Rightarrow> nat"
  by (induction xs) simp_all

lemma list_all_imp: "list_all P xs \<Longrightarrow> (\<And>x. P x \<Longrightarrow> Q x) \<Longrightarrow> list_all Q xs"
  by (simp add: list_all_iff)

lemma spsc_items:
  assumes "list_all (session_done (spsc_session cap)) runs" "length runs * 10000 < 2 ^ 63"
  shows "reported_items (spsc_report w (length runs)) = int (\<Sum>conf\<leftarrow>runs. consumed_items conf)"
proof -
  have "list_all (\<lambda>conf. consumed_items conf = 10000) runs"
    using assms(1) by (rule list_all_imp)
      (auto simp: session_done_def spsc_session_def consumed_items_def)
  then show ?thesis
    using sum_list_all [of consumed_items 10000 runs] items_of_nat [OF assms(2)] by (simp add: spsc_report_def)
qed

lemma mpmc_skipped: "n < 2 \<Longrightarrow> mpmc_report (of_nat n) its = Inl ''Need at least 1 producer and 1 consumer''"
  by (cases n) (auto simp: mpmc_report_def Let_def less_Suc_eq)

lemma mpmc_both_kinds:
  assumes "2 \<le> n" "n \<le> 2 ^ 50"
  shows "(of_nat n :: uint64) div 2 = of_nat (n div 2)"
    and "(of_nat (n div 2) :: uint64) \<noteq> 0" "of_nat n - (of_nat (n div 2) :: uint64) \<noteq> 0"
proof -
  have half: "(of_nat n :: uint64) div 2 = of_nat (n div 2)" using assms(2) by (intro half_threads) simp
  have rest: "of_nat n - of_nat (n div 2) = (of_nat (n - n div 2) :: uint64)" by (simp add: of_nat_diff)
  have pos: "(of_nat k :: uint64) \<noteq> 0" if "0 < k" "k \<le> n" for k
  proof -
    have "unat (of_nat k :: uint64) = k" using that assms(2) by (intro unat_small) simp
    then show ?thesis using that by auto
  qed
  have ne: "(of_nat (n div 2) :: uint64) \<noteq> 0" "of_nat n - (of_nat (n div 2) :: uint64) \<noteq> 0"
    unfolding rest using assms(1) by (intro pos; simp)+
  show "(of_nat n :: uint64) div 2 = of_nat (n div 2)" by (rule half)
  show "(of_nat (n div 2) :: uint64) \<noteq> 0" "of_nat n - (of_nat (n div 2) :: uint64) \<noteq> 0" by (rule ne)+
qed

lemma mpmc_runs: "2 \<le> n \<Longrightarrow> n \<le> 2 ^ 50 \<Longrightarrow> \<exists>rep. mpmc_report (of_nat n) its = Inr rep"
  using mpmc_both_kinds [of n] by (simp add: mpmc_report_def Let_def)

lemma mpmc_items:
  assumes "list_all (session_done (mpmc_session n)) runs" "2 \<le> n" "n \<le> 2 ^ 50"
    and "length runs * (n div 2 * 1000) < 2 ^ 63"
  shows "\<exists>rep. mpmc_report (of_nat n) (map trackers runs) = Inr rep
    \<and> reported_items rep = int (\<Sum>conf\<leftarrow>runs. consumed_items conf)"
proof -
  have small: "n div 2 * 1000 < 2 ^ 64" using assms(3) by simp
  have "list_all (\<lambda>conf. consumed_items conf = n div 2 * 1000) runs"
    using assms(1) by (rule list_all_imp)
      (use unat_small [OF small] in \<open>auto simp: session_done_def mpmc_session_def consumed_items_def\<close>)
  then have sum: "(\<Sum>conf\<leftarrow>runs. consumed_items conf) = length runs * (n div 2 * 1000)" by (rule sum_list_all)
  have "items_of (of_nat (length runs) * (of_nat (n div 2) * 1000)) = int (length runs * (n div 2 * 1000))"
    using items_of_nat [OF assms(4)] by simp
  then show ?thesis
    using mpmc_both_kinds [OF assms(2,3)] by (simp add: mpmc_report_def mpmc_end_report_def Let_def sum)
qed

lemma condvar_items:
  assumes "list_all (condvar_done N p c) runs" "p dvd N" "length runs * N < 2 ^ 63"
  shows "\<exists>rep. pc_condvar_report (int N) (length runs) = Some rep
    \<and> reported_items rep = int (\<Sum>conf\<leftarrow>runs. taken_items conf)"
proof -
  have "taken_items conf = N" if "condvar_done N p c conf" for conf
  proof -
    obtain ts q u where conf: "conf = (ts, (q, u))" by (cases conf) auto
    then have "mset (cv_out q) = repeat_mset p (mset (map int [0..<N div p]))"
      using that by (simp add: condvar_done_def Let_def)
    then have "size (mset (cv_out q)) = p * (N div p)" by simp
    then show ?thesis using assms(2) conf by (simp add: taken_items_def)
  qed
  then have "list_all (\<lambda>conf. taken_items conf = N) runs" using assms(1) by (simp add: list_all_iff)
  then have "(\<Sum>conf\<leftarrow>runs. taken_items conf) = length runs * N" by (rule sum_list_all)
  then show ?thesis using mul_int64_nat [OF assms(3)] by (simp add: pc_condvar_report_def)
qed

lemma coroutine_items:
  assumes "list_all (coro_done body n) runs" "length runs * n < 2 ^ 63" "length its = length runs"
  shows "mul_int64 (int (length its)) (int n) = Some (int (\<Sum>conf\<leftarrow>runs. finished_coroutines conf))"
proof -
  have "list_all (\<lambda>conf. finished_coroutines conf = n) runs"
    using assms(1) by (rule list_all_imp) (auto simp: coro_done_def finished_coroutines_def)
  then have "(\<Sum>conf\<leftarrow>runs. finished_coroutines conf) = length runs * n" by (rule sum_list_all)
  then show ?thesis using mul_int64_nat [OF assms(2)] assms(3) by simp
qed

lemma rw_items:
  assumes "rw_reported n size0 ops pct draw (ts, (d, c))" "n * ops < 2 ^ 63"
  shows "items_of (total_reads c + total_writes c) = int (n * ops)"
proof -
  have "total_reads c + total_writes c = of_nat (n * ops)" using assms(1) unfolding rw_reported_def by blast
  then show ?thesis using items_of_nat [OF assms(2)] by (simp only:)
qed

text \<open>
  C17. Item counts of the benchmarks that multiply by the number of iterations, for any number of
  iterations, each in a final state of its runs: the items reported are the items consumed in all
  iterations, for the two semaphore benchmarks and for PC\_CondVar when its producers divide the items
  evenly, and the coroutines finished in all iterations, for the four coroutine benchmarks.  With
  fewer than two threads ProducerConsumer\_MPMC\_Semaphore reports an error instead.
\<close>

theorem items_reported:
  assumes "list_all (session_done (spsc_session cap)) s_runs" "length s_runs * 10000 < 2 ^ 63"
    and "list_all (session_done (mpmc_session n)) m_runs" "2 \<le> n" "n \<le> 2 ^ 50" "length m_runs * (n div 2 * 1000) < 2 ^ 63"
    and "list_all (condvar_done N p c) c_runs" "p dvd N" "length c_runs * N < 2 ^ 63"
    and "list_all (coro_done body k) t_runs" "length t_runs * k < 2 ^ 63" "length its = length t_runs"
  shows "reported_items (spsc_report w (length s_runs)) = int (\<Sum>conf\<leftarrow>s_runs. consumed_items conf)
    \<and> (\<exists>rep. mpmc_report (of_nat n) (map trackers m_runs) = Inr rep
      \<and> reported_items rep = int (\<Sum>conf\<leftarrow>m_runs. consumed_items conf))
    \<and> (m < 2 \<longrightarrow> mpmc_report (of_nat m) skipped = Inl ''Need at least 1 producer and 1 consumer'')
    \<and> map_option reported_items (pc_condvar_report (int N) (length c_runs)) = Some (int (\<Sum>conf\<leftarrow>c_runs. taken_items conf))
    \<and> list_all (\<lambda>rep. map_option reported_items rep = Some (int (\<Sum>conf\<leftarrow>t_runs. finished_coroutines conf)))
      [coroutines_cpu_bound_report (int k) its, coroutines_io_bound_report (int k) its,
       coroutines_high_task_count_report (int k) its, coroutines_mixed_report (int k) its]"
proof -
  note coros = coroutine_items [OF assms(10,11,12)]
  have "list_all (\<lambda>rep. map_option reported_items rep = Some (int (\<Sum>conf\<leftarrow>t_runs. finished_coroutines conf)))
      [coroutines_cpu_bound_report (int k) its, coroutines_io_bound_report (int k) its,
       coroutines_high_task_count_report (int k) its, coroutines_mixed_report (int k) its]"
    unfolding coroutines_cpu_bound_report_def coroutines_io_bound_report_def coroutines_high_task_count_report_def
      coroutines_mixed_report_def coros by simp
  then show ?thesis
    using spsc_items [OF assms(1,2)] mpmc_items [OF assms(3-6)] mpmc_skipped condvar_items [OF assms(7-9)] by fastforce
qed

lemma spsc_final: "\<exists>conf. session_done (spsc_session 1) conf"
  and mpmc_final: "\<exists>conf. session_done (mpmc_session 2) conf"
  using spsc.final_reachable [of 0, OF rtranclp.rtrancl_refl] mpmc.final_reachable [of 0, OF rtranclp.rtrancl_refl]
  by (auto simp: numeral_2_eq_2)

lemma condvar_final: "\<exists>conf. condvar_done 1000000 2 2 conf"
  using live_interleaving.final_reachable [OF condvar_live [of 1000000 1 1] rtranclp.rtrancl_refl]
  by (auto simp: numeral_2_eq_2)

lemma coro_final: "\<exists>conf. coro_done body k conf"
  using live_interleaving.final_reachable [OF coro_live rtranclp.rtrancl_refl] by blast

theorem items_reported_witness:
  "\<exists>s m c t. session_done (spsc_session 1) s \<and> reported_items (spsc_report 1 1) = int (consumed_items s)
    \<and> session_done (mpmc_session 2) m
    \<and> (\<exists>rep. mpmc_report 2 [trackers m] = Inr rep \<and> reported_items rep = int (consumed_items m))
    \<and> condvar_done 1000000 2 2 c \<and> map_option reported_items (pc_condvar_report 1000000 1) = Some (int (taken_items c))
    \<and> coro_done (async_io_task 1000) 16 t
    \<and> map_option reported_items (coroutines_io_bound_report 16 [2000000]) = Some (int (finished_coroutines t))"
proof -
  obtain s m c t where fin: "session_done (spsc_session 1) s" "session_done (mpmc_session 2) m" "condvar_done 1000000 2 2 c"
    "coro_done (async_io_task 1000) 16 t"
    using spsc_final mpmc_final condvar_final coro_final by blast
  then show ?thesis
    using items_reported [of 1 "[s]" 2 "[m]" 1000000 2 2 "[c]" "async_io_task 1000" 16 "[t]" "[2000000]" 1 2 "[]"]
    by (intro exI [of _ s] exI [of _ m] exI [of _ c] exI [of _ t]) simp
qed

section \<open>The rates\<close>

lemma collected_at_most: "snd (exception_handling draws n) \<le> n"
  using length_filter_le [of "\<lambda>x. \<exists>e. x = Some (Inl e)" "map (risky_outcome draws) [0..<n]"]
  by (simp add: exception_handling_def collect_count)

lemma rw_totals_nat:
  assumes "rw_reported m size0 ops pct draw (ts, (d, c))" "m * ops \<le> 2 ^ 46"
  shows "unat (total_reads c + total_writes c) = m * ops"
    and "unat (total_reads c + total_writes c) = unat (total_reads c) + unat (total_writes c)"
proof -
  define a where "a = (\<Sum>tid < m. reads_of pct draw tid ops)"
  have R: "total_reads c = of_nat a" and RW: "total_reads c + total_writes c = of_nat (m * ops)"
    using assms(1) unfolding rw_reported_def a_def by blast+
  have "reads_of pct draw tid ops \<le> ops" for tid
    by (rule order_trans [OF le_add1 eq_refl [OF reads_and_writes]])
  then have a: "a \<le> m * ops" using sum_bounded_above [of "{..<m}" "\<lambda>tid. reads_of pct draw tid ops" ops] by (simp add: a_def)
  have "total_writes c = (total_reads c + total_writes c) - total_reads c" by simp
  also have "\<dots> = of_nat (m * ops) - total_reads c" unfolding RW by (rule refl)
  also have "\<dots> = of_nat (m * ops) - of_nat a" unfolding R by (rule refl)
  also have "\<dots> = of_nat (m * ops - a)" using a by (simp only: of_nat_diff)
  finally have W: "total_writes c = of_nat (m * ops - a)" .
  show total: "unat (total_reads c + total_writes c) = m * ops"
    unfolding RW using assms(2) by (intro unat_small) simp
  have "unat (total_reads c) = a" "unat (total_writes c) = m * ops - a"
    unfolding R W using a assms(2) by (intro unat_small; simp)+
  then show "unat (total_reads c + total_writes c) = unat (total_reads c) + unat (total_writes c)"
    using a total by simp
qed

text \<open>
  C36. The rates that are reported in per cent lie between 0 and 100, in the floating-point arithmetic of
  the code: the success rate of StdAsync\_ExceptionHandling whatever is drawn, and it is exactly 100 when no
  task throws; the completion rate of StdAsync\_Timeout whichever futures are ready in time, and it is
  exactly 100 when none times out; and the share of the reads in every final state of the four
  reader/writer benchmarks.
\<close>

theorem rates_in_range:
  assumes "0 < n" "n < 2 ^ 31" and "timeout_counts is_ready n = (completed, timeouts)"
    and "rw_reported m size0 ops pct draw (ts, (d, c))" "0 < m * ops" "m * ops \<le> 2 ^ 46"
  shows "(\<exists>r. reported (exception_report (int n) (its @ [(ns, int (snd (exception_handling draws n)))])) ''success_rate'' = Some (Some r)
      \<and> 0 \<le> r \<and> r \<le> 100 \<and> (snd (exception_handling draws n) = 0 \<longrightarrow> r = 100))
    \<and> (\<exists>r. reported (timeout_report (int n) (timed @ [(ns_t, int completed, int timeouts)])) ''completion_rate'' = Some (Some r)
      \<and> 0 \<le> r \<and> r \<le> 100 \<and> (timeouts = 0 \<longrightarrow> r = 100))
    \<and> list_all (\<lambda>rep. \<exists>r. user_counters rep ''read_percentage'' = Some (Some r) \<and> 0 \<le> r \<and> r \<le> 100)
      [read_heavy_report (total_reads c) (total_writes c) (reader_tracker c) (writer_tracker c),
       balanced_report (total_reads c) (total_writes c), exclusive_report (total_reads c) (total_writes c),
       write_heavy_report (total_reads c) (total_writes c)]"
proof (intro conjI)
  show "\<exists>r. reported (exception_report (int n) (its @ [(ns, int (snd (exception_handling draws n)))])) ''success_rate'' = Some (Some r)
      \<and> 0 \<le> r \<and> r \<le> 100 \<and> (snd (exception_handling draws n) = 0 \<longrightarrow> r = 100)"
    using success_rate_range [of "int (snd (exception_handling draws n))" "int n"] collected_at_most [of draws n] assms(1,2)
    by (auto simp: reported_def exception_report_def)
  have "completed + timeouts = n" using timeout_counts_sum [of is_ready n] assms(3) by simp
  then show "\<exists>r. reported (timeout_report (int n) (timed @ [(ns_t, int completed, int timeouts)])) ''completion_rate'' = Some (Some r)
      \<and> 0 \<le> r \<and> r \<le> 100 \<and> (timeouts = 0 \<longrightarrow> r = 100)"
    using completion_rate_range [of "int completed" "int n"] assms(1,2) by (auto simp: reported_def timeout_report_def)
  have "\<exists>r. read_share (total_reads c) (total_writes c) = Some r \<and> 0 \<le> r \<and> r \<le> 100"
    using rw_totals_nat [OF assms(4,6)] assms(5,6) by (intro read_share_range) simp_all
  then show "list_all (\<lambda>rep. \<exists>r. user_counters rep ''read_percentage'' = Some (Some r) \<and> 0 \<le> r \<and> r \<le> 100)
      [read_heavy_report (total_reads c) (total_writes c) (reader_tracker c) (writer_tracker c),
       balanced_report (total_reads c) (total_writes c), exclusive_report (total_reads c) (total_writes c),
       write_heavy_report (total_reads c) (total_writes c)]"
    by (auto simp: read_heavy_report_def balanced_report_def exclusive_report_def write_heavy_report_def rw_counters_def)
qed

text \<open>One thread that has drawn one read and one write, and sixteen tasks of which none throws or times out.\<close>

theorem rates_in_range_witness:
  "reported (exception_report 16 [(2500000, 0)]) ''success_rate'' = Some (Some 100)
    \<and> reported (timeout_report 16 [(100200000, 16, 0)]) ''completion_rate'' = Some (Some 100)
    \<and> (\<exists>r. user_counters (balanced_report 1 1) ''read_percentage'' = Some (Some r) \<and> 0 \<le> r \<and> r \<le> 100)"
proof -
  let ?c = "\<lparr>reader_tracker = variance_tracker_ctor 1, writer_tracker = variance_tracker_ctor 1,
    total_reads = 1, total_writes = 1\<rparr>"
  have ready: "timeout_counts (\<lambda>i. True) 16 = (16, 0)" by (simp add: timeout_counts_def upt_rec)
  have draws: "snd (exception_handling (\<lambda>i. 1) 16) = 0"
  proof -
    have "\<not> (1 :: real) < rnd64 (1 / 10)" using unit_interval [of "1 / 10"] by auto
    then have "\<not> (\<exists>e. risky_outcome (\<lambda>i. 1) i = Some (Inl e))" for i by (simp add: risky_outcome_throws)
    then show ?thesis by (simp add: exception_handling_def collect_count filter_map comp_def)
  qed
  have "rw_reported 1 1000 2 70 (\<lambda>tid j. if j = 0 then 10 else 80) (script_end 1, (rw_data_ctor 1000, ?c))"
    by (simp add: rw_reported_def rw_ready_ctor reads_of_def upt_rec)
  from rates_in_range [OF _ _ ready this, where its = "[]" and timed = "[]" and ns = 2500000 and ns_t = 100200000
      and draws = "\<lambda>i. 1"]
  show ?thesis by (auto simp: draws)
qed

end
