(* ===== verification/Smoke_Test.thy ===== *)
theory Smoke_Test
  imports Platform Spin_Test Semaphore_Session
begin

text \<open>
  tests/test\_smoke.cpp as a whole: its expectations in order, and the exit status of \<open>main\<close>.  The
  contended parts are the runs of \<open>Spin_Test\<close> and of the session of \<open>Semaphore_Session\<close>.
\<close>

text \<open>\<open>expect\<close>: a condition that does not hold adds a failure.\<close>

fun expect :: "bool \<Rightarrow> nat \<Rightarrow> nat" where
  "expect cond failures = (if \<not> cond then Suc failures else failures)"

definition failures_of :: "bool list \<Rightarrow> nat" where
  "failures_of conds = foldl (\<lambda>failures cond. expect cond failures) 0 conds"

definition test_spinlock :: "32 word \<Rightarrow> bool list" where
  "test_spinlock counter = spin_expectations @ [counter = of_nat (4 * 10000)]"

definition test_semaphore_queue :: "uint64 \<Rightarrow> bool list" where
  "test_semaphore_queue consumed =
     map2 (=) queue_expectations (map Some [Pushed True, Pushed True, Popped (Some 1), Popped (Some 2), Void,
       Observed 1, Pushed False, Popped None]) @ [consumed = 100]"

definition test_padded_and_affinity :: "32 word \<Rightarrow> bool list" where
  "test_padded_and_affinity hw =
     (let counter = \<lparr>contents = (0 :: 32 word)\<rparr>; (_, counter) = fetch_add 1 counter
      in [atomic_load counter = 1, 1 \<le> get_num_logical_cores hw, True])"

text \<open>\<open>main\<close>: 0 is \<open>EXIT_SUCCESS\<close>.\<close>

definition smoke_main :: "32 word \<Rightarrow> uint64 \<Rightarrow> 32 word \<Rightarrow> int" where
  "smoke_main counter consumed hw =
     (if failures_of (test_spinlock counter @ test_semaphore_queue consumed @ test_padded_and_affinity hw) \<noteq> 0
      then 1 else 0)"

lemma failures_of_none: "list_all id conds \<Longrightarrow> failures_of conds = 0"
  unfolding failures_of_def by (induction conds) simp_all

lemma smoke_main_success:
  assumes "counter = of_nat (4 * 10000)" "consumed = 100"
  shows "sint hw < 0 \<or> smoke_main counter consumed hw = 0"
proof (cases "sint hw < 0")
  case False
  then have "1 \<le> get_num_logical_cores hw" using logical_cores_pos [of hw] by simp
  then have "list_all id (test_padded_and_affinity hw)"
    by (simp add: test_padded_and_affinity_def fetch_add_def atomic_load_def)
  moreover have "list_all id (test_spinlock counter)" using assms(1) by (simp add: test_spinlock_def spin_expectations_met)
  moreover have "list_all id (test_semaphore_queue consumed)"
    using assms(2) by (simp add: test_semaphore_queue_def queue_expectations_met)
  ultimately show ?thesis by (simp add: smoke_main_def failures_of_none)
qed simp

text \<open>
  C38. The smoke test passes: the contended test of the spinlock and the queue session finish in every
  run, within a bound on their moves (a failed spin is none), and the values of the counters that
  they end with make \<open>main\<close> return \<open>EXIT_SUCCESS\<close>, on any machine whose number of hardware threads
  fits an \<open>int\<close> or is unknown.
\<close>

theorem smoke_test_succeeds:
  "finishes (test_step 4 10000) (test_start 4)
      (\<lambda>conf. test_passed 4 conf \<and> (sint hw < 0 \<or> smoke_main (snd (snd conf)) 100 hw = 0)) 280020
    \<and> finishes (session_step smoke_session) (session_start smoke_session)
      (\<lambda>conf. session_done smoke_session conf
        \<and> (sint hw < 0 \<or> smoke_main (of_nat (4 * 10000)) (items_consumed (snd (snd conf))) hw = 0)) 3575"
proof
  have counter: "snd (snd conf) = of_nat (4 * 10000)" if "test_inv 4 10000 conf" "test_passed 4 conf" for conf
    using that by (cases conf) (auto simp: test_passed_def elim!: test_invE)
  show "finishes (test_step 4 10000) (test_start 4)
      (\<lambda>conf. test_passed 4 conf \<and> (sint hw < 0 \<or> smoke_main (snd (snd conf)) 100 hw = 0)) 280020"
  proof (rule smoke.finishes_with)
    show "finishes (test_step 4 10000) (test_start 4) (test_passed 4) 280020"
      using smoke_test_passes [of 4 10000] by simp
  qed (use smoke_main_success [OF counter refl] in blast)
  have consumed: "items_consumed (snd (snd conf)) = 100" if "session_done smoke_session conf" for conf
    using that by (cases conf) (auto simp: session_done_def smoke_session_def)
  show "finishes (session_step smoke_session) (session_start smoke_session)
      (\<lambda>conf. session_done smoke_session conf
        \<and> (sint hw < 0 \<or> smoke_main (of_nat (4 * 10000)) (items_consumed (snd (snd conf))) hw = 0)) 3575"
    by (rule finishes_mono [OF smoke_session_finishes]) (use smoke_main_success [OF refl consumed] in blast)+
qed

end
