(* ===== verification/Memory_Order.thy ===== *)
theory Memory_Order
  imports Prelude
begin

text \<open>
  The memory orders that the source passes to its atomic operations, and what they are for: the
  happens-before relation of C++ over the history of a run, and data races.  A component is given a
  history by logging, next to each step of its stepper, the memory accesses that this step performs
  (\<open>logged\<close>); the log is read by no step, so that every run has one.  Release sequences and fences
  are left out, which makes happens-before smaller and freedom from races stronger.
\<close>

section \<open>Memory orders and accesses\<close>

datatype memory_order = Relaxed | Acquire | Release | Acq_Rel | Seq_Cst

fun acquires :: "memory_order \<Rightarrow> bool" where
  "acquires Relaxed = False"
| "acquires Release = False"
| "acquires _ = True"

fun releases :: "memory_order \<Rightarrow> bool" where
  "releases Relaxed = False"
| "releases Acquire = False"
| "releases _ = True"

text \<open>
  What a thread does: it creates, starts as, ends as and joins threads, accesses atomics \<open>'a\<close> (an
  update is a read-modify-write operation) and plain variables \<open>'v\<close>.
\<close>

datatype ('a, 'v) action =
    Create nat | Begin | Finish | Joined nat
  | Atomic_Read 'a memory_order | Atomic_Write 'a memory_order | Atomic_Update 'a memory_order
  | Plain_Read 'v | Plain_Write 'v

type_synonym ('a, 'v) history = "(nat \<times> ('a, 'v) action) list"

fun modifies :: "'a \<Rightarrow> ('a, 'v) action \<Rightarrow> bool" where
  "modifies x (Atomic_Write y r) = (x = y)"
| "modifies x (Atomic_Update y r) = (x = y)"
| "modifies x _ = False"

fun release_write :: "'a \<Rightarrow> ('a, 'v) action \<Rightarrow> bool" where
  "release_write x (Atomic_Write y r) = (x = y \<and> releases r)"
| "release_write x (Atomic_Update y r) = (x = y \<and> releases r)"
| "release_write x _ = False"

fun acquire_read :: "'a \<Rightarrow> ('a, 'v) action \<Rightarrow> bool" where
  "acquire_read x (Atomic_Read y r) = (x = y \<and> acquires r)"
| "acquire_read x (Atomic_Update y r) = (x = y \<and> acquires r)"
| "acquire_read x _ = False"

text \<open>The accesses to plain variables, and which pairs of them conflict.\<close>

fun plain :: "('a, 'v) action \<Rightarrow> bool" where
  "plain (Plain_Read v) = True"
| "plain (Plain_Write v) = True"
| "plain _ = False"

fun conflict :: "('a, 'v) action \<Rightarrow> ('a, 'v) action \<Rightarrow> bool" where
  "conflict (Plain_Read v) (Plain_Write w) = (v = w)"
| "conflict (Plain_Write v) (Plain_Read w) = (v = w)"
| "conflict (Plain_Write v) (Plain_Write w) = (v = w)"
| "conflict _ _ = False"

lemma conflict_plain: "conflict x y \<Longrightarrow> plain x \<and> plain y"
  by (induction x y rule: conflict.induct) simp_all

lemma release_write_modifies: "release_write x e \<Longrightarrow> modifies x e"
  by (cases e) auto

section \<open>Happens before\<close>

text \<open>
  The last case: the read takes its value from the last modification before it, and this is a
  release operation while the read is an acquire operation.
\<close>

inductive hb :: "('a, 'v) history \<Rightarrow> nat \<Rightarrow> nat \<Rightarrow> bool" for tr where
  program_order: "i < j \<Longrightarrow> j < length tr \<Longrightarrow> fst (tr ! i) = fst (tr ! j) \<Longrightarrow> hb tr i j"
| thread_start: "i < j \<Longrightarrow> j < length tr \<Longrightarrow> snd (tr ! i) = Create t \<Longrightarrow> tr ! j = (t, Begin) \<Longrightarrow> hb tr i j"
| thread_end: "i < j \<Longrightarrow> j < length tr \<Longrightarrow> tr ! i = (t, Finish) \<Longrightarrow> snd (tr ! j) = Joined t \<Longrightarrow> hb tr i j"
| synchronizes: "i < j \<Longrightarrow> j < length tr \<Longrightarrow> release_write x (snd (tr ! i)) \<Longrightarrow> acquire_read x (snd (tr ! j))
    \<Longrightarrow> (\<And>k. i < k \<Longrightarrow> k < j \<Longrightarrow> \<not> modifies x (snd (tr ! k))) \<Longrightarrow> hb tr i j"
| transitive: "hb tr i j \<Longrightarrow> hb tr j k \<Longrightarrow> hb tr i k"

lemma hb_less: "hb tr i j \<Longrightarrow> i < j \<and> j < length tr"
  by (induction rule: hb.induct) auto

lemma hb_append: "hb tr i j \<Longrightarrow> hb (tr @ es) i j"
proof (induction rule: hb.induct)
  case (program_order i j)
  then show ?case by (intro hb.program_order) (auto simp: nth_append)
next
  case (thread_start i j t)
  then show ?case by (intro hb.thread_start [of i j _ t]) (auto simp: nth_append)
next
  case (thread_end i j t)
  then show ?case by (intro hb.thread_end [of i j _ t]) (auto simp: nth_append)
next
  case (synchronizes i j x)
  then show ?case by (intro hb.synchronizes [of i j _ x]) (auto simp: nth_append)
next
  case (transitive i j k)
  then show ?case by (blast intro: hb.transitive)
qed

text \<open>What a thread does happens before no other thread's events unless it releases something.\<close>

fun publishes :: "('a, 'v) action \<Rightarrow> bool" where
  "publishes (Create t) = True"
| "publishes Finish = True"
| "publishes (Atomic_Write x r) = releases r"
| "publishes (Atomic_Update x r) = releases r"
| "publishes _ = False"

lemma release_write_publishes: "release_write x e \<Longrightarrow> publishes e"
  by (cases e) auto

lemma hb_needs_release:
  "hb tr i j \<Longrightarrow> (\<And>k. i \<le> k \<Longrightarrow> k < length tr \<Longrightarrow> fst (tr ! k) = fst (tr ! i) \<Longrightarrow> \<not> publishes (snd (tr ! k)))
    \<Longrightarrow> fst (tr ! j) = fst (tr ! i)"
proof (induction rule: hb.induct)
  case (thread_start i j t)
  then show ?case using thread_start.prems [of i] by simp
next
  case (thread_end i j t)
  then show ?case using thread_end.prems [of i] by simp
next
  case (synchronizes i j x)
  then show ?case using synchronizes.prems [of i] release_write_publishes by fastforce
next
  case (transitive i j k)
  then have "fst (tr ! j) = fst (tr ! i)" by blast
  moreover have "i < j" using transitive.hyps(1) by (simp add: hb_less)
  ultimately have "fst (tr ! k) = fst (tr ! j)" using transitive.prems by (intro transitive.IH(2)) auto
  then show ?case using \<open>fst (tr ! j) = fst (tr ! i)\<close> by simp
qed simp

text \<open>Two accesses of different threads race when they conflict and neither happens before the other.\<close>

definition race :: "('a, 'v) history \<Rightarrow> nat \<Rightarrow> nat \<Rightarrow> bool" where
  "race tr i j \<longleftrightarrow> i < j \<and> j < length tr \<and> fst (tr ! i) \<noteq> fst (tr ! j)
     \<and> conflict (snd (tr ! i)) (snd (tr ! j)) \<and> \<not> hb tr i j"

definition race_free :: "('a, 'v) history \<Rightarrow> bool" where
  "race_free tr \<longleftrightarrow> (\<forall>i j. \<not> race tr i j)"

section \<open>What a thread has seen\<close>

text \<open>The event \<open>a\<close> is one of thread \<open>t\<close> or happens before one of thread \<open>t\<close>.\<close>

definition seen :: "('a, 'v) history \<Rightarrow> nat \<Rightarrow> nat \<Rightarrow> bool" where
  "seen tr t a \<longleftrightarrow> (\<exists>b < length tr. fst (tr ! b) = t \<and> (a = b \<or> hb tr a b))"

lemma seen_append: "seen tr t a \<Longrightarrow> seen (tr @ es) t a"
  unfolding seen_def by (metis hb_append length_append nth_append trans_less_add1)

lemma seen_own: "a < length tr \<Longrightarrow> fst (tr ! a) = t \<Longrightarrow> seen tr t a"
  by (auto simp: seen_def)

lemma seen_last: "seen (tr @ [(t, e)]) t (length tr)"
  by (rule seen_own) simp_all

lemma seen_before:
  assumes "seen tr t a"
  shows "hb (tr @ [(t, e)]) a (length tr)"
proof -
  obtain b where b: "b < length tr" "fst (tr ! b) = t" "a = b \<or> hb tr a b"
    using assms by (auto simp: seen_def)
  have "hb (tr @ [(t, e)]) b (length tr)"
    using b by (intro hb.program_order) (simp_all add: nth_append)
  then show ?thesis using b(3) by (auto intro: hb.transitive hb_append)
qed

text \<open>What happens before an event that the new event synchronizes with has been seen after it.\<close>

lemma seen_via:
  assumes "hb (tr @ [(t, e)]) c (length tr)" "a = c \<or> hb tr a c"
  shows "seen (tr @ [(t, e)]) t a"
proof -
  have "hb (tr @ [(t, e)]) a (length tr)" using assms by (auto intro: hb.transitive hb_append)
  then show ?thesis by (auto simp: seen_def intro!: exI [of _ "length tr"])
qed

text \<open>A plain access of a thread that has seen all other threads' plain accesses does not race.\<close>

definition access :: "('a, 'v) history \<Rightarrow> nat \<Rightarrow> nat \<Rightarrow> bool" where
  "access tr t a \<longleftrightarrow> a < length tr \<and> fst (tr ! a) = t \<and> plain (snd (tr ! a))"

lemma access_Nil [simp]: "\<not> access [] t a"
  by (simp add: access_def)

lemma access_snoc:
  "access (tr @ [(i, e)]) t a \<longleftrightarrow> access tr t a \<or> (a = length tr \<and> t = i \<and> plain e)"
  by (auto simp: access_def nth_append less_Suc_eq)

lemma access_seen: "access tr t a \<Longrightarrow> seen tr t a"
  by (auto simp: access_def intro: seen_own)

lemma race_free_Nil [simp]: "race_free []"
  by (simp add: race_free_def race_def)

lemma race_free_snoc:
  assumes free: "race_free tr"
    and seen: "\<And>t a. plain e \<Longrightarrow> access tr t a \<Longrightarrow> t \<noteq> i \<Longrightarrow> seen tr i a"
  shows "race_free (tr @ [(i, e)])"
  unfolding race_free_def
proof (intro allI notI)
  fix a b
  assume r: "race (tr @ [(i, e)]) a b"
  show False
  proof (cases "b < length tr")
    case True
    then have "race tr a b" using r by (auto simp: race_def nth_append intro: hb_append)
    then show False using free by (simp add: race_free_def)
  next
    case False
    with r have b: "b = length tr" "a < length tr" and c: "conflict (snd (tr ! a)) e" "fst (tr ! a) \<noteq> i"
      and n: "\<not> hb (tr @ [(i, e)]) a (length tr)"
      by (auto simp: race_def nth_append less_Suc_eq split: if_splits)
    then have "seen tr i a" using conflict_plain [OF c(1)] by (intro seen) (auto simp: access_def)
    then show False using n seen_before by blast
  qed
qed

section \<open>Handing accesses over\<close>

text \<open>The last modification of the atomic \<open>x\<close> is a release, and it comes after the access \<open>a\<close>.\<close>

definition released_after :: "'a \<Rightarrow> ('a, 'v) history \<Rightarrow> nat \<Rightarrow> bool" where
  "released_after x tr a \<longleftrightarrow> (\<exists>c < length tr. (a = c \<or> hb tr a c) \<and> release_write x (snd (tr ! c))
     \<and> (\<forall>k. c < k \<longrightarrow> k < length tr \<longrightarrow> \<not> modifies x (snd (tr ! k))))"

lemma released_after_snoc:
  assumes "released_after x tr a" "\<not> modifies x e"
  shows "released_after x (tr @ [(i, e)]) a"
proof -
  obtain c where "c < length tr" "a = c \<or> hb tr a c" "release_write x (snd (tr ! c))"
    "\<forall>k. c < k \<longrightarrow> k < length tr \<longrightarrow> \<not> modifies x (snd (tr ! k))"
    using assms(1) by (auto simp: released_after_def)
  then show ?thesis using assms(2)
    unfolding released_after_def
    by (intro exI [of _ c]) (auto simp: nth_append less_Suc_eq intro: hb_append)
qed

text \<open>A release by a thread that has seen the access, and an acquire of this release.\<close>

lemma release_after: "seen tr t a \<Longrightarrow> release_write x e \<Longrightarrow> released_after x (tr @ [(t, e)]) a"
  unfolding released_after_def by (intro exI [of _ "length tr"]) (auto intro: seen_before)

lemma acquire_seen:
  assumes "released_after x tr a" "acquire_read x e"
  shows "seen (tr @ [(t, e)]) t a"
proof -
  obtain c where c: "c < length tr" "a = c \<or> hb tr a c" "release_write x (snd (tr ! c))"
    "\<And>k. c < k \<Longrightarrow> k < length tr \<Longrightarrow> \<not> modifies x (snd (tr ! k))"
    using assms(1) by (auto simp: released_after_def)
  have "hb (tr @ [(t, e)]) c (length tr)"
    using c assms(2) by (intro hb.synchronizes [of c _ _ x]) (simp_all add: nth_append)
  then show ?thesis using c(2) by (rule seen_via)
qed

section \<open>Logging the accesses of a stepper\<close>

text \<open>\<open>acts i l l'\<close>: the accesses that thread \<open>i\<close> performs by its step from \<open>l\<close> to \<open>l'\<close>.\<close>

definition logged :: "(nat \<Rightarrow> 'l \<Rightarrow> 'l \<Rightarrow> ('a, 'v) action list) \<Rightarrow> ('l, 'g) stepper
  \<Rightarrow> ('l, 'g \<times> ('a, 'v) history) stepper" where
  "logged acts st i ts s = (case s of (g, tr) \<Rightarrow>
     map (\<lambda>(l, g'). (l, (g', tr @ map (Pair i) (acts i (ts ! i) l)))) (st i ts g))"

lemma logged_iff: "(l, (g', tr')) \<in> set (logged acts st i ts (g, tr)) \<longleftrightarrow>
    (l, g') \<in> set (st i ts g) \<and> tr' = tr @ map (Pair i) (acts i (ts ! i) l)"
  by (auto simp: logged_def)

text \<open>The log is a history variable: the runs of the stepper are those of the logged stepper.\<close>

lemma logged_project:
  "steps (logged acts st) c c' \<Longrightarrow> steps st (fst c, fst (snd c)) (fst c', fst (snd c'))"
proof (induction rule: rtranclp_induct)
  case base
  then show ?case by simp
next
  case (step b c)
  then have "istep st (fst b, fst (snd b)) (fst c, fst (snd c))"
    by (auto simp: logged_def elim!: istep.cases intro: istepI)
  with step.IH show ?case by (rule rtranclp.rtrancl_into_rtrancl)
qed

lemma logged_lift:
  assumes "steps st (ts0, g0) (ts, g)"
  shows "\<exists>tr. steps (logged acts st) (ts0, (g0, tr0)) (ts, (g, tr))"
  using assms
proof (induction "(ts, g)" arbitrary: ts g rule: rtranclp_induct)
  case base
  then show ?case by blast
next
  case (step b)
  obtain us h where b: "b = (us, h)" by force
  then obtain tr where tr: "steps (logged acts st) (ts0, (g0, tr0)) (us, (h, tr))" using step.hyps(3) by blast
  from step.hyps(2) b obtain i l where i: "i < length us" "(l, g) \<in> set (st i us h)" "ts = us[i := l]"
    by (auto elim: istepE)
  then have "istep (logged acts st) (us, (h, tr)) (ts, (g, tr @ map (Pair i) (acts i (us ! i) l)))"
    by (auto simp: logged_iff intro: istepI)
  with tr show ?case by (blast intro: rtranclp.rtrancl_into_rtrancl)
qed

end
