(* ===== verification/Race_Freedom.thy ===== *)
theory Race_Freedom
  imports Memory_Order Counters
begin

text \<open>
  The counters under a lock are plain variables (\<open>padded<uint64_t> counter\<close>), accessed by all
  workers and, before and after the window, by the main thread.  Here every memory access of the
  contention harness and of the critical sections is logged with the memory order that the source
  gives it, and the acquire and release orders of the lock are shown to be enough: no history has a
  data race on the counter.  The proof is about a discipline on histories first (who has created,
  entered, left, joined), which the window follows.
\<close>

section \<open>A lock discipline\<close>

text \<open>The phase of a history: the ids of the threads that were created, have started, are in the
  critical section, have ended and have been joined, and whether the lock is free.\<close>

record phase =
  launched :: "nat set"
  begun :: "nat set"
  critical :: "nat set"
  ended :: "nat set"
  gathered :: "nat set"
  lock_free :: bool

definition known :: "('a, 'v) history \<Rightarrow> nat \<Rightarrow> nat \<Rightarrow> bool" where
  "known tr u t \<longleftrightarrow> (\<forall>a. access tr u a \<longrightarrow> seen tr t a)"

text \<open>An event with the property \<open>q\<close> that comes after all accesses of thread \<open>u\<close>.\<close>

definition marked :: "(nat \<times> ('a, 'v) action \<Rightarrow> bool) \<Rightarrow> ('a, 'v) history \<Rightarrow> nat \<Rightarrow> bool" where
  "marked q tr u \<longleftrightarrow> (\<exists>c < length tr. q (tr ! c) \<and> (\<forall>a. access tr u a \<longrightarrow> hb tr a c))"

definition disciplined :: "'a \<Rightarrow> nat \<Rightarrow> phase \<Rightarrow> ('a, 'v) history \<Rightarrow> bool" where
  "disciplined x n ph tr \<longleftrightarrow> race_free tr
     \<and> (\<forall>t a. access tr t a \<longrightarrow> t \<le> n)
     \<and> (\<forall>t \<in> launched ph. marked (\<lambda>ev. snd ev = Create t) tr 0)
     \<and> (\<forall>t \<in> begun ph. known tr 0 t)
     \<and> (\<forall>t \<in> critical ph. \<forall>u. u \<noteq> 0 \<longrightarrow> known tr u t)
     \<and> (lock_free ph \<longrightarrow> (\<forall>u a. u \<noteq> 0 \<longrightarrow> access tr u a \<longrightarrow> released_after x tr a))
     \<and> (\<forall>t \<in> ended ph. marked (\<lambda>ev. ev = (t, Finish)) tr t)
     \<and> (\<forall>t \<in> gathered ph. known tr t 0)"

lemma disciplinedI:
  assumes "race_free tr" "\<And>t a. access tr t a \<Longrightarrow> t \<le> n"
    "\<And>t. t \<in> launched ph \<Longrightarrow> marked (\<lambda>ev. snd ev = Create t) tr 0"
    "\<And>t. t \<in> begun ph \<Longrightarrow> known tr 0 t"
    "\<And>t u. t \<in> critical ph \<Longrightarrow> u \<noteq> 0 \<Longrightarrow> known tr u t"
    "\<And>u a. lock_free ph \<Longrightarrow> u \<noteq> 0 \<Longrightarrow> access tr u a \<Longrightarrow> released_after x tr a"
    "\<And>t. t \<in> ended ph \<Longrightarrow> marked (\<lambda>ev. ev = (t, Finish)) tr t"
    "\<And>t. t \<in> gathered ph \<Longrightarrow> known tr t 0"
  shows "disciplined x n ph tr"
  unfolding disciplined_def using assms by blast

lemma disciplinedD:
  assumes "disciplined x n ph tr"
  shows "race_free tr" and "access tr t a \<Longrightarrow> t \<le> n"
    and "t \<in> launched ph \<Longrightarrow> marked (\<lambda>ev. snd ev = Create t) tr 0"
    and "t \<in> begun ph \<Longrightarrow> known tr 0 t"
    and "t \<in> critical ph \<Longrightarrow> u \<noteq> 0 \<Longrightarrow> known tr u t"
    and "lock_free ph \<Longrightarrow> u \<noteq> 0 \<Longrightarrow> access tr u a \<Longrightarrow> released_after x tr a"
    and "t \<in> ended ph \<Longrightarrow> marked (\<lambda>ev. ev = (t, Finish)) tr t"
    and "t \<in> gathered ph \<Longrightarrow> known tr t 0"
  using assms unfolding disciplined_def by blast+

lemma disciplined_weaken:
  assumes "disciplined x n ph tr" "launched ph' \<subseteq> launched ph" "begun ph' \<subseteq> begun ph"
    "critical ph' \<subseteq> critical ph" "ended ph' \<subseteq> ended ph" "gathered ph' \<subseteq> gathered ph"
    "lock_free ph' \<longrightarrow> lock_free ph"
  shows "disciplined x n ph' tr"
  using assms by (intro disciplinedI) (blast dest: disciplinedD)+

text \<open>An event that is no plain access leaves what has been seen; only a plain access is new.\<close>

lemma known_snoc: "known tr u t \<Longrightarrow> \<not> plain e \<or> i \<noteq> u \<or> i = t \<Longrightarrow> known (tr @ [(i, e)]) u t"
  by (auto simp: known_def access_snoc intro: seen_append seen_last)

lemma known_self: "known tr t t"
  by (auto simp: known_def intro: access_seen)

lemma marked_snoc: "marked q tr u \<Longrightarrow> \<not> plain e \<or> i \<noteq> u \<Longrightarrow> marked q (tr @ [(i, e)]) u"
  by (auto simp: marked_def nth_append access_snoc less_Suc_eq intro: hb_append)

lemma marked_last: "q (i, e) \<Longrightarrow> \<not> plain e \<Longrightarrow> known tr u i \<Longrightarrow> marked q (tr @ [(i, e)]) u"
  unfolding marked_def known_def by (intro exI [of _ "length tr"]) (auto simp: access_snoc intro: seen_before)

lemmas snoc_intros = known_snoc released_after_snoc marked_snoc race_free_snoc

section \<open>The events that follow the discipline\<close>

lemma disciplined_inert:
  assumes d: "disciplined x n ph tr" and e: "\<not> plain e" "\<not> modifies x e"
  shows "disciplined x n ph (tr @ [(i, e)])"
  by (intro disciplinedI) (use e in \<open>auto simp: access_snoc intro: snoc_intros disciplinedD [OF d]\<close>)

lemma disciplined_inerts:
  "disciplined x n ph tr \<Longrightarrow> list_all (\<lambda>e. \<not> plain e \<and> \<not> modifies x e) es
    \<Longrightarrow> disciplined x n ph (tr @ map (Pair i) es)"
proof (induction es arbitrary: tr)
  case Nil
  then show ?case by simp
next
  case (Cons e es)
  then have "disciplined x n ph (tr @ [(i, e)])" by (simp add: disciplined_inert)
  then have "disciplined x n ph ((tr @ [(i, e)]) @ map (Pair i) es)" using Cons by (intro Cons.IH) simp_all
  then show ?case by simp
qed

lemma disciplined_create:
  assumes "disciplined x n ph tr"
  shows "disciplined x n (ph\<lparr>launched := insert t (launched ph)\<rparr>) (tr @ [(0, Create t)])"
proof -
  have d: "disciplined x n ph (tr @ [(0, Create t)])" using assms by (rule disciplined_inert) simp_all
  have "marked (\<lambda>ev. snd ev = Create t) (tr @ [(0, Create t)]) 0" by (rule marked_last) (simp_all add: known_self)
  then show ?thesis by (intro disciplinedI) (auto intro: disciplinedD [OF d])
qed

lemma marked_sync:
  assumes "marked q tr u" and "\<And>c. c < length tr \<Longrightarrow> q (tr ! c) \<Longrightarrow> hb (tr @ [(t, e)]) c (length tr)"
    and "\<not> plain e"
  shows "known (tr @ [(t, e)]) u t"
  using assms unfolding marked_def known_def access_snoc by (blast intro: seen_via)

lemma disciplined_begin:
  assumes d0: "disciplined x n ph tr" and t: "t \<in> launched ph"
  shows "disciplined x n (ph\<lparr>begun := insert t (begun ph)\<rparr>) (tr @ [(t, Begin)])"
proof -
  have d: "disciplined x n ph (tr @ [(t, Begin)])" using d0 by (rule disciplined_inert) simp_all
  have "known (tr @ [(t, Begin)]) 0 t"
    using disciplinedD(3) [OF d0 t]
    by (rule marked_sync) (auto simp: nth_append intro!: hb.thread_start [of _ _ _ t])
  then show ?thesis by (intro disciplinedI) (auto intro: disciplinedD [OF d])
qed

lemma disciplined_finish:
  assumes d0: "disciplined x n ph tr"
  shows "disciplined x n (ph\<lparr>ended := insert t (ended ph)\<rparr>) (tr @ [(t, Finish)])"
proof -
  have d: "disciplined x n ph (tr @ [(t, Finish)])" using d0 by (rule disciplined_inert) simp_all
  have "marked (\<lambda>ev. ev = (t, Finish)) (tr @ [(t, Finish)]) t" by (rule marked_last) (simp_all add: known_self)
  then show ?thesis by (intro disciplinedI) (auto intro: disciplinedD [OF d])
qed

lemma disciplined_join:
  assumes d0: "disciplined x n ph tr" and t: "t \<in> ended ph"
  shows "disciplined x n (ph\<lparr>gathered := insert t (gathered ph)\<rparr>) (tr @ [(0, Joined t)])"
proof -
  have d: "disciplined x n ph (tr @ [(0, Joined t)])" using d0 by (rule disciplined_inert) simp_all
  have "known (tr @ [(0, Joined t)]) t 0"
    using disciplinedD(7) [OF d0 t]
    by (rule marked_sync) (auto simp: nth_append intro!: hb.thread_end [of _ _ _ t])
  then show ?thesis by (intro disciplinedI) (auto intro: disciplinedD [OF d])
qed

text \<open>Taking the lock by an acquire update, after the last holder's release.\<close>

lemma disciplined_take:
  assumes d: "disciplined x n ph tr" and free: "lock_free ph" and o: "acquires r"
  shows "disciplined x n (ph\<lparr>critical := insert t (critical ph), lock_free := False\<rparr>) (tr @ [(t, Atomic_Update x r)])"
proof -
  let ?tr = "tr @ [(t, Atomic_Update x r)]"
  have "known ?tr u t" if u: "u \<noteq> 0" for u
    using disciplinedD(6) [OF d free u] o unfolding known_def access_snoc by (auto intro!: acquire_seen [where x = x])
  then show ?thesis
    by (intro disciplinedI) (auto simp: access_snoc intro: snoc_intros disciplinedD [OF d])
qed

text \<open>A failed attempt modifies the lock too, but it was held and stays so.\<close>

lemma disciplined_failed:
  assumes d: "disciplined x n ph tr" and "\<not> lock_free ph" "\<not> plain e"
  shows "disciplined x n ph (tr @ [(t, e)])"
  using assms(2,3) by (intro disciplinedI) (auto simp: access_snoc intro: snoc_intros disciplinedD [OF d])

text \<open>An access in the critical section: its thread is alone in there and knows all earlier accesses.\<close>

lemma disciplined_access:
  assumes d: "disciplined x n ph tr" and t: "t \<in> begun ph" "t \<in> critical ph" "t \<notin> ended ph" "t \<notin> gathered ph"
    "t \<noteq> 0" "t \<le> n" and alone: "critical ph \<subseteq> {t}" "\<not> lock_free ph"
  shows "disciplined x n ph (tr @ [(t, e)])"
proof (rule disciplinedI)
  have "seen tr t a" if "access tr u a" for u a
    using disciplinedD(4) [OF d t(1)] disciplinedD(5) [OF d t(2), of u] that by (cases "u = 0") (auto simp: known_def)
  then show "race_free (tr @ [(t, e)])" by (intro race_free_snoc disciplinedD(1) [OF d]) blast
qed (use t alone in \<open>auto simp: access_snoc intro: snoc_intros disciplinedD [OF d]\<close>)

text \<open>Leaving it by a release write.\<close>

lemma disciplined_release:
  assumes d: "disciplined x n ph tr" and t: "t \<in> critical ph" and o: "releases r"
  shows "disciplined x n (ph\<lparr>lock_free := True\<rparr>) (tr @ [(t, Atomic_Write x r)])"
proof (rule disciplinedI)
  fix u a assume "u \<noteq> 0" "access (tr @ [(t, Atomic_Write x r)]) u a"
  then have "seen tr t a" using disciplinedD(5) [OF d t, of u] by (auto simp: known_def access_snoc)
  then show "released_after x (tr @ [(t, Atomic_Write x r)]) a" using o by (intro release_after) simp_all
qed (auto simp: access_snoc intro: snoc_intros disciplinedD [OF d])

text \<open>After all threads are joined, the main thread may access the variable as well.\<close>

lemma disciplined_final:
  assumes d: "disciplined x n ph tr" and all: "{1..n} \<subseteq> gathered ph"
  shows "race_free (tr @ [(0, e)])"
proof (rule race_free_snoc)
  show "race_free tr" using d by (rule disciplinedD)
  fix t a assume a: "access tr t a" "t \<noteq> 0"
  then have "t \<in> gathered ph" using disciplinedD(2) [OF d a(1)] all by (auto simp: Suc_le_eq)
  then show "seen tr 0 a" using disciplinedD(8) [OF d] a(1) by (auto simp: known_def)
qed

section \<open>The accesses of the contention window\<close>

datatype window_atomic = Lock_Flag | Start_Flag | Stop_Flag | Op_Count nat

datatype window_var = Counter

text \<open>The memory orders of include/spinlock.hpp.\<close>

definition lock_order :: memory_order where
  "lock_order = Acquire"

definition unlock_order :: memory_order where
  "unlock_order = Release"

definition try_lock_order :: memory_order where
  "try_lock_order = Acquire"

text \<open>
  The accesses of a step of \<open>window_step\<close>: \<open>taking\<close> and \<open>dropping\<close> are the orders of taking and releasing
  the lock.  The result of the atomic load of \<open>stop\<close> decides whether the worker ends.  The second
  pass of the caller over the counts, for the variance, is left out: it repeats the relaxed reads of
  the first, which order nothing.
\<close>

fun window_acts :: "memory_order \<Rightarrow> memory_order \<Rightarrow> nat \<Rightarrow> nat \<Rightarrow> 'w::len word section_pc role
  \<Rightarrow> 'w word section_pc role \<Rightarrow> (window_atomic, window_var) action list" where
  "window_acts taking dropping n i (Main (Spawn k)) l = (if k < n then [Create (Suc k)] else [])"
| "window_acts taking dropping n i (Main Set_Start) l = [Atomic_Write Start_Flag Release]"
| "window_acts taking dropping n i (Main Set_Stop) l = [Atomic_Write Stop_Flag Release]"
| "window_acts taking dropping n i (Main (Join k)) l = (if k < n then [Joined (Suc k)] else [])"
| "window_acts taking dropping n i (Main Collect) l = map (\<lambda>j. Atomic_Read (Op_Count j) Relaxed) [0..<n]"
| "window_acts taking dropping n i (Worker Unborn) l = [Begin]"
| "window_acts taking dropping n i (Worker Wait_Start) l = [Atomic_Read Start_Flag Acquire]"
| "window_acts taking dropping n i (Worker Loop_Test) l =
     Atomic_Read Stop_Flag Acquire # (if l = Worker Exited then [Finish] else [])"
| "window_acts taking dropping n i (Worker (In_Body Enter)) l = [Atomic_Update Lock_Flag taking]"
| "window_acts taking dropping n i (Worker (In_Body Load)) l = [Plain_Read Counter]"
| "window_acts taking dropping n i (Worker (In_Body (Store v))) l = [Plain_Write Counter]"
| "window_acts taking dropping n i (Worker (In_Body Leave)) l = [Atomic_Write Lock_Flag dropping]"
| "window_acts taking dropping n i (Worker Counting) l = [Atomic_Update (Op_Count (i - 1)) Relaxed]"
| "window_acts taking dropping n i _ l = []"

text \<open>Before the window the main thread has initialized the counter, and \<open>run_contention_window\<close> the counts.\<close>

definition window_log0 :: "nat \<Rightarrow> (window_atomic, window_var) history" where
  "window_log0 n = (0, Plain_Write Counter) # map (\<lambda>j. (0, Atomic_Write (Op_Count j) Relaxed)) [0..<n]"

definition logged_window :: "memory_order \<Rightarrow> memory_order
  \<Rightarrow> (nat \<Rightarrow> 'w::len word section_pc \<Rightarrow> 's \<Rightarrow> (('w word section_pc + bool) \<times> 's) list) \<Rightarrow> nat
  \<Rightarrow> ('w word section_pc role, 's window \<times> (window_atomic, window_var) history) stepper" where
  "logged_window taking dropping body n = logged (window_acts taking dropping n) (window_step body Enter n)"

definition logged_window_start :: "nat \<Rightarrow> 's
  \<Rightarrow> ('w::len word section_pc role, 's window \<times> (window_atomic, window_var) history) conf" where
  "logged_window_start n s = (case window_start n s of (ts, g) \<Rightarrow> (ts, (g, window_log0 n)))"

text \<open>The phase of a state of the window.\<close>

definition workers :: "('w section_pc role \<Rightarrow> bool) \<Rightarrow> 'w section_pc role list \<Rightarrow> nat set" where
  "workers q ts = {t. t \<noteq> 0 \<and> t < length ts \<and> q (ts ! t)}"

definition window_phase :: "nat \<Rightarrow> bool \<Rightarrow> 'w section_pc role list \<Rightarrow> phase" where
  "window_phase n free ts =
     \<lparr>launched = {t. t \<noteq> 0 \<and> spawned (ts ! 0) (t - 1) \<and> t \<le> n},
      begun = workers (\<lambda>l. l \<noteq> Worker Unborn) ts,
      critical = workers (\<lambda>l. \<exists>p. l = Worker (In_Body p) \<and> inside p = 1) ts,
      ended = workers (\<lambda>l. l = Worker Exited) ts,
      gathered = (case ts ! 0 of Main pc \<Rightarrow> {1..joined n pc} | Worker _ \<Rightarrow> {}),
      lock_free = free\<rparr>"

lemma workers_main: "workers q (ts[0 := l]) = workers q ts"
  by (auto simp: workers_def)

lemma workers_update: "Suc j < length ts \<Longrightarrow> workers q (ts[Suc j := l])
    = (if q l then insert (Suc j) (workers q ts) else workers q ts - {Suc j})"
  by (auto simp: workers_def nth_list_update)

lemma workers_Suc: "Suc j \<in> workers q ts \<longleftrightarrow> Suc j < length ts \<and> q (ts ! Suc j)"
  by (simp add: workers_def)

lemmas phase_simps = window_phase_def workers_main workers_update workers_Suc insert_absorb

text \<open>The caller's steps follow the discipline.\<close>

lemma main_disciplined:
  fixes ts :: "'w::len word section_pc role list"
  assumes d: "disciplined Lock_Flag n (window_phase n free ts) tr"
    and ts: "length ts = Suc n" "ts ! 0 = Main pc" and st: "(pc', g') \<in> set (main_step n pc ts g)"
  shows "disciplined Lock_Flag n (window_phase n free (ts[0 := Main pc']))
    (tr @ map (Pair 0) (window_acts taking dropping n 0 (Main pc) (Main pc' :: 'w word section_pc role)))"
proof -
  let ?acts = "window_acts taking dropping n 0 (Main pc) (Main pc' :: 'w word section_pc role)"
  have inert: ?thesis
    if "list_all (\<lambda>e. \<not> plain e \<and> \<not> modifies Lock_Flag e) ?acts" "joined n pc' \<le> joined n pc"
      "\<And>j. j < n \<Longrightarrow> spawned (Main pc' :: 'w word section_pc role) j \<Longrightarrow> spawned (Main pc :: 'w word section_pc role) j"
    by (rule disciplined_weaken [OF disciplined_inerts [OF d that(1)]])
      (use that(2,3) ts in \<open>auto simp: window_phase_def workers_main\<close>)
  show ?thesis
  proof (cases "\<exists>k < n. pc = Spawn k \<or> pc = Join k")
    case False
    then show ?thesis using st by (intro inert; cases pc) (auto simp: list_all_iff split: if_splits)
  next
    case True
    then obtain k where k: "k < n" and "pc = Spawn k \<or> pc = Join k" by blast
    then show ?thesis
    proof (elim disjE)
      assume "pc = Spawn k"
      then show ?thesis
        using disciplined_create [OF d, of "Suc k"] st ts k
        by (auto simp: window_phase_def workers_main elim!: disciplined_weaken)
    next
      assume pc: "pc = Join k"
      then have "Suc k \<in> ended (window_phase n free ts)"
        using st ts k by (auto simp: window_phase_def workers_def split: if_splits)
      then show ?thesis
        using disciplined_join [OF d, of "Suc k"] st ts pc k
        by (auto simp: window_phase_def workers_main split: if_splits elim!: disciplined_weaken)
    qed
  qed
qed

text \<open>
  A client of a lock whose operations have acquire and release order, run by the harness.  The
  invariant adds to that of the window that the log follows the discipline in the window's phase.
\<close>

locale ordered_client = lock_client attempt release held k0 retry work
  for attempt :: "'k \<Rightarrow> (bool \<times> 'k) list" and release and held and k0 and retry and work +
  fixes taking dropping :: memory_order
  assumes taking: "acquires taking" and dropping: "releases dropping"
begin

abbreviation body :: "nat \<Rightarrow> uint64 section_pc \<Rightarrow> 'k \<times> uint64 \<Rightarrow> ((uint64 section_pc + bool) \<times> ('k \<times> uint64)) list" where
  "body \<equiv> \<lambda>tid. locked_section attempt release retry work"

definition race_inv :: "nat \<Rightarrow> (uint64 section_pc role, ('k \<times> uint64) window \<times> (window_atomic, window_var) history) conf \<Rightarrow> bool" where
  "race_inv n c = (case c of (ts, (g, tr)) \<Rightarrow>
     window_inv (section_good held) due snd n (ts, g)
     \<and> disciplined Lock_Flag n (window_phase n (\<not> held (fst (env g))) ts) tr)"

lemma race_inv_start: "race_inv n (logged_window_start n (k0, 0))"
proof -
  have "access (window_log0 n) t a \<Longrightarrow> t = 0" for t a
    by (auto simp: window_log0_def access_def nth_Cons split: nat.splits)
  then have "disciplined Lock_Flag n (window_phase n True (fst (window_start n (k0, 0)))) (window_log0 n)"
    by (intro disciplinedI)
      (auto simp: window_start_def window_phase_def workers_def nth_Cons window_log0_def race_free_def
        race_def conflict_plain split: nat.splits)
  then show ?thesis
    using counted.window_start_inv [of n] start_free
    by (auto simp: race_inv_def logged_window_start_def window_start_def)
qed

text \<open>A worker's steps outside the critical section.\<close>

lemma worker_disciplined:
  fixes ts :: "uint64 section_pc role list" and g g' :: "('k \<times> uint64) window"
  assumes d: "disciplined Lock_Flag n (window_phase n (\<not> held (fst (env g))) ts) tr"
    and j: "length ts = Suc n" "j < n" and pc: "ts ! Suc j = Worker pc" "\<And>p. pc \<noteq> In_Body p"
    and st: "(pc', g') \<in> set (worker_step body Enter j pc ts g)"
  shows "disciplined Lock_Flag n (window_phase n (\<not> held (fst (env g'))) (ts[Suc j := Worker pc']))
    (tr @ map (Pair (Suc j)) (window_acts taking dropping n (Suc j) (Worker pc) (Worker pc')))"
proof -
  let ?acts = "window_acts taking dropping n (Suc j) (Worker pc :: uint64 section_pc role) (Worker pc')"
  have env: "env g' = env g" using st pc(2) by (cases pc) (auto split: if_splits)
  have i: "Suc j < length ts" using j by simp
  have inert: ?thesis
    if "list_all (\<lambda>e. \<not> plain e \<and> \<not> modifies Lock_Flag e) ?acts" "pc \<noteq> Unborn" "pc' \<noteq> Exited"
      "\<And>p. pc' = In_Body p \<Longrightarrow> inside p = 0"
    by (rule disciplined_weaken [OF disciplined_inerts [OF d that(1)]])
      (use that(2-) pc(1) i env in \<open>auto simp: phase_simps\<close>)
  show ?thesis
  proof (cases pc)
    case Unborn
    then have "Suc j \<in> launched (window_phase n (\<not> held (fst (env g))) ts)" "pc' = Pin"
      using st j by (auto simp: window_phase_def split: if_splits)
    then show ?thesis
      using disciplined_begin [OF d, of "Suc j"] env Unborn i
      by (auto simp: phase_simps elim!: disciplined_weaken)
  next
    case Loop_Test
    show ?thesis
    proof (cases "pc' = Exited")
      case True
      have "disciplined Lock_Flag n (window_phase n (\<not> held (fst (env g))) ts)
          (tr @ [(Suc j, Atomic_Read Stop_Flag Acquire)])"
        using d by (rule disciplined_inert) simp_all
      from disciplined_finish [OF this, of "Suc j"] show ?thesis
        using env Loop_Test True pc(1) i
        by (auto simp: phase_simps elim!: disciplined_weaken)
    qed (use st Loop_Test in \<open>intro inert; auto split: if_splits\<close>)
  next
    case (In_Body p)
    then show ?thesis using pc(2) by blast
  qed (use st in \<open>(intro inert; simp split: if_splits)+\<close>)
qed

text \<open>A thread in the section holds the lock and is the only one in there.\<close>

lemma section_owner:
  fixes ts :: "uint64 section_pc role list" and s :: "'k \<times> uint64"
  assumes good: "section_good held (map calling ts) s" and i: "Suc j < length ts"
    and pc: "ts ! Suc j = Worker (In_Body p)" and p: "inside p = 1"
  shows "held (fst s) \<and> critical (window_phase n free ts) \<subseteq> {Suc j} \<and> Suc j \<in> critical (window_phase n free ts)"
proof -
  have "t = Suc j" if "t \<in> critical (window_phase n free ts)" for t
    using that section_good_exclusive [OF good i, of t p] p pc
    by (force simp: window_phase_def workers_def)
  moreover have "case_option 0 inside (map calling ts ! Suc j) \<le> tsum (case_option 0 inside) (map calling ts)"
    using i by (intro tsum_member) simp
  then have "held (fst s)" using good i pc p by (cases s; cases "held (fst s)") (auto simp: section_good_def)
  ultimately show ?thesis using i pc p by (auto simp: phase_simps)
qed

text \<open>The steps of the critical section: taking the lock, the two accesses, leaving.\<close>

lemma section_disciplined:
  fixes ts :: "uint64 section_pc role list" and s s' :: "'k \<times> uint64"
  assumes d: "disciplined Lock_Flag n (window_phase n (\<not> held (fst s)) ts) tr"
    and good: "section_good held (map calling ts) s"
    and j: "length ts = Suc n" "j < n" "\<not> j < joined n mpc" "ts ! 0 = Main mpc"
    and pc: "ts ! Suc j = Worker (In_Body p)"
    and st: "(r, s') \<in> set (body tid p s)"
    and l: "l = (case r of Inl p' \<Rightarrow> In_Body p' | Inr counted \<Rightarrow> if counted then Counting else Loop_Test)"
  shows "disciplined Lock_Flag n (window_phase n (\<not> held (fst s')) (ts[Suc j := Worker l]))
    (tr @ map (Pair (Suc j)) (window_acts taking dropping n (Suc j) (Worker (In_Body p)) (Worker l)))"
proof -
  let ?ph = "window_phase n (\<not> held (fst s)) ts"
  obtain k v where s: "s = (k, v)" by force
  obtain k' v' where s': "s' = (k', v')" by force
  have i: "Suc j < length ts" using j by simp
  have own: "held k \<and> critical ?ph \<subseteq> {Suc j} \<and> Suc j \<in> critical ?ph" if "inside p = 1"
    using section_owner [OF good i pc that] s by simp
  have begun: "Suc j \<in> begun ?ph" "Suc j \<notin> ended ?ph" "Suc j \<notin> gathered ?ph"
    using i j pc by (auto simp: phase_simps)
  show ?thesis
  proof (cases p)
    case Enter
    show ?thesis
    proof (cases "r = Inl Load")
      case True
      then have "\<not> held k" using st s s' Enter taken [of k' k] by (auto split: if_splits)
      then have "disciplined Lock_Flag n (?ph\<lparr>critical := insert (Suc j) (critical ?ph), lock_free := False\<rparr>)
          (tr @ [(Suc j, Atomic_Update Lock_Flag taking)])"
        using s by (intro disciplined_take [OF d] taking) (simp add: window_phase_def)
      moreover have "held k'" using True st s s' Enter taken [of k' k] by (auto split: if_splits)
      ultimately show ?thesis
        using True Enter l i pc s' by (auto simp: phase_simps elim!: disciplined_weaken)
    next
      case False
      then have held: "held k" "k' = k" "l = Loop_Test \<or> l = In_Body Enter"
        using st s s' l Enter refused [of k' k] by (auto split: if_splits)
      have "disciplined Lock_Flag n ?ph (tr @ [(Suc j, Atomic_Update Lock_Flag taking)])"
        using held s by (intro disciplined_failed [OF d]) (simp_all add: window_phase_def)
      then show ?thesis
        using held Enter i pc s s' by (auto simp: phase_simps elim!: disciplined_weaken)
    qed
  next
    case Load
    have "disciplined Lock_Flag n ?ph (tr @ [(Suc j, Plain_Read Counter)])"
      using begun own j Load s by (intro disciplined_access [OF d]) (simp_all add: window_phase_def)
    then show ?thesis
      using Load st s s' l i pc by (auto simp: phase_simps elim!: disciplined_weaken)
  next
    case (Store x)
    have "disciplined Lock_Flag n ?ph (tr @ [(Suc j, Plain_Write Counter)])"
      using begun own j Store s by (intro disciplined_access [OF d]) (simp_all add: window_phase_def)
    then show ?thesis
      using Store st s s' l i pc by (auto simp: phase_simps elim!: disciplined_weaken)
  next
    case (Work m y)
    then show ?thesis
      using d st s s' l i pc by (auto simp: phase_simps split: if_splits elim!: disciplined_weaken)
  next
    case Leave
    have "disciplined Lock_Flag n (?ph\<lparr>lock_free := True\<rparr>) (tr @ [(Suc j, Atomic_Write Lock_Flag dropping)])"
      using own Leave by (intro disciplined_release [OF d] dropping) simp
    then show ?thesis
      using Leave st s s' l i pc own by (auto simp: phase_simps released elim!: disciplined_weaken)
  qed
qed

lemma race_inv_step:
  assumes inv: "race_inv n (ts, (g, tr))" and i: "i < length ts"
    and st: "(l, (g', tr')) \<in> set (logged_window taking dropping body n i ts (g, tr))"
  shows "race_inv n (ts[i := l], (g', tr'))"
proof -
  have win: "window_inv (section_good held) due snd n (ts, g)"
    and d: "disciplined Lock_Flag n (window_phase n (\<not> held (fst (env g))) ts) tr"
    using inv by (auto simp: race_inv_def)
  have lg: "(l, g') \<in> set (window_step body Enter n i ts g)"
    and tr': "tr' = tr @ map (Pair i) (window_acts taking dropping n i (ts ! i) l)"
    using st by (auto simp: logged_window_def logged_iff)
  have "window_inv (section_good held) due snd n (ts[i := l], g')"
    using win i lg by (rule counted.window_step_inv)
  moreover have "disciplined Lock_Flag n (window_phase n (\<not> held (fst (env g'))) (ts[i := l])) tr'"
  proof -
    from win obtain mpc where len: "length ts = Suc n" and m: "ts ! 0 = Main mpc"
      and joined: "\<And>j. j < joined n mpc \<Longrightarrow> ts ! Suc j = Worker Exited"
      and workers: "\<And>j. j < n \<Longrightarrow> \<not> is_main (ts ! Suc j)"
      and good: "section_good held (map calling ts) (env g)"
      by (auto elim: window_invE)
    show ?thesis
    proof (cases i)
      case 0
      then obtain pc' where pc': "l = Main pc'" "(pc', g') \<in> set (main_step n mpc ts g)" using lg m by auto
      then have "env g' = env g" using main_step_frame by blast
      then show ?thesis using main_disciplined [OF d len m pc'(2)] pc' 0 m tr' by simp
    next
      case (Suc j)
      then have j: "j < n" using i len by simp
      then obtain pc where pc: "ts ! Suc j = Worker pc" using workers [of j] by (cases "ts ! Suc j") auto
      obtain pc' where pc': "l = Worker pc'" "(pc', g') \<in> set (worker_step body Enter j pc ts g)"
        using lg Suc pc by auto
      show ?thesis
      proof (cases "\<exists>p. pc = In_Body p")
        case True
        then obtain p where p: "pc = In_Body p" by blast
        then have "\<not> j < joined n mpc" using joined [of j] pc by auto
        moreover obtain r s' where "(r, s') \<in> set (body j p (env g))" "g' = g\<lparr>env := s'\<rparr>"
          "pc' = (case r of Inl p' \<Rightarrow> In_Body p' | Inr counted \<Rightarrow> if counted then Counting else Loop_Test)"
          using pc'(2) p by auto
        ultimately show ?thesis
          using section_disciplined [OF d good len j _ m, where p = p and r = r and s' = s' and l = pc'] pc p pc'(1) Suc tr' by simp
      next
        case False
        then show ?thesis using worker_disciplined [OF d len j pc _ pc'(2)] pc pc'(1) Suc tr' by simp
      qed
    qed
  qed
  ultimately show ?thesis by (simp add: race_inv_def)
qed

end

sublocale ordered_client \<subseteq> logged_run: interleaving "logged_window taking dropping body n"
  "logged_window_start n (k0, 0)" "race_inv n" for n
  by unfold_locales (auto intro: race_inv_start race_inv_step)

context ordered_client begin

lemma window_race_free:
  assumes "steps (logged_window taking dropping body n) (logged_window_start n (k0, 0)) (ts, (g, tr))"
  shows "race_free tr" and "ts ! 0 = Main (Done r) \<Longrightarrow> race_free (tr @ [(0, Plain_Read Counter)])"
proof -
  have "race_inv n (ts, (g, tr))" using assms by (rule logged_run.reach_inv)
  then have d: "disciplined Lock_Flag n (window_phase n (\<not> held (fst (env g))) ts) tr" by (simp add: race_inv_def)
  then show "race_free tr" by (rule disciplinedD)
  show "race_free (tr @ [(0, Plain_Read Counter)])" if "ts ! 0 = Main (Done r)"
    using d by (rule disciplined_final) (simp add: window_phase_def that)
qed

end

section \<open>The counter benchmarks have no data race\<close>

interpretation mutex_ordered: ordered_client mutex_attempt mutex_unlock locked mutex_ctor True 0 Acquire Release
  by unfold_locales (simp_all add: mutex_ctor_def)

interpretation spin_hot_ordered: ordered_client spin_attempt spin_unlock flag spinlock_ctor True 0 lock_order unlock_order
  by unfold_locales (simp_all add: lock_order_def unlock_order_def)

interpretation spin_work_ordered: ordered_client spin_attempt spin_unlock flag spinlock_ctor True 10 lock_order unlock_order
  by unfold_locales

interpretation spin_fair_ordered: ordered_client spin_attempt spin_unlock flag spinlock_ctor False 0 try_lock_order unlock_order
  by unfold_locales (simp_all add: try_lock_order_def unlock_order_def)

text \<open>
  The mutex: an unlock synchronizes with the lock operation that takes the mutex next, which is a
  release and an acquire.
\<close>

theorem mutex_counter_race_free:
  assumes "steps (logged_window Acquire Release mutex_hot_body n) (logged_window_start n (mutex_ctor, 0)) (ts, (g, tr))"
  shows "race_free tr \<and> (\<forall>r. ts ! 0 = Main (Done r) \<longrightarrow> race_free (tr @ [(0, Plain_Read Counter)]))"
  using assms mutex_ordered.window_race_free [of n ts g tr] by (auto simp: body_eqs)

text \<open>
  C8. The memory orders of the spinlock are strong enough.  In the log of every run of the three
  spinlock benchmarks, for any number of workers, no two accesses to the plain shared counter
  race: two accesses of different threads of which one writes are ordered by happens-before, which
  consists of program order, thread creation and join, and the release of the lock's \<open>clear\<close> read by
  the acquire of the next \<open>test_and_set\<close> of \<open>lock\<close> or \<open>try_lock\<close>.  That holds for the initialization
  by the main thread too, and for its read of the counter after the window.
\<close>

theorem spin_counters_race_free:
  assumes "steps (logged_window lock_order unlock_order spin_hot_body n)
        (logged_window_start n (spinlock_ctor, 0)) (ts, (g, tr))
      \<or> steps (logged_window lock_order unlock_order spin_work_body n)
        (logged_window_start n (spinlock_ctor, 0)) (ts, (g, tr))
      \<or> steps (logged_window try_lock_order unlock_order spin_fairness_body n)
        (logged_window_start n (spinlock_ctor, 0)) (ts, (g, tr))"
  shows "race_free tr \<and> (\<forall>r. ts ! 0 = Main (Done r) \<longrightarrow> race_free (tr @ [(0, Plain_Read Counter)]))"
  using assms spin_hot_ordered.window_race_free [of n ts g tr] spin_work_ordered.window_race_free [of n ts g tr]
    spin_fair_ordered.window_race_free [of n ts g tr]
  by (auto simp: body_eqs)

text \<open>Every run of the window has a log.\<close>

lemma window_has_log:
  assumes "steps (window_step body Enter n) (window_start n s) (ts, g)"
  shows "\<exists>tr. steps (logged_window taking dropping body n) (logged_window_start n s) (ts, (g, tr))"
  using logged_lift [OF assms [unfolded window_start_def]]
  by (simp add: logged_window_def logged_window_start_def window_start_def)

text \<open>Two workers, one section each, in turn.\<close>

abbreviation two_sections :: "(nat \<times> nat) list" where
  "two_sections \<equiv> replicate 4 (0,0) @ replicate 10 (1,0) @ replicate 6 (2,0)"

lemma two_sections_log:
  "map_option (snd \<circ> snd) (exec (logged_window lock_order dropping spin_hot_body 2)
     (logged_window_start 2 (spinlock_ctor, 0)) two_sections)
   = Some [(0, Plain_Write Counter), (0, Atomic_Write (Op_Count 0) Relaxed), (0, Atomic_Write (Op_Count 1) Relaxed),
       (0, Create 1), (0, Create 2), (0, Atomic_Write Start_Flag Release),
       (1, Begin), (1, Atomic_Read Start_Flag Acquire), (1, Atomic_Read Stop_Flag Acquire),
       (1, Atomic_Update Lock_Flag Acquire), (1, Plain_Read Counter), (1, Plain_Write Counter),
       (1, Atomic_Write Lock_Flag dropping), (1, Atomic_Update (Op_Count 0) Relaxed),
       (2, Begin), (2, Atomic_Read Start_Flag Acquire), (2, Atomic_Read Stop_Flag Acquire),
       (2, Atomic_Update Lock_Flag Acquire), (2, Plain_Read Counter)]"
  by (simp add: logged_window_def logged_def logged_window_start_def window_log0_def window_evals
    numeral_eq_Suc lock_order_def)

theorem spin_counters_race_free_witness:
  "\<exists>ts g tr. steps (logged_window lock_order unlock_order spin_hot_body 2)
      (logged_window_start 2 (spinlock_ctor, 0)) (ts, (g, tr))
    \<and> tr ! 11 = (1, Plain_Write Counter) \<and> tr ! 18 = (2, Plain_Read Counter) \<and> hb tr 11 18"
proof -
  obtain ts g tr where ex: "exec (logged_window lock_order unlock_order spin_hot_body 2)
      (logged_window_start 2 (spinlock_ctor, 0)) two_sections = Some (ts, (g, tr))"
    and tr: "length tr = 19" "tr ! 11 = (1, Plain_Write Counter)" "tr ! 18 = (2, Plain_Read Counter)"
    using two_sections_log [of unlock_order] by (auto simp: map_option_case split: option.splits)
  have run: "steps (logged_window lock_order unlock_order spin_hot_body 2)
      (logged_window_start 2 (spinlock_ctor, 0)) (ts, (g, tr))"
    using ex by (rule exec_steps)
  from spin_counters_race_free [OF disjI1 [OF run]] have "\<not> race tr 11 18" by (simp add: race_free_def)
  with run tr show ?thesis unfolding race_def by auto
qed

text \<open>
  And they are needed: with a relaxed \<open>clear\<close> the same run has a race between the write of the first
  worker and the read of the second, although the lock still excludes them from each other.
\<close>

theorem relaxed_unlock_races:
  "\<exists>ts g tr. steps (logged_window lock_order Relaxed spin_hot_body 2)
      (logged_window_start 2 (spinlock_ctor, 0)) (ts, (g, tr)) \<and> race tr 11 18"
proof -
  obtain ts g tr where ex: "exec (logged_window lock_order Relaxed spin_hot_body 2)
      (logged_window_start 2 (spinlock_ctor, 0)) two_sections = Some (ts, (g, tr))"
    and tr: "tr = [(0, Plain_Write Counter), (0, Atomic_Write (Op_Count 0) Relaxed), (0, Atomic_Write (Op_Count 1) Relaxed),
       (0, Create 1), (0, Create 2), (0, Atomic_Write Start_Flag Release),
       (1, Begin), (1, Atomic_Read Start_Flag Acquire), (1, Atomic_Read Stop_Flag Acquire),
       (1, Atomic_Update Lock_Flag Acquire), (1, Plain_Read Counter), (1, Plain_Write Counter),
       (1, Atomic_Write Lock_Flag Relaxed), (1, Atomic_Update (Op_Count 0) Relaxed),
       (2, Begin), (2, Atomic_Read Start_Flag Acquire), (2, Atomic_Read Stop_Flag Acquire),
       (2, Atomic_Update Lock_Flag Acquire), (2, Plain_Read Counter)]"
    using two_sections_log [of Relaxed] by (auto simp: map_option_case split: option.splits)
  have "\<not> publishes (snd (tr ! k))" if "11 \<le> k" "k < length tr" "fst (tr ! k) = fst (tr ! 11)" for k
  proof -
    have "k \<in> {11, 12, 13, 14, 15, 16, 17, 18}" using that tr by auto
    then show ?thesis using that(3) tr by auto
  qed
  then have "\<not> hb tr 11 18" using hb_needs_release [of tr 11 18] tr by auto
  then have "race tr 11 18" using tr by (simp add: race_def)
  then show ?thesis using exec_steps [OF ex] by blast
qed

end
