(* ===== verification/Window_Ends.thy ===== *)
theory Window_Ends
  imports Counters
begin

text \<open>
  The contention window comes to its end: \<open>run_contention_window\<close> of include/bench\_harness.hpp with a
  callable that makes progress (locale \<open>ending_body\<close>).  Up to the store to \<open>stop\<close> the workers may call the
  section any number of times, so that the number of moves has no bound; from then on it has one,
  and the caller returns the operations that the workers have counted.  The counter benchmarks are
  the interpretations.
\<close>

section \<open>A callable that makes progress\<close>

text \<open>
  A step of a call changes nothing (a failed attempt, repeated) or lowers its \<open>cost\<close>; while some call
  is in progress, one of the calls has a step that is not such a repetition.
\<close>

locale ending_body = counting_body body entry env0 good credit tally
  for body :: "nat \<Rightarrow> 'p \<Rightarrow> 's \<Rightarrow> (('p + bool) \<times> 's) list" and entry env0 good credit tally +
  fixes cost :: "'p \<Rightarrow> nat" and bound :: nat
  assumes cost_bound: "cost p \<le> bound"
    and cost_step: "(Inl p', s') \<in> set (body tid p s) \<Longrightarrow> (p' = p \<and> s' = s) \<or> cost p' < cost p"
    and call_progress: "good qs s \<Longrightarrow> i < length qs \<Longrightarrow> qs ! i \<noteq> None \<Longrightarrow>
      \<exists>j < length qs. \<exists>p r s'. qs ! j = Some p \<and> (r, s') \<in> set (body (j - 1) p s) \<and> r \<noteq> Inl p"

section \<open>After the store to stop\<close>

fun stopping :: "main_pc \<Rightarrow> bool" where
  "stopping (Join k) = True"
| "stopping Collect = True"
| "stopping (Done r) = True"
| "stopping _ = False"

fun starting :: "main_pc \<Rightarrow> bool" where
  "starting (Spawn k) = False"
| "starting Set_Start = False"
| "starting _ = True"

definition stop_inv :: "('p role, 's window) conf \<Rightarrow> bool" where
  "stop_inv c = (case c of (ts, g) \<Rightarrow>
     (\<exists>pc. ts ! 0 = Main pc \<and> (stop_flag g \<longleftrightarrow> stopping pc) \<and> (starting pc \<longrightarrow> start_flag g)))"

fun caller_rank :: "nat \<Rightarrow> main_pc \<Rightarrow> nat" where
  "caller_rank n (Spawn k) = (n - k) + n + 6"
| "caller_rank n Set_Start = n + 5"
| "caller_rank n Sleep = n + 4"
| "caller_rank n Set_Stop = n + 3"
| "caller_rank n (Join k) = (n - k) + 2"
| "caller_rank n Collect = 1"
| "caller_rank n (Done r) = 0"

fun worker_rank :: "('p \<Rightarrow> nat) \<Rightarrow> 'p worker_pc \<Rightarrow> nat" where
  "worker_rank cost Unborn = 4"
| "worker_rank cost Pin = 3"
| "worker_rank cost Wait_Start = 2"
| "worker_rank cost Loop_Test = 1"
| "worker_rank cost (In_Body p) = cost p + 3"
| "worker_rank cost Counting = 2"
| "worker_rank cost Exited = 0"

fun role_rank :: "nat \<Rightarrow> ('p \<Rightarrow> nat) \<Rightarrow> 'p role \<Rightarrow> nat" where
  "role_rank n cost (Main pc) = caller_rank n pc"
| "role_rank n cost (Worker pc) = worker_rank cost pc"

definition window_rank :: "nat \<Rightarrow> ('p \<Rightarrow> nat) \<Rightarrow> ('p role, 's window) conf \<Rightarrow> nat" where
  "window_rank n cost c = tsum (role_rank n cost) (fst c)"

text \<open>The window is over: everybody has returned, with the result of the counts.\<close>

definition window_over :: "nat \<Rightarrow> ('p role, 's window) conf \<Rightarrow> bool" where
  "window_over n c = (case c of (ts, g) \<Rightarrow>
     ts = Main (Done (collect n (op_counts g))) # replicate n (Worker Exited))"

lemma main_keeps_stop:
  "(pc', g') \<in> set (main_step n pc ts g) \<Longrightarrow> stop_flag g \<longleftrightarrow> stopping pc \<Longrightarrow> starting pc \<longrightarrow> start_flag g
    \<Longrightarrow> (stop_flag g' \<longleftrightarrow> stopping pc') \<and> (starting pc' \<longrightarrow> start_flag g')"
  by (cases pc) (auto split: if_splits)

lemma worker_frame:
  "(pc', g') \<in> set (worker_step body entry tid pc ts g) \<Longrightarrow> stop_flag g' = stop_flag g \<and> start_flag g' = start_flag g"
  by (cases pc) (auto split: if_splits)

lemma main_lowers: "(pc', g') \<in> set (main_step n pc ts g) \<Longrightarrow> caller_rank n pc' < caller_rank n pc"
  by (cases pc) (auto split: if_splits)

lemma main_enabled: "\<not> stopping pc \<Longrightarrow> \<exists>pc' g'. (pc', g') \<in> set (main_step n pc ts g)"
  by (cases pc) auto

lemma steppers:
  assumes "window_inv good credit tally n (ts, g)" "i < length ts"
  obtains (main) pc where "i = 0" "ts ! 0 = Main pc"
  | (worker) j pc where "i = Suc j" "j < n" "ts ! Suc j = Worker pc"
proof (cases i)
  case 0
  then show ?thesis using assms by (auto elim!: window_invE intro: main)
next
  case (Suc j)
  then have "j < n" "\<not> is_main (ts ! Suc j)" using assms by (auto elim!: window_invE)
  then show ?thesis using Suc by (cases "ts ! Suc j") (auto intro: worker)
qed

lemma window_overI:
  assumes "window_inv good credit tally n (ts, g)" "ts ! 0 = Main (Done r)"
  shows "window_over n (ts, g)"
proof -
  from assms have *: "length ts = Suc n" "\<And>j. j < n \<Longrightarrow> ts ! Suc j = Worker Exited" "r = collect n (op_counts g)"
    by (auto elim!: window_invE)
  have "ts = Main (Done r) # replicate n (Worker Exited)"
    using * assms(2) by (intro nth_equalityI) (auto simp: nth_Cons split: nat.splits)
  then show ?thesis using *(3) by (simp add: window_over_def)
qed

section \<open>Progress and the measure\<close>

context ending_body begin

lemma stop_keeps:
  assumes inv: "window_inv good credit tally n (ts, g)" "stop_inv (ts, g)" and i: "i < length ts"
    and st: "(l, g') \<in> set (window_step body entry n i ts g)"
  shows "stop_inv (ts[i := l], g')" and "stop_flag g \<Longrightarrow> stop_flag g'"
proof -
  have "stop_inv (ts[i := l], g') \<and> (stop_flag g \<longrightarrow> stop_flag g')"
    using inv(1) i
  proof (cases rule: steppers)
    case (main pc)
    then obtain pc' where pc': "l = Main pc'" "(pc', g') \<in> set (main_step n pc ts g)" using st by auto
    then have "stopping pc \<longrightarrow> stopping pc'" by (cases pc) (auto split: if_splits)
    then show ?thesis
      using main_keeps_stop [OF pc'(2)] inv(2) main pc'(1) i by (auto simp: stop_inv_def)
  next
    case (worker j pc)
    then obtain pc' where "(pc', g') \<in> set (worker_step body entry j pc ts g)" using st by auto
    then show ?thesis using worker_frame inv(2) worker by (fastforce simp: stop_inv_def)
  qed
  then show "stop_inv (ts[i := l], g')" and "stop_flag g \<Longrightarrow> stop_flag g'" by auto
qed

lemma worker_lowers:
  assumes "(pc', g') \<in> set (worker_step body entry j pc ts g)" "stop_flag g" "start_flag g"
  shows "(pc' = pc \<and> g' = g) \<or> worker_rank cost pc' < worker_rank cost pc"
proof (cases pc)
  case (In_Body p)
  with assms(1) obtain r s where r: "(r, s) \<in> set (body j p (env g))" "g' = g\<lparr>env := s\<rparr>"
    and pc': "pc' = (case r of Inl p' \<Rightarrow> In_Body p' | Inr counted \<Rightarrow> if counted then Counting else Loop_Test)"
    by auto
  show ?thesis
  proof (cases r)
    case (Inl p')
    then have "(p' = p \<and> s = env g) \<or> cost p' < cost p" using r(1) by (auto dest: cost_step)
    then show ?thesis using Inl r(2) pc' In_Body by auto
  qed (use pc' In_Body in auto)
qed (use assms in \<open>auto split: if_splits\<close>)

lemma window_lowers:
  assumes inv: "window_inv good credit tally n (ts, g)" "stop_inv (ts, g)" "stop_flag g" and i: "i < length ts"
    and st: "(l, g') \<in> set (window_step body entry n i ts g)" and change: "(ts[i := l], g') \<noteq> (ts, g)"
  shows "window_rank n cost (ts[i := l], g') < window_rank n cost (ts, g)"
proof -
  have start: "start_flag g" using inv(2,3) by (auto simp: stop_inv_def elim: stopping.elims)
  have "role_rank n cost l < role_rank n cost (ts ! i)"
    using inv(1) i
  proof (cases rule: steppers)
    case (main pc)
    then show ?thesis using st main_lowers by fastforce
  next
    case (worker j pc)
    then obtain pc' where l: "l = Worker pc'" "(pc', g') \<in> set (worker_step body entry j pc ts g)" using st by auto
    then have "\<not> (pc' = pc \<and> g' = g)" using change worker by (metis list_update_id)
    then show ?thesis using worker_lowers [OF l(2) inv(3) start] l(1) worker by auto
  qed
  then show ?thesis using tsum_update [OF i, of "role_rank n cost" l] by (simp add: window_rank_def)
qed

lemma window_progress:
  assumes inv: "window_inv good credit tally n (ts, g)" "stop_inv (ts, g)" "stop_flag g"
    and open_window: "\<not> window_over n (ts, g)"
  shows "\<exists>c'. move (window_step body entry n) (ts, g) c'"
proof -
  from inv obtain mpc where len: "length ts = Suc n" and m: "ts ! 0 = Main mpc" "stopping mpc"
    and good: "good (map calling ts) (env g)"
    by (auto simp: stop_inv_def elim: window_invE)
  have start: "start_flag g" using inv(2,3) by (auto simp: stop_inv_def elim: stopping.elims)
  have act: "\<exists>c'. move (window_step body entry n) (ts, g) c'"
    if "j < n" "ts ! Suc j = Worker pc" "(pc', g') \<in> set (worker_step body entry j pc ts g)" "pc' \<noteq> pc" for j pc pc' g'
    using that len by (intro moveI [of "Suc j" _ "Worker pc'" g']) force+
  consider (calls) i where "i < length ts" "map calling ts ! i \<noteq> None"
    | (idle) j pc where "j < n" "ts ! Suc j = Worker pc" "calling (Worker pc) = None" "pc \<noteq> Exited"
    | (returned) "\<forall>j < n. ts ! Suc j = Worker Exited"
    using steppers [OF inv(1)] len by (metis Suc_less_eq is_main.simps(2) length_map nth_map nat.distinct(1) nat.inject)
  then show ?thesis
  proof cases
    case calls
    then obtain k p r s' where k: "k < length ts" "map calling ts ! k = Some p"
      and r: "(r, s') \<in> set (body (k - 1) p (env g))" "r \<noteq> Inl p"
      using call_progress [OF good, of i] calls by auto
    then have "ts ! k = Worker (In_Body p)" by (cases "ts ! k" rule: calling.cases) auto
    moreover have "k \<noteq> 0" using m calculation by (cases k) auto
    then obtain j where "k = Suc j" by (cases k) auto
    moreover have "(case r of Inl p' \<Rightarrow> In_Body p' | Inr counted \<Rightarrow> if counted then Counting else Loop_Test) \<noteq> In_Body p"
      using r(2) by (cases r) auto
    ultimately show ?thesis using k r len by (intro act [of j "In_Body p" _ "g\<lparr>env := s'\<rparr>"]) force+
  next
    case idle
    have "\<exists>pc' g'. (pc', g') \<in> set (worker_step body entry j pc ts g) \<and> pc' \<noteq> pc"
      using idle(3,4) m start inv(3) by (cases pc; cases mpc) auto
    then show ?thesis using act idle by blast
  next
    case returned
    have "mpc \<noteq> Done r" for r using window_overI [OF inv(1)] open_window m(1) by auto
    then have "\<exists>pc' g'. (pc', g') \<in> set (main_step n mpc ts g)" using m(2) returned by (cases mpc) auto
    then obtain pc' g' where st: "(pc', g') \<in> set (main_step n mpc ts g)" by blast
    then have "pc' \<noteq> mpc" using main_lowers by fastforce
    then show ?thesis using st m len by (intro moveI [of 0 _ "Main pc'" g']) force+
  qed
qed

definition ending_inv :: "nat \<Rightarrow> ('p role, 's window) conf \<Rightarrow> bool" where
  "ending_inv n c \<longleftrightarrow> window_inv good credit tally n c \<and> stop_inv c"

lemma ending_start: "ending_inv n (window_start n env0)"
  using window_start_inv by (simp add: ending_inv_def window_start_def stop_inv_def)

lemma ending_reach: "steps (window_step body entry n) (window_start n env0) c \<Longrightarrow> ending_inv n c"
  by (rule interleaving.reach_inv [OF interleaving.intro])
    (auto simp: ending_inv_def intro: window_start_inv ending_start [unfolded ending_inv_def, THEN conjunct2]
      window_step_inv stop_keeps)

text \<open>From a state in which \<open>stop\<close> is set: total correctness.\<close>

lemma stopping_live:
  assumes "ending_inv n c" "stop_flag (snd c)"
  shows "live_interleaving (window_step body entry n) c (\<lambda>c. ending_inv n c \<and> stop_flag (snd c)) (window_over n)
    (window_rank n cost)"
proof unfold_locales
  fix c :: "('p role, 's window) conf"
  assume "ending_inv n c \<and> stop_flag (snd c)" "\<not> window_over n c"
  then show "\<exists>c'. move (window_step body entry n) c c'"
    using window_progress [of n "fst c" "snd c"] by (auto simp: ending_inv_def simp del: split_paired_Ex)
qed (use assms in \<open>auto simp: ending_inv_def intro: window_step_inv stop_keeps window_lowers\<close>)

lemma rank_bound:
  assumes "ending_inv n c" "stop_flag (snd c)"
  shows "window_rank n cost c \<le> (bound + 5) * n + 2"
proof -
  obtain ts g where c: "c = (ts, g)" by force
  from assms c obtain pc where ts: "length ts = Suc n" "ts ! 0 = Main pc" "stopping pc"
    and workers: "\<And>j. j < n \<Longrightarrow> \<not> is_main (ts ! Suc j)"
    by (auto simp: ending_inv_def stop_inv_def elim: window_invE)
  have "role_rank n cost t \<le> bound + 4" if t: "t \<in> set (tl ts)" for t
  proof -
    obtain j where "j < length (tl ts)" "tl ts ! j = t" using t unfolding in_set_conv_nth by blast
    then have "j < n" "t = ts ! Suc j" using ts(1) by (simp_all add: nth_tl)
    then have "\<not> is_main t" using workers by simp
    then obtain wpc where "t = Worker wpc" by (cases t) auto
    then show ?thesis using cost_bound by (cases wpc) (auto intro: le_SucI simp: add.commute)
  qed
  then have "tsum (role_rank n cost) (tl ts) \<le> (bound + 4) * length (tl ts)"
    by (rule tsum_bounded)
  moreover have "ts = Main pc # tl ts" using ts by (cases ts) auto
  then have "tsum (role_rank n cost) ts = caller_rank n pc + tsum (role_rank n cost) (tl ts)"
    by (metis role_rank.simps(1) tsum_Cons)
  moreover have "caller_rank n pc \<le> n + 2" using ts(3) by (cases pc) auto
  ultimately show ?thesis using ts(1) c by (simp add: window_rank_def algebra_simps)
qed

lemma window_finishes:
  assumes "steps (window_step body entry n) (window_start n env0) c" "stop_flag (snd c)"
  shows "finishes (window_step body entry n) c (\<lambda>(ts, g). window_over n (ts, g)
    \<and> ops (collect n (op_counts g)) = tally (env g)) ((bound + 5) * n + 2)"
proof -
  have inv: "ending_inv n c" using assms(1) by (rule ending_reach)
  note live = stopping_live [OF inv assms(2)]
  have "finishes (window_step body entry n) c (window_over n) ((bound + 5) * n + 2)"
    using rank_bound [OF inv assms(2)] by (rule live_interleaving.always_finishes [OF live])
  then show ?thesis
    by (rule interleaving.finishes_with [OF live_interleaving.axioms(1) [OF live]])
      (auto simp: ending_inv_def window_over_def ops_collect simp del: sum_list_replicate elim!: window_invE)
qed

text \<open>Before that, the caller is never blocked: it goes on to set \<open>stop\<close>.\<close>

lemma stop_reachable: "ending_inv n c \<Longrightarrow> \<exists>c'. steps (window_step body entry n) c c' \<and> stop_flag (snd c')"
proof (induction "role_rank n cost (fst c ! 0)" arbitrary: c rule: less_induct)
  case less
  obtain ts g where c: "c = (ts, g)" by force
  from less.prems c obtain pc where pc: "ts ! 0 = Main pc" "stop_flag g \<longleftrightarrow> stopping pc"
    by (auto simp: ending_inv_def stop_inv_def)
  have "length ts = Suc n" using less.prems c by (auto simp: ending_inv_def elim: window_invE)
  then have len: "0 < length ts" by simp
  show ?case
  proof (cases "stopping pc")
    case True
    then show ?thesis using pc c by (intro exI [of _ c]) simp
  next
    case False
    then obtain pc' g' where m: "(pc', g') \<in> set (main_step n pc ts g)" using main_enabled by blast
    let ?c = "(ts[0 := Main pc'], g')"
    have st: "(Main pc', g') \<in> set (window_step body entry n 0 ts g)" using m pc by force
    then have "ending_inv n ?c"
      using less.prems c len by (auto simp: ending_inv_def intro: window_step_inv stop_keeps)
    moreover have "role_rank n cost (fst ?c ! 0) < role_rank n cost (fst c ! 0)"
      using main_lowers [OF m] pc c len by simp
    ultimately obtain c' where "steps (window_step body entry n) ?c c'" "stop_flag (snd c')"
      using less.hyps by blast
    moreover have "istep (window_step body entry n) c ?c" unfolding c using len st by (rule istepI)
    ultimately show ?thesis by (meson converse_rtranclp_into_rtranclp)
  qed
qed

end

text \<open>
  The contract of a window: it can always come to its end, and once \<open>stop\<close> is set it does so within
  a number of moves, with the number of operations that the shared state tallies.
\<close>

definition window_ends :: "(nat \<Rightarrow> 'p \<Rightarrow> 's \<Rightarrow> (('p + bool) \<times> 's) list) \<Rightarrow> 'p \<Rightarrow> 's \<Rightarrow> ('s \<Rightarrow> uint64) \<Rightarrow> nat \<Rightarrow> nat \<Rightarrow> bool" where
  "window_ends body entry s0 tally n moves \<longleftrightarrow>
     (\<forall>c. steps (window_step body entry n) (window_start n s0) c \<longrightarrow>
       (\<exists>cf. steps (window_step body entry n) c cf \<and> window_over n cf) \<and>
       (stop_flag (snd c) \<longrightarrow> finishes (window_step body entry n) c
         (\<lambda>(ts, g). window_over n (ts, g) \<and> ops (collect n (op_counts g)) = tally (env g)) moves))"

context ending_body begin

theorem ends: "window_ends body entry env0 tally n ((bound + 5) * n + 2)"
  unfolding window_ends_def
proof (intro allI impI conjI)
  fix c
  assume reach: "steps (window_step body entry n) (window_start n env0) c"
  then obtain c' where c': "steps (window_step body entry n) c c'" "stop_flag (snd c')"
    using ending_reach stop_reachable by blast
  then have "steps (window_step body entry n) (window_start n env0) c'" using reach by (meson rtranclp_trans)
  then have "live_interleaving (window_step body entry n) c' (\<lambda>c. ending_inv n c \<and> stop_flag (snd c))
      (window_over n) (window_rank n cost)"
    using c'(2) by (intro stopping_live ending_reach)
  then obtain cf where "steps (window_step body entry n) c' cf" "window_over n cf"
    using live_interleaving.final_reachable by blast
  then show "\<exists>cf. steps (window_step body entry n) c cf \<and> window_over n cf"
    using c'(1) by (meson rtranclp_trans)
qed (rule window_finishes)

end

section \<open>The counter benchmarks\<close>

fun section_cost :: "nat \<Rightarrow> 'w section_pc \<Rightarrow> nat" where
  "section_cost work Enter = work + 6"
| "section_cost work Load = work + 5"
| "section_cost work (Store v) = work + 4"
| "section_cost work (Work j y) = (work - j) + 2"
| "section_cost work Leave = 1"

sublocale lock_client \<subseteq> ending: ending_body
  "\<lambda>tid. locked_section attempt release retry work" "Enter :: uint64 section_pc" "(k0, 0)"
  "section_good held" due snd "section_cost work" "work + 6"
proof unfold_locales
  fix p p' :: "uint64 section_pc" and s s' :: "'k \<times> uint64" and tid :: nat
  show "section_cost work p \<le> work + 6" by (cases p) simp_all
  assume "(Inl p', s') \<in> set (locked_section attempt release retry work p s)"
  then show "(p' = p \<and> s' = s) \<or> section_cost work p' < section_cost work p"
    by (cases s; cases p) (auto dest: refused split: if_splits)
next
  fix qs :: "uint64 section_pc option list" and s :: "'k \<times> uint64" and i :: nat
  assume good: "section_good held qs s" and i: "i < length qs" "qs ! i \<noteq> None"
  obtain k v where s: "s = (k, v)" by force
  have act: "\<exists>r s'. (r, s') \<in> set (locked_section attempt release retry work p s) \<and> r \<noteq> Inl p"
    if "p = Enter \<Longrightarrow> \<not> held k" for p
    using that free_taken [of k] s by (cases p) (force split: if_splits)+
  have "\<exists>j < length qs. \<exists>p. qs ! j = Some p \<and> (p = Enter \<longrightarrow> \<not> held k)"
  proof (cases "held k")
    case True
    then have "0 < tsum (case_option 0 inside) qs" using good s by (simp add: section_good_def)
    then obtain j where "j < length qs" "0 < case_option 0 inside (qs ! j)" by (blast dest: tsum_pos_member)
    then show ?thesis by (intro exI [of _ j]) (auto split: option.splits)
  qed (use i in blast)
  then show "\<exists>j < length qs. \<exists>p r s'. qs ! j = Some p
      \<and> (r, s') \<in> set (locked_section attempt release retry work p s) \<and> r \<noteq> Inl p"
    using act by blast
qed

interpretation fetch_add_ends: ending_body atomic_body "()" 0 "\<lambda>_ _. True" "\<lambda>_. 0" "\<lambda>v. v" "\<lambda>_. 0" 0
  by unfold_locales (auto simp: atomic_body_def)

text \<open>
  C9. The contention windows of the five counter benchmarks come to their end, for any number of
  workers.  From every reachable state a state can be reached in which all workers have exited and
  the caller has its result.  Once the caller has stored \<open>stop\<close>, that is inevitable: every run makes a bounded number of
  further moves (an attempt on a held lock that is repeated is none), only the final state has no
  move, and the operations returned are the value of the shared counter.
\<close>

theorem counter_windows_end:
  "window_ends mutex_hot_body Enter (mutex_ctor, 0) snd n (11 * n + 2)
    \<and> window_ends spin_hot_body Enter (spinlock_ctor, 0) snd n (11 * n + 2)
    \<and> window_ends spin_work_body Enter (spinlock_ctor, 0) snd n (21 * n + 2)
    \<and> window_ends spin_fairness_body Enter (spinlock_ctor, 0) snd n (11 * n + 2)
    \<and> window_ends atomic_body () 0 (\<lambda>v. v) n (5 * n + 2)"
  using mutex_hot.ending.ends [of n] spin_hot.ending.ends [of n] spin_work.ending.ends [of n]
    spin_fair.ending.ends [of n] fetch_add_ends.ends [of n]
  by (simp add: body_eqs)

end
