(* ===== verification/Frame_Races.thy ===== *)
theory Frame_Races
  imports Memory_Order Coroutine_Runs
begin

text \<open>
  The memory accesses of a coroutine benchmark: the main thread and the worker of the timer service
  share the heap and the stop flag of the service, under its mutex, and the coroutine frames, which
  pass from the main thread through the heap to the worker and through the done flags back to the main thread, which
  destroys them.  Every access is logged with its memory order; the histories are shown to have no
  data race on the heap, on the stop flag or on a frame, but for the one read that the final
  awaiter makes after it has stored the done flag.
\<close>

section \<open>Owners\<close>

datatype coro_atomic = Timer_Mutex | Done_Flag nat

text \<open>\<open>Continuation h\<close> is the awaiter's member that \<open>await_suspend\<close> reads last; the rest of the frame is \<open>Frame h\<close>.\<close>

datatype coro_var = Heap_Var | Stop_Var | Frame nat | Continuation nat

type_synonym coro_history = "(coro_atomic, coro_var) history"

text \<open>
  Who can reach the frame of a coroutine: nobody before it is created, a thread that has it in hand, whoever
  takes the mutex next, or whoever sees the done flag.
\<close>

datatype owner = Nobody | Thread nat | By_Mutex | By_Flag

definition touches :: "coro_history \<Rightarrow> coro_var \<Rightarrow> nat \<Rightarrow> bool" where
  "touches tr v a \<longleftrightarrow> a < length tr \<and> (snd (tr ! a) = Plain_Read v \<or> snd (tr ! a) = Plain_Write v)"

text \<open>
  An access that is behind the mutex, held by a thread or free; what the constructor of the service has done
  before it started the worker is known to both threads.
\<close>

definition guarded :: "nat option \<Rightarrow> coro_history \<Rightarrow> nat \<Rightarrow> bool" where
  "guarded holder tr a = (case holder of None \<Rightarrow> released_after Timer_Mutex tr a \<or> (seen tr 0 a \<and> seen tr 1 a) | Some t \<Rightarrow> seen tr t a)"

fun visible :: "nat option \<Rightarrow> coro_history \<Rightarrow> nat \<Rightarrow> owner \<Rightarrow> nat \<Rightarrow> bool" where
  "visible holder tr h Nobody a = False"
| "visible holder tr h (Thread t) a = seen tr t a"
| "visible holder tr h By_Mutex a = guarded holder tr a"
| "visible holder tr h By_Flag a = released_after (Done_Flag h) tr a"

text \<open>The race that remains: the read of a continuation against the destruction of its frame.\<close>

definition final_read_race :: "coro_history \<Rightarrow> nat \<Rightarrow> nat \<Rightarrow> bool" where
  "final_read_race tr a b \<longleftrightarrow>
     (\<exists>h. {tr ! a, tr ! b} = {(0, Plain_Write (Continuation h)), (1, Plain_Read (Continuation h))})"

definition own_ok :: "nat option \<Rightarrow> (nat \<Rightarrow> owner) \<Rightarrow> coro_history \<Rightarrow> bool" where
  "own_ok holder own tr \<longleftrightarrow>
     (\<forall>a b. race tr a b \<longrightarrow> final_read_race tr a b)
     \<and> (\<forall>e \<in> set tr. fst e \<le> 1 \<and> (\<forall>h. snd e = Plain_Write (Continuation h) \<longrightarrow> fst e = 0))
     \<and> (\<forall>v a. v = Heap_Var \<or> v = Stop_Var \<longrightarrow> touches tr v a \<longrightarrow> guarded holder tr a)
     \<and> (\<forall>h a. touches tr (Frame h) a \<longrightarrow> visible holder tr h (own h) a)"

lemma own_okI:
  assumes "\<And>a b. race tr a b \<Longrightarrow> final_read_race tr a b"
    "\<And>t e. (t, e) \<in> set tr \<Longrightarrow> t \<le> 1 \<and> (\<forall>h. e = Plain_Write (Continuation h) \<longrightarrow> t = 0)"
    "\<And>v a. v = Heap_Var \<or> v = Stop_Var \<Longrightarrow> touches tr v a \<Longrightarrow> guarded holder tr a"
    "\<And>h a. touches tr (Frame h) a \<Longrightarrow> visible holder tr h (own h) a"
  shows "own_ok holder own tr"
  unfolding own_ok_def using assms by (auto split: prod.splits)

lemma own_okD:
  assumes "own_ok holder own tr"
  shows "race tr a b \<Longrightarrow> final_read_race tr a b"
    and "(t, e) \<in> set tr \<Longrightarrow> t \<le> 1 \<and> (\<forall>h. e = Plain_Write (Continuation h) \<longrightarrow> t = 0)"
    and "v = Heap_Var \<or> v = Stop_Var \<Longrightarrow> touches tr v a \<Longrightarrow> guarded holder tr a"
    and "touches tr (Frame h) a \<Longrightarrow> visible holder tr h (own h) a"
  using assms unfolding own_ok_def by fastforce+

lemma touches_snoc:
  "touches (tr @ [(i, e)]) v a \<longleftrightarrow> touches tr v a \<or> (a = length tr \<and> (e = Plain_Read v \<or> e = Plain_Write v))"
  by (auto simp: touches_def nth_append less_Suc_eq)

lemma guarded_snoc: "guarded holder tr a \<Longrightarrow> holder = None \<longrightarrow> \<not> modifies Timer_Mutex e \<Longrightarrow> guarded holder (tr @ [(i, e)]) a"
  by (auto simp: guarded_def intro: released_after_snoc seen_append split: option.splits)

lemma visible_snoc:
  "visible holder tr h w a \<Longrightarrow> holder = None \<longrightarrow> \<not> modifies Timer_Mutex e \<Longrightarrow> w = By_Flag \<longrightarrow> \<not> modifies (Done_Flag h) e
    \<Longrightarrow> visible holder (tr @ [(i, e)]) h w a"
  by (cases w) (auto intro: released_after_snoc seen_append guarded_snoc)

text \<open>A new event makes no new race unless it is a plain access that has not seen a conflicting one.\<close>

lemma races_snoc:
  assumes r: "race (tr @ [(i, e)]) a b"
    and races: "\<And>a b. race tr a b \<Longrightarrow> final_read_race tr a b"
    and new: "\<And>a. a < length tr \<Longrightarrow> fst (tr ! a) \<noteq> i \<Longrightarrow> conflict (snd (tr ! a)) e \<Longrightarrow> \<not> seen tr i a \<Longrightarrow>
      \<exists>h. {tr ! a, (i, e)} = {(0, Plain_Write (Continuation h)), (1, Plain_Read (Continuation h))}"
  shows "final_read_race (tr @ [(i, e)]) a b"
proof (cases "b < length tr")
  case True
  then have "race tr a b" using r by (auto simp: race_def nth_append intro: hb_append)
  then show ?thesis using races [of a b] True r by (simp add: final_read_race_def nth_append race_def)
next
  case False
  with r have b: "b = length tr" "a < length tr" "fst (tr ! a) \<noteq> i" "conflict (snd (tr ! a)) e"
    and n: "\<not> hb (tr @ [(i, e)]) a (length tr)"
    by (auto simp: race_def nth_append less_Suc_eq split: if_splits)
  then have "\<not> seen tr i a" using seen_before by blast
  then show ?thesis using new b by (simp add: final_read_race_def nth_append)
qed

lemma conflict_touches: "a < length tr \<Longrightarrow> conflict (snd (tr ! a)) e \<Longrightarrow> e = Plain_Read v \<or> e = Plain_Write v \<Longrightarrow> touches tr v a"
  by (cases "snd (tr ! a)") (auto simp: touches_def)

section \<open>The events that keep owners apart\<close>

text \<open>
  One event: what was guarded and visible stays so, for the new holder and owners, and a new access
  to the service's variables or to a frame is by a thread that has seen the earlier ones.
\<close>

lemma own_ok_snoc:
  assumes o: "own_ok holder own tr"
    and thread: "i \<le> 1" "\<And>h. e = Plain_Write (Continuation h) \<Longrightarrow> i = 0"
    and guard: "\<And>a. guarded holder tr a \<Longrightarrow> guarded holder' (tr @ [(i, e)]) a"
    and owner: "\<And>h a. visible holder tr h (own h) a \<Longrightarrow> visible holder' (tr @ [(i, e)]) h (own' h) a"
    and service: "\<And>v. v = Heap_Var \<or> v = Stop_Var \<Longrightarrow> e = Plain_Read v \<or> e = Plain_Write v \<Longrightarrow>
      (\<forall>a. guarded holder tr a \<longrightarrow> seen tr i a) \<and> guarded holder' (tr @ [(i, e)]) (length tr)"
    and frame: "\<And>h. e = Plain_Read (Frame h) \<or> e = Plain_Write (Frame h) \<Longrightarrow>
      (\<forall>a. visible holder tr h (own h) a \<longrightarrow> seen tr i a) \<and> visible holder' (tr @ [(i, e)]) h (own' h) (length tr)"
  shows "own_ok holder' own' (tr @ [(i, e)])"
proof (rule own_okI)
  fix a b
  assume "race (tr @ [(i, e)]) a b"
  then show "final_read_race (tr @ [(i, e)]) a b"
  proof (rule races_snoc [OF _ own_okD(1) [OF o]])
    fix a
    assume a: "a < length tr" "fst (tr ! a) \<noteq> i" and c: "conflict (snd (tr ! a)) e" and n: "\<not> seen tr i a"
    obtain v where v: "e = Plain_Read v \<or> e = Plain_Write v" using conflict_plain [OF c] by (cases e) auto
    have t: "touches tr v a" using conflict_touches [OF a(1) c v] .
    have "\<not> (v = Heap_Var \<or> v = Stop_Var)" using service [of v] v n own_okD(3) [OF o _ t] by auto
    moreover have "v \<noteq> Frame h" for h using frame [of h] v n own_okD(4) [OF o, of h a] t by auto
    ultimately obtain h where h: "v = Continuation h" by (cases v) auto
    have member: "(fst (tr ! a), snd (tr ! a)) \<in> set tr" using a(1) by simp
    have "fst (tr ! a) \<le> 1" "snd (tr ! a) = Plain_Write (Continuation h) \<Longrightarrow> fst (tr ! a) = 0"
      using own_okD(2) [OF o member] by auto
    then have "(tr ! a = (0, Plain_Write v) \<and> i = 1 \<and> e = Plain_Read v) \<or> (tr ! a = (1, Plain_Read v) \<and> i = 0 \<and> e = Plain_Write v)"
      using thread a v h t c by (cases "tr ! a") (auto simp: touches_def le_Suc_eq)
    then show "\<exists>h. {tr ! a, (i, e)} = {(0, Plain_Write (Continuation h)), (1, Plain_Read (Continuation h))}"
      using h by auto
  qed
next
  fix t e' assume "(t, e') \<in> set (tr @ [(i, e)])"
  then show "t \<le> 1 \<and> (\<forall>h. e' = Plain_Write (Continuation h) \<longrightarrow> t = 0)"
    using own_okD(2) [OF o] thread by auto
next
  fix v a assume "v = Heap_Var \<or> v = Stop_Var" "touches (tr @ [(i, e)]) v a"
  then show "guarded holder' (tr @ [(i, e)]) a"
    using own_okD(3) [OF o] guard service unfolding touches_snoc by blast
next
  fix h a assume "touches (tr @ [(i, e)]) (Frame h) a"
  then show "visible holder' (tr @ [(i, e)]) h (own' h) a"
    using own_okD(4) [OF o] owner frame unfolding touches_snoc by blast
qed

lemma own_ok_inert:
  assumes "own_ok holder own tr" and "\<not> plain e" "holder = None \<longrightarrow> \<not> modifies Timer_Mutex e" "i \<le> 1"
    "\<And>h. own h = By_Flag \<Longrightarrow> \<not> modifies (Done_Flag h) e"
  shows "own_ok holder own (tr @ [(i, e)])"
  using assms(1) by (rule own_ok_snoc) (use assms(2-) in \<open>auto intro: visible_snoc guarded_snoc\<close>)

text \<open>The mutex is taken and released.\<close>

lemma visible_holder:
  assumes "visible holder tr h w a" "\<And>a. guarded holder tr a \<Longrightarrow> guarded holder' (tr @ [(i, e)]) a"
    and "w = By_Flag \<longrightarrow> \<not> modifies (Done_Flag h) e"
  shows "visible holder' (tr @ [(i, e)]) h w a"
  using assms by (cases w) (auto intro: seen_append released_after_snoc)

lemma own_ok_take:
  assumes "own_ok None own tr" "t \<le> 1"
  shows "own_ok (Some t) own (tr @ [(t, Atomic_Update Timer_Mutex Acquire)])"
proof -
  have guard: "guarded (Some t) (tr @ [(t, Atomic_Update Timer_Mutex Acquire)]) a" if "guarded None tr a" for a
    using that assms(2) acquire_seen [of Timer_Mutex tr a] by (auto simp: guarded_def le_Suc_eq intro: seen_append)
  show ?thesis using assms(1)
    by (rule own_ok_snoc) (use assms(2) in \<open>auto intro: guard visible_holder [OF _ guard]\<close>)
qed

lemma own_ok_release:
  assumes "own_ok (Some t) own tr" "t \<le> 1"
  shows "own_ok None own (tr @ [(t, Atomic_Write Timer_Mutex Release)])"
proof -
  have guard: "guarded None (tr @ [(t, Atomic_Write Timer_Mutex Release)]) a" if "guarded (Some t) tr a" for a
    using that by (auto simp: guarded_def intro: release_after)
  show ?thesis using assms(1)
    by (rule own_ok_snoc) (use assms(2) in \<open>auto intro: guard visible_holder [OF _ guard]\<close>)
qed

text \<open>The holder accesses the heap and the stop flag.\<close>

lemma own_ok_service:
  assumes "own_ok (Some t) own tr" "t \<le> 1" "v = Heap_Var \<or> v = Stop_Var" "e = Plain_Read v \<or> e = Plain_Write v"
  shows "own_ok (Some t) own (tr @ [(t, e)])"
  using assms(1)
  by (rule own_ok_snoc) (use assms(2-) in \<open>auto simp: guarded_def intro: visible_snoc seen_append seen_last\<close>)

text \<open>A frame is accessed by the thread that has it, or by the one that creates it.\<close>

lemma own_ok_frame:
  assumes "own_ok holder own tr" "t \<le> 1" "own h = Thread t \<or> own h = Nobody"
    "e = Plain_Read (Frame h) \<or> e = Plain_Write (Frame h)"
  shows "own_ok holder (own(h := Thread t)) (tr @ [(t, e)])"
  using assms(1)
  by (rule own_ok_snoc) (use assms(2-) in \<open>auto intro: visible_snoc guarded_snoc seen_append seen_last\<close>)

lemma own_ok_continuation:
  assumes "own_ok holder own tr" "t \<le> 1" "e = Plain_Read (Continuation h) \<or> (e = Plain_Write (Continuation h) \<and> t = 0)"
  shows "own_ok holder own (tr @ [(t, e)])"
  using assms(1)
  by (rule own_ok_snoc) (use assms(2-) in \<open>auto intro: visible_snoc guarded_snoc\<close>)

text \<open>The holder of the mutex puts a frame it has behind the mutex, and takes one from there.\<close>

lemma own_ok_move:
  assumes "own_ok (Some t) own tr" "own h = Thread t \<or> own h = By_Mutex" "w = Thread t \<or> w = By_Mutex"
  shows "own_ok (Some t) (own(h := w)) tr"
proof (rule own_okI)
  fix g a assume "touches tr (Frame g) a"
  then show "visible (Some t) tr g ((own(h := w)) g) a"
    using own_okD(4) [OF assms(1)] assms(2,3) by (cases "g = h") (fastforce simp: guarded_def)+
qed (use own_okD [OF assms(1)] in blast)+

text \<open>A done flag is stored with release order by the thread that has the frame, and read with acquire order.\<close>

lemma own_ok_finish:
  assumes "own_ok holder own tr" "t \<le> 1" "own h = Thread t"
  shows "own_ok holder (own(h := By_Flag)) (tr @ [(t, Atomic_Write (Done_Flag h) Release)])"
  using assms(1)
  by (rule own_ok_snoc) (use assms(2-) in \<open>auto intro: visible_snoc guarded_snoc release_after\<close>)

lemma own_ok_acquire:
  assumes "own_ok holder own tr" "t \<le> 1" "own h = By_Flag"
  shows "own_ok holder (own(h := Thread t)) (tr @ [(t, Atomic_Read (Done_Flag h) Acquire)])"
  using assms(1)
  by (rule own_ok_snoc)
    (use assms(2-) in \<open>auto intro: visible_snoc guarded_snoc intro!: acquire_seen [where x = "Done_Flag h"]\<close>)

section \<open>The accesses of the two threads\<close>

text \<open>
  The accesses of a step of \<open>coro_step\<close>, thread 0 being the main thread and thread 1 the worker of the
  timer service.  Locking a mutex is an acquire operation and unlocking it a release operation; a wait on the
  condition variable releases the mutex and takes it again.  A successful pass of \<open>wait_all\<close> reads all flags.
\<close>

definition take_mutex :: "(coro_atomic, coro_var) action" where
  "take_mutex = Atomic_Update Timer_Mutex Acquire"

definition drop_mutex :: "(coro_atomic, coro_var) action" where
  "drop_mutex = Atomic_Write Timer_Mutex Release"

text \<open>The orders of the done flags: stored in \<open>final_suspend\<close>, loaded in \<open>wait_all\<close>.\<close>

definition done_store_order :: memory_order where
  "done_store_order = Release"

definition done_load_order :: memory_order where
  "done_load_order = Acquire"

fun coro_acts :: "nat \<Rightarrow> nat \<Rightarrow> coro_pc \<Rightarrow> coro_pc \<Rightarrow> (coro_atomic, coro_var) action list" where
  "coro_acts n i (Co_Create k) l = (if k < n then [Atomic_Write (Done_Flag k) Relaxed, Plain_Write (Frame k)] else [])"
| "coro_acts n i (Co_Run k) l = [Plain_Write (Frame k)]"
| "coro_acts n i (Co_Clock k) l = [Plain_Read (Frame k)]"
| "coro_acts n i (Co_Lock k w) l = [take_mutex]"
| "coro_acts n i (Co_Push k w) l = [Plain_Write Heap_Var]"
| "coro_acts n i (Co_Unlock k) l = [drop_mutex]"
| "coro_acts n i (Co_Final k) l = [Plain_Read (Frame k), Atomic_Write (Done_Flag k) done_store_order]"
| "coro_acts n i (Co_Continue k) l = [Plain_Read (Continuation k)]"
| "coro_acts n i Co_Poll l = map (\<lambda>k. Atomic_Read (Done_Flag k) done_load_order) [0..<n]"
| "coro_acts n i (Co_Destroy k) l = (if k < n then [Plain_Write (Frame k), Plain_Write (Continuation k)] else [])"
| "coro_acts n i Co_Stop_Lock l = [take_mutex]"
| "coro_acts n i Co_Stop_Set l = [Plain_Write Stop_Var]"
| "coro_acts n i Co_Stop_Unlock l = [drop_mutex]"
| "coro_acts n i Co_Join l = [Joined 1]"
| "coro_acts n i Ti_Start l = [take_mutex]"
| "coro_acts n i Ti_Loop l = [Plain_Read Stop_Var, Plain_Read Heap_Var]"
| "coro_acts n i Ti_Test l = [Plain_Read Stop_Var, Plain_Read Heap_Var]"
| "coro_acts n i Ti_Wait l = [drop_mutex]"
| "coro_acts n i Ti_Relock l = [take_mutex]"
| "coro_acts n i Ti_Retest l = [Plain_Read Stop_Var, Plain_Read Heap_Var]"
| "coro_acts n i Ti_Top l = Plain_Read Heap_Var # (case l of Ti_Unlock h \<Rightarrow> [Plain_Write Heap_Var] | _ \<Rightarrow> [])"
| "coro_acts n i (Ti_Wait_Until w) l = [drop_mutex]"
| "coro_acts n i Ti_Timed_Relock l = [take_mutex]"
| "coro_acts n i (Ti_Unlock h) l = [drop_mutex]"
| "coro_acts n i (Ti_Resume h) l = [Plain_Write (Frame h)]"
| "coro_acts n i (Ti_Final h) l = [Plain_Read (Frame h), Atomic_Write (Done_Flag h) done_store_order]"
| "coro_acts n i (Ti_Continue h) l = [Plain_Read (Continuation h)]"
| "coro_acts n i Ti_Lock_Again l = [take_mutex]"
| "coro_acts n i Ti_Return l = [drop_mutex, Finish]"
| "coro_acts n i _ l = []"

definition logged_coro_step :: "bool \<Rightarrow> (nat \<Rightarrow> nat) \<Rightarrow> 'r body \<Rightarrow> nat \<Rightarrow> (coro_pc, 'r coro \<times> coro_history) stepper" where
  "logged_coro_step spurious elapsed body n = logged (coro_acts n) (coro_step spurious elapsed body n)"

text \<open>The constructor of the service has initialized its members and started the worker.\<close>

definition logged_coro_start :: "nat \<Rightarrow> (coro_pc, 'r coro \<times> coro_history) conf" where
  "logged_coro_start n = (case coro_start n of (ts, s) \<Rightarrow>
     (ts, (s, [(0, Plain_Write Heap_Var), (0, Plain_Write Stop_Var), (0, Create 1), (1, Begin)])))"

section \<open>The owners in a state\<close>

definition holder_of :: "coro_pc \<Rightarrow> coro_pc \<Rightarrow> nat option" where
  "holder_of m t = (if main_holds m = 1 then Some 0 else if timer_holds t = 1 then Some 1 else None)"

definition owner_of :: "nat \<Rightarrow> coro_pc \<Rightarrow> coro_pc \<Rightarrow> 'r coro \<Rightarrow> nat \<Rightarrow> owner" where
  "owner_of n m t s h =
     (if \<not> h < n then Nobody
      else if polled m \<or> main_has m = Some h then Thread 0
      else if timer_has t = Some h then Thread 1
      else if done_flags s ! h then By_Flag
      else if h \<in> snd ` set (heap s) then By_Mutex
      else Nobody)"

text \<open>At most one of the places of a coroutine is its own.\<close>

lemma slot_places:
  assumes "slots_ok n m t s" "h < n"
  shows "(h < created n m \<and> main_has m = Some h \<and> timer_has t \<noteq> Some h \<and> \<not> done_flags s ! h \<and> h \<notin> snd ` set (heap s))
    \<or> (h < created n m \<and> main_has m \<noteq> Some h \<and> timer_has t = Some h \<and> \<not> done_flags s ! h \<and> h \<notin> snd ` set (heap s))
    \<or> (h < created n m \<and> main_has m \<noteq> Some h \<and> timer_has t \<noteq> Some h \<and> done_flags s ! h \<and> h \<notin> snd ` set (heap s))
    \<or> (h < created n m \<and> main_has m \<noteq> Some h \<and> timer_has t \<noteq> Some h \<and> \<not> done_flags s ! h \<and> h \<in> snd ` set (heap s)
        \<and> count_list (map snd (heap s)) h = 1)
    \<or> (\<not> h < created n m \<and> main_has m \<noteq> Some h \<and> timer_has t \<noteq> Some h \<and> \<not> done_flags s ! h \<and> h \<notin> snd ` set (heap s))"
proof -
  have "slot m t s h = of_bool (h < created n m)" using assms by (simp add: slots_ok_def)
  moreover have "h \<in> snd ` set (heap s) \<longleftrightarrow> 0 < count_list (map snd (heap s)) h"
    using count_list_0_iff [of "map snd (heap s)" h] by auto
  ultimately show ?thesis
    by (cases "main_has m = Some h"; cases "timer_has t = Some h"; cases "done_flags s ! h";
        cases "h < created n m") (simp_all add: slot_def)
qed

lemma own_ok_polls:
  assumes "own_ok holder own tr" "\<forall>h \<in> set hs. own h = By_Flag" "distinct hs"
  shows "own_ok holder (\<lambda>h. if h \<in> set hs then Thread 0 else own h)
    (tr @ map (Pair 0) (map (\<lambda>h. Atomic_Read (Done_Flag h) Acquire) hs))"
  using assms
proof (induction hs arbitrary: tr own)
  case Nil
  then show ?case by simp
next
  case (Cons h hs)
  then have step: "own_ok holder (own(h := Thread 0)) (tr @ [(0, Atomic_Read (Done_Flag h) Acquire)])"
    by (intro own_ok_acquire) simp_all
  have flags: "\<forall>g \<in> set hs. (own(h := Thread 0)) g = By_Flag" using Cons.prems by auto
  have "distinct hs" using Cons.prems(3) by simp
  note Cons.IH [OF step flags this]
  moreover have "(\<lambda>g. if g \<in> set hs then Thread 0 else (own(h := Thread 0)) g)
      = (\<lambda>g. if g \<in> set (h # hs) then Thread 0 else own g)"
    by auto
  ultimately show ?case by simp
qed

section \<open>Every step keeps the owners\<close>

lemmas act_defs = take_mutex_def drop_mutex_def done_store_order_def done_load_order_def

lemma own_ok_cong: "own_ok holder own tr \<Longrightarrow> (\<And>h. own' h = own h) \<Longrightarrow> own_ok holder own' tr"
  by (metis ext)

text \<open>An owner accesses its frame, perhaps for the first time.\<close>

lemma own_ok_access:
  assumes "own_ok holder own tr" "t \<le> 1" "own h = Thread t" "e = Plain_Read (Frame h) \<or> e = Plain_Write (Frame h)"
  shows "own_ok holder own (tr @ [(t, e)])"
  using own_ok_frame [OF assms(1,2), of h e] assms(3,4) by (simp add: fun_upd_idem)

text \<open>The main thread's steps on a frame.\<close>

lemma main_frame_own_ok:
  assumes th: "threads_ok n (awaiting body) m t s" and sl: "slots_ok n m t s"
    and st: "(m', s') \<in> set (main_coro_step elapsed body n ts s m)"
    and o: "own_ok (holder_of m t) (owner_of n m t s) tr"
    and m: "m = Co_Create i \<or> m = Co_Run i \<or> m = Co_Clock i \<or> m = Co_Final i \<or> m = Co_Continue i \<or> m = Co_Destroy i"
  shows "own_ok (holder_of m' t) (owner_of n m' t s') (tr @ map (Pair 0) (coro_acts n 0 m m'))"
proof -
  have len: "length (done_flags s) = n" using sl by (simp add: slots_ok_def)
  have bound: "main_bound n (awaiting body) m" using th by (simp add: threads_ok_def)
  have hand: "owner_of n m t s i = Thread 0 \<and> i < n" if "main_has m = Some i"
  proof -
    have "i < n" using that m bound by (elim disjE) simp_all
    then show ?thesis using that by (simp add: owner_of_def)
  qed
  show ?thesis
    using m
  proof (elim disjE)
    assume m: "m = Co_Create i"
    show ?thesis
    proof (cases "i < n")
      case True
      have own: "owner_of n m t s i = Nobody" "\<not> done_flags s ! i"
        using slot_places [OF sl True] m True by (auto simp: owner_of_def)
      have "own_ok (holder_of m t) (owner_of n m t s) (tr @ [(0, Atomic_Write (Done_Flag i) Relaxed)])"
        using o by (rule own_ok_inert) (use own in auto)
      then have "own_ok (holder_of m t) ((owner_of n m t s)(i := Thread 0))
          ((tr @ [(0, Atomic_Write (Done_Flag i) Relaxed)]) @ [(0, Plain_Write (Frame i))])"
        by (rule own_ok_frame) (use own in auto)
      then show ?thesis
        using st m True own(2) len
        by (auto simp: main_coro_step_def holder_of_def owner_of_def nth_list_update elim!: own_ok_cong)
    qed (use o st m in \<open>auto simp: main_coro_step_def holder_of_def owner_of_def elim!: own_ok_cong\<close>)
  next
    assume m: "m = Co_Run i"
    have "own_ok (holder_of m t) (owner_of n m t s) (tr @ [(0, Plain_Write (Frame i))])"
      using o by (rule own_ok_access) (use hand m in auto)
    then show ?thesis
      using st m by (auto simp: main_coro_step_def Let_def holder_of_def owner_of_def split: if_splits elim!: own_ok_cong)
  next
    assume m: "m = Co_Clock i"
    have "own_ok (holder_of m t) (owner_of n m t s) (tr @ [(0, Plain_Read (Frame i))])"
      using o by (rule own_ok_access) (use hand m in auto)
    then show ?thesis
      using st m by (auto simp: main_coro_step_def Let_def holder_of_def owner_of_def elim!: own_ok_cong)
  next
    assume m: "m = Co_Final i"
    then have i: "owner_of n m t s i = Thread 0" "i < n" using hand by simp_all
    have "own_ok (holder_of m t) (owner_of n m t s) (tr @ [(0, Plain_Read (Frame i))])"
      using o by (rule own_ok_access) (use i in auto)
    then have "own_ok (holder_of m t) ((owner_of n m t s)(i := By_Flag))
        ((tr @ [(0, Plain_Read (Frame i))]) @ [(0, Atomic_Write (Done_Flag i) Release)])"
      by (rule own_ok_finish) (use i in auto)
    then show ?thesis
      using st m i(2) len slot_places [OF sl i(2)]
      by (auto simp: main_coro_step_def holder_of_def owner_of_def act_defs nth_list_update elim!: own_ok_cong)
  next
    assume m: "m = Co_Continue i"
    have "own_ok (holder_of m t) (owner_of n m t s) (tr @ [(0, Plain_Read (Continuation i))])"
      using o by (rule own_ok_continuation) auto
    then show ?thesis
      using st m by (auto simp: main_coro_step_def holder_of_def owner_of_def elim!: own_ok_cong)
  next
    assume m: "m = Co_Destroy i"
    show ?thesis
    proof (cases "i < n")
      case True
      have "own_ok (holder_of m t) (owner_of n m t s) (tr @ [(0, Plain_Write (Frame i))])"
        using o by (rule own_ok_access) (use True m in \<open>auto simp: owner_of_def\<close>)
      then have "own_ok (holder_of m t) (owner_of n m t s)
          ((tr @ [(0, Plain_Write (Frame i))]) @ [(0, Plain_Write (Continuation i))])"
        by (rule own_ok_continuation) auto
      then show ?thesis
        using st m True by (auto simp: main_coro_step_def holder_of_def owner_of_def elim!: own_ok_cong)
    qed (use o st m in \<open>auto simp: main_coro_step_def holder_of_def owner_of_def elim!: own_ok_cong\<close>)
  qed
qed

text \<open>Who holds the mutex.\<close>

lemma mutex_holder:
  assumes "threads_ok n a m t s"
  shows "\<not> timer_mtx s \<Longrightarrow> holder_of m t = None \<and> main_holds m = 0 \<and> timer_holds t = 0"
    and "main_holds m = 1 \<Longrightarrow> holder_of m t = Some 0 \<and> timer_holds t = 0"
    and "timer_holds t = 1 \<Longrightarrow> holder_of m t = Some 1 \<and> main_holds m = 0"
proof -
  have "main_holds m + timer_holds t = of_bool (timer_mtx s)" using assms by (simp add: threads_ok_def)
  then show "\<not> timer_mtx s \<Longrightarrow> holder_of m t = None \<and> main_holds m = 0 \<and> timer_holds t = 0"
    and "main_holds m = 1 \<Longrightarrow> holder_of m t = Some 0 \<and> timer_holds t = 0"
    and "timer_holds t = 1 \<Longrightarrow> holder_of m t = Some 1 \<and> main_holds m = 0"
    by (cases "timer_mtx s"; simp add: holder_of_def)+
qed

text \<open>The main thread's steps on the service, and the poll.\<close>

lemma main_service_own_ok:
  assumes th: "threads_ok n (awaiting body) m t s" and sl: "slots_ok n m t s"
    and st: "(m', s') \<in> set (main_coro_step elapsed body n ts s m)"
    and o: "own_ok (holder_of m t) (owner_of n m t s) tr"
    and m: "(\<exists>i w. m = Co_Lock i w) \<or> (\<exists>i w. m = Co_Push i w) \<or> (\<exists>i. m = Co_Unlock i) \<or> m = Co_Stop_Lock
      \<or> m = Co_Stop_Set \<or> m = Co_Stop_Unlock \<or> m = Co_Poll"
  shows "own_ok (holder_of m' t) (owner_of n m' t s') (tr @ map (Pair 0) (coro_acts n 0 m m'))"
proof -
  note holder = mutex_holder [OF th]
  have o_take: "own_ok (Some 0) (owner_of n m t s) (tr @ [(0, take_mutex)])" if "\<not> timer_mtx s"
    using o holder(1) [OF that] by (auto simp: take_mutex_def intro: own_ok_take)
  have o_drop: "own_ok None (owner_of n m t s) (tr @ [(0, drop_mutex)])" if "main_holds m = 1"
    using o holder(2) [OF that] by (auto simp: drop_mutex_def intro: own_ok_release)
  show ?thesis
    using m
  proof (elim disjE exE)
    fix i w assume m: "m = Co_Lock i w"
    then show ?thesis
      using st o_take holder(1) by (auto simp: main_coro_step_def holder_of_def owner_of_def split: if_splits elim!: own_ok_cong)
  next
    fix i w assume m: "m = Co_Push i w"
    then have i: "i < n" "owner_of n m t s i = Thread 0" using th by (simp_all add: threads_ok_def owner_of_def)
    have "own_ok (Some 0) (owner_of n m t s) (tr @ [(0, Plain_Write Heap_Var)])"
      using o m by (intro own_ok_service) (simp_all add: holder_of_def)
    then have "own_ok (Some 0) ((owner_of n m t s)(i := By_Mutex)) (tr @ [(0, Plain_Write Heap_Var)])"
      by (rule own_ok_move) (use i in auto)
    then show ?thesis
      using st m i slot_places [OF sl i(1)]
      by (auto simp: main_coro_step_def holder_of_def owner_of_def elim!: own_ok_cong)
  next
    fix i assume "m = Co_Unlock i"
    then show ?thesis
      using st o_drop holder(2) by (auto simp: main_coro_step_def holder_of_def owner_of_def elim!: own_ok_cong)
  next
    assume "m = Co_Stop_Lock"
    then show ?thesis
      using st o_take holder(1) by (auto simp: main_coro_step_def holder_of_def owner_of_def split: if_splits elim!: own_ok_cong)
  next
    assume m: "m = Co_Stop_Set"
    have "own_ok (Some 0) (owner_of n m t s) (tr @ [(0, Plain_Write Stop_Var)])"
      using o m by (intro own_ok_service) (simp_all add: holder_of_def)
    then show ?thesis
      using st m by (auto simp: main_coro_step_def holder_of_def owner_of_def elim!: own_ok_cong)
  next
    assume "m = Co_Stop_Unlock"
    then show ?thesis
      using st o_drop holder(2) by (auto simp: main_coro_step_def holder_of_def owner_of_def elim!: own_ok_cong)
  next
    assume m: "m = Co_Poll"
    then have flags: "\<forall>h \<in> set [0..<n]. owner_of n m t s h = By_Flag" and m': "m' = Co_Destroy 0" "s' = s"
      using st sl slot_places [OF sl]
      by (auto simp: main_coro_step_def wait_pass_iff slots_ok_def list_all_length owner_of_def split: if_splits)
    show ?thesis
      using own_ok_polls [OF o flags] m m'
      by (auto simp: holder_of_def owner_of_def act_defs elim!: own_ok_cong)
  qed
qed

lemma main_own_ok:
  assumes th: "threads_ok n (awaiting body) m t s" and sl: "slots_ok n m t s"
    and st: "(m', s') \<in> set (main_coro_step elapsed body n ts s m)"
    and o: "own_ok (holder_of m t) (owner_of n m t s) tr"
  shows "own_ok (holder_of m' t) (owner_of n m' t s') (tr @ map (Pair 0) (coro_acts n 0 m m'))"
proof -
  consider (frame) i where "m = Co_Create i \<or> m = Co_Run i \<or> m = Co_Clock i \<or> m = Co_Final i \<or> m = Co_Continue i \<or> m = Co_Destroy i"
    | (service) "(\<exists>i w. m = Co_Lock i w) \<or> (\<exists>i w. m = Co_Push i w) \<or> (\<exists>i. m = Co_Unlock i) \<or> m = Co_Stop_Lock
      \<or> m = Co_Stop_Set \<or> m = Co_Stop_Unlock \<or> m = Co_Poll"
    | (quiet) "(\<exists>i. m = Co_Notify i) \<or> m = Co_Stop_Notify" | (join) "m = Co_Join" | (none) "m = Co_Over"
    using th by (cases m) (auto simp: threads_ok_def)
  then show ?thesis
  proof cases
    case (frame i)
    with th sl st o show ?thesis by (rule main_frame_own_ok)
  next
    case service
    with th sl st o show ?thesis by (rule main_service_own_ok)
  next
    case quiet
    then show ?thesis
      using o st by (auto simp: main_coro_step_def holder_of_def owner_of_def elim!: own_ok_cong)
  next
    case join
    have "own_ok (holder_of m t) (owner_of n m t s) (tr @ [(0, Joined 1)])" using o by (rule own_ok_inert) auto
    then show ?thesis
      using st join by (auto simp: main_coro_step_def holder_of_def owner_of_def split: if_splits elim!: own_ok_cong)
  next
    case none
    then show ?thesis using st by (simp add: main_coro_step_def)
  qed
qed

text \<open>The worker's steps on a frame.\<close>

lemma timer_frame_own_ok:
  assumes sl: "slots_ok n m t s" and st: "(t', s') \<in> set (timer_step spurious elapsed body s t)"
    and o: "own_ok (holder_of m t) (owner_of n m t s) tr"
    and t: "t = Ti_Resume h \<or> t = Ti_Final h \<or> t = Ti_Continue h"
  shows "own_ok (holder_of m t') (owner_of n m t' s') (tr @ map (Pair 1) (coro_acts n 1 t t'))"
proof -
  have len: "length (done_flags s) = n" using sl by (simp add: slots_ok_def)
  have hand: "owner_of n m t s h = Thread 1" "h < n" "\<not> polled m" "main_has m \<noteq> Some h" if has: "timer_has t = Some h"
  proof -
    show h: "h < n" using sl has by (simp add: slots_ok_def)
    then show "\<not> polled m" "main_has m \<noteq> Some h"
      using slot_places [OF sl h] has sl by (auto simp: slots_ok_def list_all_length)
    then show "owner_of n m t s h = Thread 1" using h has by (simp add: owner_of_def)
  qed
  show ?thesis
    using t
  proof (elim disjE)
    assume t: "t = Ti_Resume h"
    have "own_ok (holder_of m t) (owner_of n m t s) (tr @ [(1, Plain_Write (Frame h))])"
      using o by (rule own_ok_access) (use hand t in auto)
    then show ?thesis
      using st t by (auto simp: timer_step_def holder_of_def owner_of_def elim!: own_ok_cong)
  next
    assume t: "t = Ti_Final h"
    then have h: "owner_of n m t s h = Thread 1" "h < n" "\<not> polled m" "main_has m \<noteq> Some h" using hand by simp_all
    have "own_ok (holder_of m t) (owner_of n m t s) (tr @ [(1, Plain_Read (Frame h))])"
      using o by (rule own_ok_access) (use h in auto)
    then have "own_ok (holder_of m t) ((owner_of n m t s)(h := By_Flag))
        ((tr @ [(1, Plain_Read (Frame h))]) @ [(1, Atomic_Write (Done_Flag h) Release)])"
      by (rule own_ok_finish) (use h in auto)
    then show ?thesis
      using st t h(2-) len
      by (auto simp: timer_step_def holder_of_def owner_of_def act_defs nth_list_update elim!: own_ok_cong)
  next
    assume t: "t = Ti_Continue h"
    have "own_ok (holder_of m t) (owner_of n m t s) (tr @ [(1, Plain_Read (Continuation h))])"
      using o by (rule own_ok_continuation) auto
    then show ?thesis
      using st t by (auto simp: timer_step_def holder_of_def owner_of_def elim!: own_ok_cong)
  qed
qed

text \<open>Its steps on the service.\<close>

lemma own_ok_reads:
  assumes "own_ok (Some 1) own tr"
  shows "own_ok (Some 1) own (tr @ [(1, Plain_Read Stop_Var), (1, Plain_Read Heap_Var)])"
  using own_ok_service [OF own_ok_service [OF assms, of Stop_Var "Plain_Read Stop_Var"], of Heap_Var "Plain_Read Heap_Var"]
  by simp

lemma remove_other: "h \<noteq> snd e \<Longrightarrow> h \<in> snd ` set (remove1 e es) \<longleftrightarrow> h \<in> snd ` set es"
  by (induction es) auto

lemma timer_top_own_ok:
  assumes sl: "slots_ok n m Ti_Top s" and st: "(t', s') \<in> set (timer_step spurious elapsed body s Ti_Top)"
    and o: "own_ok (Some 1) (owner_of n m Ti_Top s) tr"
  shows "own_ok (Some 1) (owner_of n m t' s') (tr @ map (Pair 1) (coro_acts n 1 Ti_Top t'))"
proof -
  have r: "own_ok (Some 1) (owner_of n m Ti_Top s) (tr @ [(1, Plain_Read Heap_Var)])"
    using o by (rule own_ok_service) auto
  consider (early) w where "t' = Ti_Wait_Until w" "heap s' = heap s" "done_flags s' = done_flags s"
    | (due) e where "t' = Ti_Unlock (snd e)" "e \<in> set (heap s)" "heap s' = remove1 e (heap s)" "done_flags s' = done_flags s"
    using st by (auto simp: timer_step_def Let_def tops_def split: if_splits)
  then show ?thesis
  proof cases
    case early
    then show ?thesis using r by (auto simp: owner_of_def elim!: own_ok_cong)
  next
    case (due e)
    have e: "snd e < n" using sl due(2) by (auto simp: slots_ok_def list_all_iff)
    then have own: "owner_of n m Ti_Top s (snd e) = By_Mutex" "\<not> polled m" "main_has m \<noteq> Some (snd e)"
      using slot_places [OF sl e] due(2) sl by (auto simp: owner_of_def slots_ok_def list_all_length)
    have "own_ok (Some 1) (owner_of n m Ti_Top s) ((tr @ [(1, Plain_Read Heap_Var)]) @ [(1, Plain_Write Heap_Var)])"
      using r by (rule own_ok_service) auto
    then have moved: "own_ok (Some 1) ((owner_of n m Ti_Top s)(snd e := Thread 1))
        ((tr @ [(1, Plain_Read Heap_Var)]) @ [(1, Plain_Write Heap_Var)])"
      by (rule own_ok_move) (use own in auto)
    have "h \<in> snd ` set (remove1 e (heap s)) \<longleftrightarrow> h \<in> snd ` set (heap s)" if "h \<noteq> snd e" for h
      using that by (rule remove_other)
    then show ?thesis
      using moved own e due by (auto simp: owner_of_def elim!: own_ok_cong)
  qed
qed

lemma timer_own_ok:
  assumes th: "threads_ok n a m t s" and sl: "slots_ok n m t s"
    and st: "(t', s') \<in> set (timer_step spurious elapsed body s t)"
    and o: "own_ok (holder_of m t) (owner_of n m t s) tr"
  shows "own_ok (holder_of m t') (owner_of n m t' s') (tr @ map (Pair 1) (coro_acts n 1 t t'))"
proof -
  note holder = mutex_holder [OF th]
  have o_take: "own_ok (Some 1) (owner_of n m t s) (tr @ [(1, take_mutex)])" if "\<not> timer_mtx s"
    using o holder(1) [OF that] by (auto simp: take_mutex_def intro: own_ok_take)
  have o_drop: "own_ok None (owner_of n m t s) (tr @ [(1, drop_mutex)])" if "timer_holds t = 1"
    using o holder(3) [OF that] by (auto simp: drop_mutex_def intro: own_ok_release)
  have o_reads: "own_ok (Some 1) (owner_of n m t s) (tr @ [(1, Plain_Read Stop_Var), (1, Plain_Read Heap_Var)])"
    if "timer_holds t = 1"
    using o holder(3) [OF that] own_ok_reads [of "owner_of n m t s" tr] by simp
  consider (frame) h where "t = Ti_Resume h \<or> t = Ti_Final h \<or> t = Ti_Continue h" | (top) "t = Ti_Top"
    | (take) "t = Ti_Start \<or> t = Ti_Relock \<or> t = Ti_Timed_Relock \<or> t = Ti_Lock_Again"
    | (drop) w h where "t = Ti_Wait \<or> t = Ti_Wait_Until w \<or> t = Ti_Unlock h" | (return) "t = Ti_Return"
    | (reads) "t = Ti_Loop \<or> t = Ti_Test \<or> t = Ti_Retest" | (quiet) w where "t = Ti_Blocked \<or> t = Ti_Timed w"
    | (none) "t = Ti_Over"
    using th by (cases t) (auto simp: threads_ok_def)
  then show ?thesis
  proof cases
    case (frame h)
    with sl st o show ?thesis by (rule timer_frame_own_ok)
  next
    case top
    then have "own_ok (Some 1) (owner_of n m t' s') (tr @ map (Pair 1) (coro_acts n 1 t t'))"
      using timer_top_own_ok [of n m s t' s'] sl st o holder(3) by simp
    moreover have "holder_of m t' = Some 1"
      using st top holder(3) by (auto simp: timer_step_def Let_def holder_of_def split: if_splits)
    ultimately show ?thesis by simp
  next
    case take
    then show ?thesis
      using st o_take holder(1)
      by (auto simp: timer_step_def holder_of_def owner_of_def split: if_splits elim!: own_ok_cong)
  next
    case (drop w h)
    then have "timer_holds t = 1" by auto
    then show ?thesis
      using drop st o_drop holder(3)
      by (auto simp: timer_step_def holder_of_def owner_of_def elim!: own_ok_cong)
  next
    case return
    then have "own_ok None (owner_of n m t s) (tr @ [(1, drop_mutex)])" using o_drop by simp
    then have "own_ok None (owner_of n m t s) ((tr @ [(1, drop_mutex)]) @ [(1, Finish)])"
      by (rule own_ok_inert) auto
    then show ?thesis
      using return st holder(3) by (auto simp: timer_step_def holder_of_def owner_of_def elim!: own_ok_cong)
  next
    case reads
    then have "timer_holds t = 1" by auto
    then show ?thesis
      using reads st o_reads holder(3)
      by (auto simp: timer_step_def holder_of_def owner_of_def elim!: own_ok_cong)
  next
    case (quiet w)
    then show ?thesis
      using st o by (auto simp: timer_step_def holder_of_def owner_of_def split: if_splits elim!: own_ok_cong)
  next
    case none
    then show ?thesis using st by (simp add: timer_step_def)
  qed
qed

section \<open>What races and what does not\<close>

definition frame_inv :: "'r body \<Rightarrow> nat \<Rightarrow> (coro_pc, 'r coro \<times> coro_history) conf \<Rightarrow> bool" where
  "frame_inv body n conf = (case conf of (ts, (s, tr)) \<Rightarrow> coro_inv body n (ts, s)
     \<and> (\<forall>m t. ts = [m, t] \<longrightarrow> own_ok (holder_of m t) (owner_of n m t s) tr))"

lemma frame_inv_start: "frame_inv body n (logged_coro_start n)"
  for body :: "'r body"
proof -
  let ?tr = "[(0, Plain_Write Heap_Var), (0, Plain_Write Stop_Var), (0, Create 1), (1, Begin)] :: coro_history"
  have edge: "hb ?tr 2 3" by (rule hb.thread_start [of _ _ _ 1]) simp_all
  have "hb ?tr 0 2" "hb ?tr 1 2" by (rule hb.program_order; simp)+
  then have "hb ?tr 0 3" "hb ?tr 1 3" using edge by (blast intro: hb.transitive)+
  then have known: "seen ?tr 0 0" "seen ?tr 0 1" "seen ?tr 1 0" "seen ?tr 1 1"
    unfolding seen_def by (auto simp: numeral_eq_Suc intro: exI [of _ 0] exI [of _ 1] exI [of _ 3])
  have "own_ok None (\<lambda>h. Nobody) ?tr"
  proof (rule own_okI)
    fix v a assume "v = Heap_Var \<or> v = Stop_Var" "touches ?tr v a"
    then have "a = 0 \<or> a = 1" by (auto simp: touches_def less_Suc_eq)
    then show "guarded None ?tr a" using known by (auto simp: guarded_def)
  qed (auto simp: race_def touches_def less_Suc_eq)
  moreover have "owner_of n (Co_Create 0) Ti_Start (coro_ctor n :: 'r coro) = (\<lambda>h. Nobody)"
    by (auto simp: owner_of_def coro_ctor_def fun_eq_iff)
  ultimately show ?thesis
    using coro_start_inv [of body n]
    by (simp add: frame_inv_def logged_coro_start_def coro_start_def holder_of_def)
qed

lemma frame_keeps:
  assumes inv: "frame_inv body n (ts, (s, tr))" and i: "i < length ts"
    and st: "(l, (s', tr')) \<in> set (logged_coro_step spurious elapsed body n i ts (s, tr))"
  shows "frame_inv body n (ts[i := l], (s', tr'))"
proof -
  have lg: "(l, s') \<in> set (coro_step spurious elapsed body n i ts s)"
    and tr': "tr' = tr @ map (Pair i) (coro_acts n i (ts ! i) l)"
    using st by (auto simp: logged_coro_step_def logged_iff)
  obtain m t where ts: "ts = [m, t]" and th: "threads_ok n (awaiting body) m t s" and sl: "slots_ok n m t s"
    and o: "own_ok (holder_of m t) (owner_of n m t s) tr"
    using inv by (auto simp: frame_inv_def coro_inv_def)
  have "coro_inv body n (ts[i := l], s')"
    using inv i lg by (intro coro_keeps) (auto simp: frame_inv_def)
  moreover have "own_ok (holder_of m' t') (owner_of n m' t' s') tr'" if new: "ts[i := l] = [m', t']" for m' t'
  proof (cases "i = 0")
    case True
    then show ?thesis using main_own_ok [OF th sl _ o] lg tr' ts new by (simp add: coro_step_def)
  next
    case False
    then have "i = 1" using i ts by simp
    then show ?thesis using timer_own_ok [OF th sl _ o] lg tr' ts new by (simp add: coro_step_def)
  qed
  ultimately show ?thesis by (simp add: frame_inv_def)
qed

interpretation frames: interleaving "logged_coro_step spurious elapsed body n" "logged_coro_start n" "frame_inv body n"
  for spurious elapsed body n
  by unfold_locales (auto intro: frame_inv_start frame_keeps)

text \<open>
  C14. In every history of a coroutine benchmark, for any clock, number and kind of coroutines, the only
  data races are between the main thread's destruction of a frame and the final awaiter's read of the member
  \<open>continuation\<close> of that frame on the worker.  All other conflicting accesses of the two threads are
  ordered by happens-before: those to the heap and the stop flag by the mutex, those to a frame on its way to the worker by the mutex,
  and on its way back by the release store of the done flag and the acquire load in \<open>wait_all\<close>.
\<close>

theorem only_final_reads_race:
  assumes "steps (logged_coro_step spurious elapsed body n) (logged_coro_start n) (ts, (s, tr))" "race tr a b"
  shows "\<exists>h. {tr ! a, tr ! b} = {(0, Plain_Write (Continuation h)), (1, Plain_Read (Continuation h))}"
proof -
  have "frame_inv body n (ts, (s, tr))" using assms(1) by (rule frames.reach_inv)
  then obtain m t where "own_ok (holder_of m t) (owner_of n m t s) tr" by (auto simp: frame_inv_def coro_inv_def)
  then show ?thesis using own_okD(1) assms(2) by (auto simp: final_read_race_def)
qed

text \<open>
  The race is there: one coroutine, which the worker resumes as soon as it has been scheduled; its final
  awaiter has stored the flag when the main thread polls and destroys the frame.
\<close>

abbreviation early_destruction :: "(nat \<times> nat) list" where
  "early_destruction \<equiv> replicate 8 (0,0) @ replicate 6 (1,0) @ replicate 2 (0,0) @ [(1,0)]"

lemma early_destruction_log:
  "map_option (snd \<circ> snd) (exec (logged_coro_step False (\<lambda>k. 10) (async_io_task 5) 1) (logged_coro_start 1) early_destruction)
   = Some [(0, Plain_Write Heap_Var), (0, Plain_Write Stop_Var), (0, Create 1), (1, Begin),
       (0, Atomic_Write (Done_Flag 0) Relaxed), (0, Plain_Write (Frame 0)), (0, Plain_Write (Frame 0)),
       (0, Plain_Read (Frame 0)), (0, take_mutex), (0, Plain_Write Heap_Var), (0, drop_mutex),
       (1, take_mutex), (1, Plain_Read Stop_Var), (1, Plain_Read Heap_Var), (1, Plain_Read Heap_Var),
       (1, Plain_Write Heap_Var), (1, drop_mutex), (1, Plain_Write (Frame 0)), (1, Plain_Read (Frame 0)),
       (1, Atomic_Write (Done_Flag 0) done_store_order),
       (0, Atomic_Read (Done_Flag 0) done_load_order), (0, Plain_Write (Frame 0)), (0, Plain_Write (Continuation 0)),
       (1, Plain_Read (Continuation 0))]"
  by (simp add: logged_coro_step_def logged_def logged_coro_start_def coro_start_def coro_ctor_def coro_step_def
    main_coro_step_def timer_step_def async_io_task_def read_clock_def touch_def tops_def numeral_eq_Suc)

theorem only_final_reads_race_witness:
  "\<exists>ts s tr. steps (logged_coro_step False (\<lambda>k. 10) (async_io_task 5) 1) (logged_coro_start 1) (ts, (s, tr))
    \<and> race tr 22 23 \<and> {tr ! 22, tr ! 23} = {(0, Plain_Write (Continuation 0)), (1, Plain_Read (Continuation 0))}"
proof -
  obtain ts s tr where ex: "exec (logged_coro_step False (\<lambda>k. 10) (async_io_task 5) 1) (logged_coro_start 1) early_destruction
      = Some (ts, (s, tr))"
    and tr: "length tr = 24" "tr ! 22 = (0, Plain_Write (Continuation 0))" "tr ! 23 = (1, Plain_Read (Continuation 0))"
    using early_destruction_log by (auto simp: map_option_case split: option.splits)
  have run: "steps (logged_coro_step False (\<lambda>k. 10) (async_io_task 5) 1) (logged_coro_start 1) (ts, (s, tr))"
    using ex by (rule exec_steps)
  have "\<not> publishes (snd (tr ! k))" if "22 \<le> k" "k < length tr" for k
  proof -
    have "k = 22 \<or> k = 23" using that tr(1) by auto
    then show ?thesis using tr by auto
  qed
  then have "\<not> hb tr 22 23" using hb_needs_release [of tr 22 23] tr by auto
  then have "race tr 22 23" using tr by (simp add: race_def)
  with only_final_reads_race [OF run this] run tr show ?thesis by (intro exI conjI) (assumption | simp)+
qed

end
