(* ===== verification/Spec2Isabelle.thy ===== *)
theory Spec2Isabelle
  imports Prelude Double Fairness Locks Harness Counters Spin_Test Clients Scripts Semaphore_Queue
    Semaphore_Spec Semaphore_Session Barrier Barrier_Bench Barrier_Runs Signed_Int Tasks
    Thread_Pool Pool_Session Task_Bench Promises Condvar_Queue Condvar_Session Rw_Mutex Rw_Bench
    Gate_Bench Async_Bench Futures Coroutines Coroutine_Runs Coroutine_Bench Coroutine_Task Platform Reports
    Report_Counts Smoke_Test Memory_Order Race_Freedom Window_Ends Frame_Races Registration
begin

text \<open>
  A verification development of the concurrency benchmarks of this repository: the synchronization
  primitives under include/ and common/, the benchmarks under src/ that drive them, and the smoke
  test under tests/.

  \<^bold>\<open>The program.\<close>  Each benchmark is an iteration function: it creates shared objects (a lock, a
  queue, a barrier, a pool, a timer service), starts threads that work on them, joins the threads
  and reports counters.  The components interact through those objects only, so a benchmark is
  modelled as a list of thread-local states (program counters) next to one shared state.

  \<^bold>\<open>The semantics\<close> (Prelude).  A \<open>stepper\<close> lists, for a thread, the outcomes of its next atomic action:
  none when it is blocked, several where the language leaves a choice (which waiter a notification
  wakes, which of two equal entries a heap returns).  \<open>istep\<close> interleaves the actions under any
  scheduler; \<open>exec\<close> runs a given schedule, for the witnesses.  \<open>finishes\<close> is total correctness: a bound
  on the moves of every run, a final state reachable from every reachable state, and no other
  reachable state without a move; spinning and polling without effect are no moves, and spurious
  wake-ups, of which a run could have any number, are excluded there and allowed in the safety
  theorems.  The locales
  \<open>interleaving\<close> (an invariant) and \<open>live_interleaving\<close> (an invariant and a measure) carry the
  proofs; every component's invariant and measure is an instance.  The steps interleave, so that an
  atomic read takes the last value written; what the memory orders of the source add is the subject
  of Memory_Order and the two theories on it, in which the accesses of a run are logged with their
  orders, happens-before is the relation of C++ on the log, and conflicting plain accesses are shown to be ordered by it.

  \<^bold>\<open>The theories\<close>, in the order of their dependencies:

    \<^item> Prelude: sums over threads, interleavings, termination of concurrent programs.
    \<^item> Double, Fairness: rounding to binary64; common/variance_tracker.cpp and the loops of
      include/bench_harness.hpp that compute the same statistic, which are written out on their own and shown to agree.
    \<^item> Locks: include/spinlock.hpp and std::mutex behind one locale, \<open>lock_protocol\<close>; a counter under a lock.
    \<^item> Harness, Counters: \<open>run_contention_window\<close> of include/bench_harness.hpp for any callable that
      satisfies the locale \<open>counting_body\<close>, and the benchmarks of src/bench_counter_*.cpp as its
      interpretations.
    \<^item> Window_Ends: when a contention window ends, for any callable that makes progress (locale \<open>ending_body\<close>).
    \<^item> Memory_Order, Race_Freedom: memory orders, happens-before and data races; the counters under a
      lock (locale \<open>ordered_client\<close>), with the orders of include/spinlock.hpp.
    \<^item> Clients, Scripts: programs of calls on a shared object, the locale \<open>shared_object\<close>; the same
      programs on an atomic specification of the object, and the simulation that makes the object
      linearizable (locale \<open>object_simulation\<close>, interpreted for the queue and for \<open>ReadWriteData\<close>); threads
      that perform a fixed list of instructions between a spawn and a join loop, the locale \<open>scripted\<close>.
    \<^item> Semaphore_Queue, Semaphore_Spec, Semaphore_Session: include/semaphore_queue.hpp step by step; its
      refinement of an atomic bounded FIFO that refuses pushes once it is closed or shut down, and its
      contract for any clients; the producer/consumer
      benchmarks of src/bench_pc_semaphore.cpp.  Gate_Bench: BinarySemaphore_vs_Mutex.
    \<^item> Barrier, Barrier_Bench, Barrier_Runs: \<open>ManualBarrier\<close>, std::barrier and the benchmarks of
      src/bench_barrier.cpp.
    \<^item> Signed_Int, Tasks: \<open>int\<close> arithmetic that is undefined on overflow (\<open>None\<close>), and the workloads
      \<open>simulate_work\<close>, \<open>cpu_intensive_task\<close>, \<open>cpu_work\<close> and \<open>risky_work\<close>.
    \<^item> Thread_Pool, Pool_Session, Task_Bench, Async_Bench, Promises: include/thread_pool.hpp, sessions
      with it, and the benchmarks of src/bench_thread_pool.cpp and src/bench_async_future.cpp.  Futures: the
      tasks of the latter that wait for futures, in chains or with a timeout.  The futures of these models carry the
      results of their tasks, and the main threads keep what they get, in order.
    \<^item> Condvar_Queue, Condvar_Session: src/bench_pc_condvar.cpp.
    \<^item> Rw_Mutex, Rw_Bench: \<open>ReadWriteData\<close>, its refinement of two atomic maps, and the benchmarks of src/bench_rw_shared_mutex.cpp.
    \<^item> Coroutines, Coroutine_Runs, Coroutine_Bench, Coroutine_Task: src/bench_coroutines.cpp, with its
      timer service and the life cycle of the coroutine frames; the last is the class \<open>Task\<close>, the owner of
      a frame, under any sequence of its operations.  Frame_Races: the data races on the heap, the stop flag and the frames.
    \<^item> Platform: common/affinity.cpp, include/padded.hpp, common/timing.cpp.
    \<^item> Reports, Report_Counts: what the benchmarks report after their iterations, computed from the
      elapsed times and the final states; the item counts and rates of complete runs.
    \<^item> Registration: the \<open>BENCHMARK(...)\<close> registrations of all files, and the iterations they lead to.
    \<^item> Spin_Test, Smoke_Test: tests/test_smoke.cpp and its exit status.

  \<^bold>\<open>How state and operations correspond.\<close>  A class is a record with the source's members, a method a
  group of program counters with one equation per access to shared state; guards, early returns and
  exceptions are the branches of the equations.  Mutexes are flags, condition variables lists of
  waiting threads, semaphores counts, 64-bit counters and the atomic \<open>int\<close> of ManualPromiseFuture words (so that \<open>fetch_add\<close> wraps), \<open>double\<close>
  real numbers with one rounding per operation.  Histories (\<open>log_in\<close>, \<open>log_taken\<close>, \<open>resumed\<close> and the
  like) are fields that no guard reads.

  \<^bold>\<open>What is shown.\<close>  Safety: mutual exclusion, conservation and order of items and tasks, no access to
  an empty queue, barriers that hold all threads back, no resumption of a destroyed coroutine, unique owners of
  coroutine frames, no data race on the locked counters, and none on the coroutine frames but the known one.
  Refinement of the semaphore queue to an atomic FIFO with its closing and of \<open>ReadWriteData\<close> to two maps.  Total correctness of every benchmark's iteration,
  with the values it reports (a contention window is bounded from the store to \<open>stop\<close> on), for the arguments it is registered with; item counts over all iterations, rates within 0 and 100, and when a
  throughput is finite.  Exact domains of the integer workloads.  And the flaws that the
  models exhibit: the use after free of the final awaiter, the lost wake-up of the pool's
  destructor, overflows, fairness counters that are constant.

  \<^bold>\<open>Bounds and fuel.\<close>  The bounds in the \<open>finishes\<close> statements are the measures of the starting states:
  each call costs at most a fixed number of steps, plus what the notifications cause.  Fuel occurs in
  \<open>run_alone\<close> only, a single call of at most 24 actions; loops of the source that may not
  end are \<open>partial_function (option)\<close>.

  \<^bold>\<open>Arguments of the models.\<close>  The readings of the clocks, the random draws, the number of hardware
  threads, the values that the benchmark library picks from a range, and the results of the operating system's affinity calls; hypotheses on them are
  premises of the theorems.  The function that a task runs is an argument too (\<open>run\<close>, \<open>task\<close>, \<open>work\<close>), since the code's own
  workloads overflow at the sizes of the benchmarks and have no value there: the theorems on runs and totals hold for every function,
  and Tasks and Task_Bench state what the code's functions compute.

  \<^bold>\<open>Not modelled.\<close>  How long anything takes (the reports are functions of the elapsed times); stale values that a relaxed
  read might return (relaxed accesses are to counters, and to flags that are read again under a mutex or with acquire order), and
  happens-before in the components other than the counters and the coroutines; memory exhaustion and failing thread creation;
  copies and moves of queued tasks and items; infinite and NaN values as such (\<open>None\<close>); Google Benchmark itself,
  which is not part of the repository; the build files, the scripts, the CI configuration and the recorded results.
\<close>

section \<open>Across the components\<close>

text \<open>
  C40. Two of the fairness counters that the benchmarks report are constants.  In every run of the MPMC
  benchmark each producer has recorded its fixed quota when \<open>producer_fairness\<close> is computed, and in
  every run of StdBarrier\_ArrivalPattern each thread has recorded its 50 phases when \<open>sync_fairness\<close>
  is: both statistics are exactly 0, also in floating point, whatever the scheduling was.
\<close>

theorem fairness_counters_constant:
  assumes "n \<le> 2 ^ 39"
  shows "finishes (session_step (mpmc_session (Suc (Suc n)))) (session_start (mpmc_session (Suc (Suc n))))
      (\<lambda>(ts, (q, c)). session_done (mpmc_session (Suc (Suc n))) (ts, (q, c))
        \<and> coefficient_of_variation (producer_tracker c) = 0) (35077 * (Suc (Suc n)) + 174)
    \<and> finishes (arrival_pattern_step (Suc n)) (arrival_pattern_start (Suc n))
      (\<lambda>(ts, (b, c)). ts = team_end (Suc n) \<and> thread_counts c = replicate (Suc n) 50
        \<and> coefficient_of_variation c = 0) (Suc n * 854 + 3)"
proof
  have "Suc (Suc n) \<le> 2 ^ 40" using assms by simp
  then show "finishes (session_step (mpmc_session (Suc (Suc n)))) (session_start (mpmc_session (Suc (Suc n))))
      (\<lambda>(ts, (q, c)). session_done (mpmc_session (Suc (Suc n))) (ts, (q, c))
        \<and> coefficient_of_variation (producer_tracker c) = 0) (35077 * (Suc (Suc n)) + 174)"
    by (intro finishes_mono [OF mpmc_session_ends]) (auto intro: producer_fairness_done)
next
  have "n \<le> 2 ^ 40" using assms by simp
  then show "finishes (arrival_pattern_step (Suc n)) (arrival_pattern_start (Suc n))
      (\<lambda>(ts, (b, c)). ts = team_end (Suc n) \<and> thread_counts c = replicate (Suc n) 50
        \<and> coefficient_of_variation c = 0) (Suc n * 854 + 3)"
    by (rule sync_fairness_zero)
qed

theorem fairness_counters_constant_witness:
  "finishes (arrival_pattern_step 8) (arrival_pattern_start 8)
      (\<lambda>(ts, (b, c)). ts = team_end 8 \<and> thread_counts c = replicate 8 50 \<and> coefficient_of_variation c = 0) 6835"
  using fairness_counters_constant [of 7] by simp







end
